(* ===== verification/K0_Prelude.thy ===== *)
theory K0_Prelude
  imports "HOL-Library.Word"
begin

text \<open>
  Shared vocabulary of the development: the machine integers of the Rust sources, the ways a
  kernel function can end (a value, a Rust \<^verbatim>\<open>Err\<close>, or a parked core), the two platforms the
  kernel is built for, and the word and list lemmas the component theories rest on.

  Conventions used by every theory.
  \<^item> \<^verbatim>\<open>u64\<close>, \<^verbatim>\<open>u32\<close> and \<^verbatim>\<open>u8\<close> are words of that width; \<^verbatim>\<open>usize\<close> is 64 bits wide on AArch64, so
    \<^verbatim>\<open>usize::try_from(u64)\<close> never fails. An \<^verbatim>\<open>i64\<close> is the same word read with \<open>sint\<close>, so the casts
    between \<^verbatim>\<open>i64\<close> and \<^verbatim>\<open>u64\<close> of the sources are the identity.
  \<^item> The sources are compiled with \<^verbatim>\<open>overflow-checks = true\<close>: a plain \<open>+\<close>, \<open>-\<close> or \<open>*\<close> that leaves the
    width panics, and the panic handler parks the core. Such an addition is \<open>add_pn\<close>.
  \<^item> \<open>halt + 'a\<close> is a computation that may park the core (\<open>Inl\<close>); \<open>'e + 'a\<close> is a Rust \<^verbatim>\<open>Result\<close>
    (\<open>Inl\<close> the \<^verbatim>\<open>Err\<close>).
\<close>

unbundle bit_operations_syntax

section \<open>Machine integers\<close>

type_synonym u8 = "8 word"
type_synonym u32 = "32 word"
type_synonym u64 = "64 word"
type_synonym i64 = "64 word"

named_theorems unat_simps \<open>facts that move word comparisons and arithmetic to natural numbers\<close>

lemmas word_order_unat [unat_simps] = word_le_nat_alt word_less_nat_alt

lemma unat_lt_64 [simp]: "unat (a :: u64) < 18446744073709551616"
  using unsigned_less [of a] by simp

lemma unat_eq_0_64: "unat (a :: u64) = 0 \<longleftrightarrow> a = 0"
  by (simp add: unat_eq_zero)

lemma u64_eq_iff: "(a :: u64) = b \<longleftrightarrow> unat a = unat b"
  by (simp add: word_unat_eq_iff)

definition checked_add :: "u64 \<Rightarrow> u64 \<Rightarrow> u64 option" where
  "checked_add a b = (if unat a + unat b < 2 ^ 64 then Some (a + b) else None)"

definition checked_mul :: "u64 \<Rightarrow> u64 \<Rightarrow> u64 option" where
  "checked_mul a b = (if unat a * unat b < 2 ^ 64 then Some (a * b) else None)"

lemma unat_add_64: "unat a + unat b < 18446744073709551616 \<Longrightarrow> unat ((a :: u64) + b) = unat a + unat b"
  by (simp add: unat_word_ariths)

lemma unat_sub_64: "unat b \<le> unat a \<Longrightarrow> unat ((a :: u64) - b) = unat a - unat b"
  by (simp add: unat_sub word_le_nat_alt)

lemma checked_add_Some:
  "checked_add a b = Some c \<longleftrightarrow> unat a + unat b < 18446744073709551616 \<and> c = a + b"
  by (auto simp: checked_add_def)

lemma checked_add_None: "checked_add a b = None \<longleftrightarrow> 18446744073709551616 \<le> unat a + unat b"
  by (auto simp: checked_add_def)

lemma checked_add_SomeD [dest?]:
  "checked_add a b = Some c \<Longrightarrow> unat c = unat a + unat b"
  by (simp add: checked_add_Some unat_add_64)

lemma checked_mul_SomeD [dest?]:
  "checked_mul a b = Some c \<Longrightarrow> unat c = unat a * unat b"
  by (auto simp: checked_mul_def unat_word_ariths split: if_splits)

text \<open>The bytes of a Rust string literal.\<close>

definition bytes_of :: "string \<Rightarrow> u8 list" where
  "bytes_of s = map of_char s"

section \<open>Results and parked cores\<close>

text \<open>
  Why a core stops for good: a Rust panic, or one of the explicit \<^verbatim>\<open>park()\<close> calls of the
  policy functions in \<^verbatim>\<open>kernel/src/main.rs\<close> and of \<^verbatim>\<open>k0-arch\<close>.
\<close>

datatype halt =
    Panic
  | AllTasksExited
  | AllTasksBlocked
  | TableCorrupt
  | UnexpectedIrq
  | BootRejected

definition and_then :: "'e + 'a \<Rightarrow> ('a \<Rightarrow> 'e + 'b) \<Rightarrow> 'e + 'b" where
  "and_then m f = (case m of Inl e \<Rightarrow> Inl e | Inr a \<Rightarrow> f a)"

definition ok_or :: "'a option \<Rightarrow> 'e \<Rightarrow> 'e + 'a" where
  "ok_or m e = (case m of None \<Rightarrow> Inl e | Some a \<Rightarrow> Inr a)"

definition add_pn :: "u64 \<Rightarrow> u64 \<Rightarrow> halt + u64" where
  "add_pn a b = ok_or (checked_add a b) Panic"

lemma and_then_simps [simp]:
  "and_then (Inl e) f = Inl e"
  "and_then (Inr a) f = f a"
  by (simp_all add: and_then_def)

lemma and_then_Inr:
  "and_then m f = Inr b \<longleftrightarrow> (\<exists>a. m = Inr a \<and> f a = Inr b)"
  by (cases m) auto

lemma and_then_Inl:
  "and_then m f = Inl e \<longleftrightarrow> m = Inl e \<or> (\<exists>a. m = Inr a \<and> f a = Inl e)"
  by (cases m) auto

lemma and_then_fundef_cong [fundef_cong]:
  "m = m' \<Longrightarrow> (\<And>a. m' = Inr a \<Longrightarrow> f a = f' a) \<Longrightarrow> and_then m f = and_then m' f'"
  by (cases m') auto

lemma result_case_Inr:
  "(case r of Inl e \<Rightarrow> Inr (Inl e) | Inr x \<Rightarrow> f x) = Inr (Inr y) \<longleftrightarrow>
     (\<exists>x. r = Inr x \<and> f x = Inr (Inr y))"
  by (cases r) auto

lemma ok_or_simps [simp]:
  "ok_or None e = Inl e"
  "ok_or (Some a) e = Inr a"
  by (simp_all add: ok_or_def)

lemma ok_or_Inr: "ok_or m e = Inr a \<longleftrightarrow> m = Some a"
  by (cases m) auto

lemma ok_or_Inl: "ok_or m e = Inl e' \<longleftrightarrow> m = None \<and> e' = e"
  by (cases m) auto

lemmas result_iffs = and_then_Inr and_then_Inl ok_or_Inr ok_or_Inl

lemma add_pn_ok: "unat a + unat b < 18446744073709551616 \<Longrightarrow> add_pn a b = Inr (a + b)"
  by (simp add: add_pn_def checked_add_def)

lemma add_pn_Inr:
  "add_pn a b = Inr c \<longleftrightarrow> unat a + unat b < 18446744073709551616 \<and> c = a + b"
  by (simp add: add_pn_def ok_or_Inr checked_add_Some)

lemma add_pn_Inl:
  "add_pn a b = Inl h \<longleftrightarrow> 18446744073709551616 \<le> unat a + unat b \<and> h = Panic"
  by (simp add: add_pn_def ok_or_Inl checked_add_None)

section \<open>Platforms\<close>

text \<open>
  The Cargo features \<^verbatim>\<open>plat-virt\<close> and \<^verbatim>\<open>plat-apple\<close> select the translation granule. Every
  definition that depends on it takes the platform as its first argument, so each theorem holds
  for both builds.
\<close>

datatype platform = Virt | Apple

definition PAGE_SHIFT :: "platform \<Rightarrow> nat" where
  "PAGE_SHIFT p = (case p of Virt \<Rightarrow> 12 | Apple \<Rightarrow> 14)"

definition GRANULE :: "platform \<Rightarrow> u64" where
  "GRANULE p = (case p of Virt \<Rightarrow> 4096 | Apple \<Rightarrow> 16384)"

lemma GRANULE_pow: "GRANULE p = 2 ^ PAGE_SHIFT p"
  by (cases p) (simp_all add: GRANULE_def PAGE_SHIFT_def)

lemma unat_GRANULE: "unat (GRANULE p) = 2 ^ PAGE_SHIFT p"
  by (cases p) (simp_all add: GRANULE_def PAGE_SHIFT_def)

lemma GRANULE_bounds:
  "0 < unat (GRANULE p)" "4096 \<le> unat (GRANULE p)" "unat (GRANULE p) \<le> 16384" "GRANULE p \<noteq> 0"
  by (cases p; simp add: GRANULE_def)+

lemma PAGE_SHIFT_lt: "PAGE_SHIFT p < 64"
  by (cases p) (simp_all add: PAGE_SHIFT_def)

section \<open>Alignment\<close>

text \<open>\<open>align_down k x\<close> is the Rust expression \<^verbatim>\<open>x & !((1 << k) - 1)\<close>.\<close>

definition align_down :: "nat \<Rightarrow> u64 \<Rightarrow> u64" where
  "align_down k x = x AND NOT (2 ^ k - 1)"

lemma align_down_sub: "align_down k x = x - take_bit k x"
proof -
  have m: "(2 ^ k - 1 :: u64) = mask k"
    by (simp add: mask_eq_exp_minus_1)
  have "(x AND mask k) AND (x AND NOT (mask k)) = 0"
    by (simp add: bit_eq_iff bit_simps)
  then have "(x AND mask k) + (x AND NOT (mask k)) = (x AND mask k) OR (x AND NOT (mask k))"
    by (rule disjunctive_add_eq_or)
  also have "\<dots> = x"
    by (auto simp: bit_eq_iff bit_simps)
  finally show ?thesis
    unfolding align_down_def m take_bit_eq_mask by (simp add: algebra_simps)
qed

lemma unat_take_bit_64: "unat (take_bit k (x :: u64)) = unat x mod 2 ^ k"
  by (simp only: unsigned_take_bit_eq) (simp add: take_bit_eq_mod)

lemma unat_align_down: "unat (align_down k x) = unat x - unat x mod 2 ^ k"
  by (simp add: align_down_sub unat_sub_64 unat_take_bit_64)

lemma align_down_le: "unat (align_down k x) \<le> unat x"
  by (simp add: unat_align_down)

lemma align_down_dvd: "2 ^ k dvd unat (align_down k x)"
  by (simp add: unat_align_down)

lemma align_down_gt: "unat x < unat (align_down k x) + 2 ^ k"
proof -
  have "unat x mod 2 ^ k < 2 ^ k" by simp
  moreover have "unat x mod 2 ^ k \<le> unat x" by simp
  ultimately show ?thesis unfolding unat_align_down by linarith
qed

lemma GRANULE_mask: "x AND NOT (GRANULE p - 1) = align_down (PAGE_SHIFT p) x"
  by (simp add: align_down_def GRANULE_pow)

text \<open>\<open>aligned g x\<close> is the Rust test \<^verbatim>\<open>x % g == 0\<close>.\<close>

definition aligned :: "u64 \<Rightarrow> u64 \<Rightarrow> bool" where
  "aligned g x \<longleftrightarrow> x mod g = 0"

lemma aligned_unat: "aligned g x \<longleftrightarrow> unat x mod unat g = 0"
  by (simp add: aligned_def u64_eq_iff unat_mod)

lemma aligned_dvd: "aligned g x \<longleftrightarrow> unat g dvd unat x"
  by (simp add: aligned_unat dvd_eq_mod_eq_0)

lemma align_down_aligned [simp]: "aligned (GRANULE p) (align_down (PAGE_SHIFT p) x)"
  using align_down_dvd [of "PAGE_SHIFT p" x] by (simp add: aligned_dvd unat_GRANULE)

text \<open>Rounding up: the least multiple of the granule that is at least \<open>x\<close>.\<close>

definition align_up :: "platform \<Rightarrow> u64 \<Rightarrow> u64 option" where
  "align_up p v = map_option (\<lambda>x. x AND NOT (GRANULE p - 1)) (checked_add v (GRANULE p - 1))"

lemma align_up_SomeD:
  assumes "align_up p v = Some w"
  shows "unat v \<le> unat w" "unat w < unat v + unat (GRANULE p)" "aligned (GRANULE p) w"
proof -
  from assms obtain x where x: "checked_add v (GRANULE p - 1) = Some x"
    and w: "w = align_down (PAGE_SHIFT p) x"
    by (auto simp: align_up_def GRANULE_mask)
  have g: "unat (GRANULE p - 1) = unat (GRANULE p) - 1"
    using GRANULE_bounds [of p] by (simp add: unat_sub_64)
  from x have ux: "unat x = unat v + (unat (GRANULE p) - 1)"
    using checked_add_SomeD g by metis
  show "unat v \<le> unat w"
    using align_down_gt [of x "PAGE_SHIFT p"] ux w by (simp add: unat_GRANULE)
  show "unat w < unat v + unat (GRANULE p)"
    using align_down_le [of "PAGE_SHIFT p" x] ux GRANULE_bounds(1) [of p] unfolding w by linarith
  show "aligned (GRANULE p) w"
    by (simp add: w)
qed

section \<open>Intervals of physical addresses\<close>

text \<open>The bytes \<open>[base, base + len)\<close>, as natural numbers so that no interval wraps.\<close>

definition span :: "u64 \<Rightarrow> u64 \<Rightarrow> nat set" where
  "span b n = {unat b ..< unat b + unat n}"

lemma mem_span [simp]: "a \<in> span b n \<longleftrightarrow> unat b \<le> a \<and> a < unat b + unat n"
  by (simp add: span_def)

lemma span_empty [simp]: "span b 0 = {}"
  by (simp add: span_def)

lemma span_disjoint_iff:
  "n \<noteq> 0 \<Longrightarrow> m \<noteq> 0 \<Longrightarrow>
     span a n \<inter> span b m = {} \<longleftrightarrow> unat a + unat n \<le> unat b \<or> unat b + unat m \<le> unat a"
  by (auto simp: span_def u64_eq_iff)

end
