(* ===== verification/Abi.thy ===== *)
theory Abi
  imports K0_Prelude
begin

text \<open>
  The constants shared by the kernel and user space (\<^verbatim>\<open>crates/k0-abi/src/lib.rs\<close>): system call
  numbers, IPC flags, object types, frame permissions, error codes and the bootinfo layout.
\<close>

definition KERNEL_VA_OFFSET :: u64 where "KERNEL_VA_OFFSET = 0xFFFF000000000000"

section \<open>System call numbers (x8)\<close>

definition DEBUG_PUTC :: u64 where "DEBUG_PUTC = 0"
definition YIELD :: u64 where "YIELD = 1"
definition EXIT :: u64 where "EXIT = 2"
definition RETYPE :: u64 where "RETYPE = 3"
definition MAP :: u64 where "MAP = 4"
definition TCB_CONFIGURE :: u64 where "TCB_CONFIGURE = 5"
definition TCB_RESUME :: u64 where "TCB_RESUME = 6"
definition SEND :: u64 where "SEND = 7"
definition RECV :: u64 where "RECV = 8"
definition CALL :: u64 where "CALL = 9"
definition REPLY_RECV :: u64 where "REPLY_RECV = 10"

lemmas syscall_defs = DEBUG_PUTC_def YIELD_def EXIT_def RETYPE_def MAP_def TCB_CONFIGURE_def
  TCB_RESUME_def SEND_def RECV_def CALL_def REPLY_RECV_def

section \<open>Flags, object types, permissions\<close>

definition NONBLOCK :: u64 where "NONBLOCK = 1"

definition OBJ_FRAME :: u64 where "OBJ_FRAME = 1"
definition OBJ_PAGE_TABLE :: u64 where "OBJ_PAGE_TABLE = 2"
definition OBJ_TCB :: u64 where "OBJ_TCB = 3"
definition OBJ_ENDPOINT :: u64 where "OBJ_ENDPOINT = 4"

lemmas obj_defs = OBJ_FRAME_def OBJ_PAGE_TABLE_def OBJ_TCB_def OBJ_ENDPOINT_def

definition PERM_RO :: u64 where "PERM_RO = 0"
definition PERM_RW :: u64 where "PERM_RW = 1"

lemmas perm_defs = PERM_RO_def PERM_RW_def

section \<open>Error codes\<close>

definition BAD_SLOT :: i64 where "BAD_SLOT = - 1"
definition NOT_UNTYPED :: i64 where "NOT_UNTYPED = - 2"
definition EXHAUSTED :: i64 where "EXHAUSTED = - 3"
definition OUT_OF_SLOTS :: i64 where "OUT_OF_SLOTS = - 4"
definition BAD_TYPE :: i64 where "BAD_TYPE = - 5"
definition BAD_VA :: i64 where "BAD_VA = - 6"
definition BAD_PERM :: i64 where "BAD_PERM = - 7"
definition ALREADY_MAPPED :: i64 where "ALREADY_MAPPED = - 8"
definition MISSING_TABLE :: i64 where "MISSING_TABLE = - 9"
definition OVERLAP :: i64 where "OVERLAP = - 10"
definition KERNEL_RESOURCE :: i64 where "KERNEL_RESOURCE = - 11"
definition BAD_CAP :: i64 where "BAD_CAP = - 12"
definition BAD_STATE :: i64 where "BAD_STATE = - 13"
definition WOULD_BLOCK :: i64 where "WOULD_BLOCK = - 14"
definition NO_REPLY :: i64 where "NO_REPLY = - 15"

lemmas err_defs = BAD_SLOT_def NOT_UNTYPED_def EXHAUSTED_def OUT_OF_SLOTS_def BAD_TYPE_def
  BAD_VA_def BAD_PERM_def ALREADY_MAPPED_def MISSING_TABLE_def OVERLAP_def KERNEL_RESOURCE_def
  BAD_CAP_def BAD_STATE_def WOULD_BLOCK_def NO_REPLY_def

section \<open>The bootinfo page\<close>

definition BOOTINFO_VA :: u64 where "BOOTINFO_VA = 0x0F000000"
definition BOOTINFO_VERSION :: u64 where "BOOTINFO_VERSION = 1"

record bi_header =
  version :: u64
  frame_size :: u64
  cap_count :: u64

record cap_desc =
  cd_kind :: u64
  cd_base :: u64
  cd_size :: u64

definition KIND_EMPTY :: u64 where "KIND_EMPTY = 0"
definition KIND_TCB :: u64 where "KIND_TCB = 1"
definition KIND_ADDR_SPACE :: u64 where "KIND_ADDR_SPACE = 2"
definition KIND_UNTYPED :: u64 where "KIND_UNTYPED = 3"
definition KIND_FRAME :: u64 where "KIND_FRAME = 4"
definition KIND_PAGE_TABLE :: u64 where "KIND_PAGE_TABLE = 5"
definition KIND_ENDPOINT :: u64 where "KIND_ENDPOINT = 6"
definition KIND_CONSOLE :: u64 where "KIND_CONSOLE = 7"

lemmas kind_defs = KIND_EMPTY_def KIND_TCB_def KIND_ADDR_SPACE_def KIND_UNTYPED_def
  KIND_FRAME_def KIND_PAGE_TABLE_def KIND_ENDPOINT_def KIND_CONSOLE_def

end
