(* ===== verification/Tables.thy ===== *)
theory Tables
  imports K0_Prelude
begin

text \<open>
  The interface of a store of translation tables, shared by the kernel's static pool
  (\<^verbatim>\<open>k0-mm/src/paging.rs\<close>, tables are indices into an array) and by the user address spaces
  (\<^verbatim>\<open>k0-mm/src/user.rs\<close>, tables are physical frames reached through the TTBR1 alias). A table walk
  reads one entry per level; what the two users of the interface need is that the tables reachable
  from the roots form a forest, because then writing a leaf entry changes one translation only and
  linking a cleared table changes none.
\<close>

section \<open>Walking\<close>

primrec walk :: "('t \<Rightarrow> nat \<Rightarrow> u64) \<Rightarrow> (u64 \<Rightarrow> 't option) \<Rightarrow> 't \<Rightarrow> nat list \<Rightarrow> 't option" where
  "walk ent dest t [] = Some t"
| "walk ent dest t (i # is) = (case dest (ent t i) of None \<Rightarrow> None | Some c \<Rightarrow> walk ent dest c is)"

text \<open>The leaf entry a translation ends at; 0 when there is none.\<close>

definition translate :: "('t \<Rightarrow> nat \<Rightarrow> u64) \<Rightarrow> (u64 \<Rightarrow> 't option) \<Rightarrow> 't \<Rightarrow> nat list \<Rightarrow> nat \<Rightarrow> u64" where
  "translate ent dest t is j = (case walk ent dest t is of None \<Rightarrow> 0 | Some c \<Rightarrow> ent c j)"

lemma walk_append:
  "walk ent dest t (p @ q) = (case walk ent dest t p of None \<Rightarrow> None | Some c \<Rightarrow> walk ent dest c q)"
  by (induction p arbitrary: t) (auto split: option.split)

lemma walk_snoc:
  "walk ent dest t (p @ [i]) = (case walk ent dest t p of None \<Rightarrow> None | Some c \<Rightarrow> dest (ent c i))"
  by (auto simp: walk_append split: option.split)

lemma walk_cong:
  assumes "\<And>k c. k < length q \<Longrightarrow> walk ent dest t (take k q) = Some c \<Longrightarrow> ent' c (q ! k) = ent c (q ! k)"
  shows "walk ent' dest t q = walk ent dest t q"
  using assms
proof (induction q rule: rev_induct)
  case (snoc i q)
  have "walk ent' dest t q = walk ent dest t q"
    using snoc.prems by (intro snoc.IH) (metis less_SucI length_append_singleton less_imp_le_nat
        nth_append take_append append_Nil2 diff_is_0_eq take_0)
  moreover have "ent' c i = ent c i" if "walk ent dest t q = Some c" for c
    using snoc.prems [of "length q" c] that by simp
  ultimately show ?case
    by (auto simp: walk_snoc split: option.split)
qed simp

text \<open>Index paths of a walk: at most \<open>d\<close> levels, every index inside its table.\<close>

definition path_ok :: "nat \<Rightarrow> nat \<Rightarrow> nat list \<Rightarrow> bool" where
  "path_ok width d p \<longleftrightarrow> length p \<le> d \<and> (\<forall>i \<in> set p. i < width)"

text \<open>A forest: a table is reached from at most one root and along at most one path.\<close>

definition unshared ::
  "('t \<Rightarrow> nat \<Rightarrow> u64) \<Rightarrow> (u64 \<Rightarrow> 't option) \<Rightarrow> nat \<Rightarrow> nat \<Rightarrow> 't set \<Rightarrow> bool" where
  "unshared ent dest width d R \<longleftrightarrow>
     (\<forall>r \<in> R. \<forall>r' \<in> R. \<forall>p q t. path_ok width d p \<and> path_ok width d q \<and>
        walk ent dest r p = Some t \<and> walk ent dest r' q = Some t \<longrightarrow> r = r' \<and> p = q)"

definition reachable ::
  "('t \<Rightarrow> nat \<Rightarrow> u64) \<Rightarrow> (u64 \<Rightarrow> 't option) \<Rightarrow> nat \<Rightarrow> nat \<Rightarrow> 't set \<Rightarrow> 't set" where
  "reachable ent dest width d R = {t. \<exists>r \<in> R. \<exists>p. path_ok width d p \<and> walk ent dest r p = Some t}"

text \<open>An entry of an inner table is free or refers to a table.\<close>

definition inner_ok ::
  "('t \<Rightarrow> nat \<Rightarrow> u64) \<Rightarrow> (u64 \<Rightarrow> 't option) \<Rightarrow> nat \<Rightarrow> nat \<Rightarrow> 't set \<Rightarrow> bool" where
  "inner_ok ent dest width d R \<longleftrightarrow>
     (\<forall>r \<in> R. \<forall>q t i. path_ok width d q \<and> length q < d \<and> walk ent dest r q = Some t \<and> i < width \<and> ent t i \<noteq> 0
        \<longrightarrow> dest (ent t i) \<noteq> None)"

lemma inner_okD:
  "inner_ok ent dest width d R \<Longrightarrow> r \<in> R \<Longrightarrow> path_ok width d q \<Longrightarrow> length q < d \<Longrightarrow> walk ent dest r q = Some t \<Longrightarrow>
     i < width \<Longrightarrow> ent t i \<noteq> 0 \<Longrightarrow> dest (ent t i) \<noteq> None"
  unfolding inner_ok_def by blast

lemma path_ok_take: "path_ok width d p \<Longrightarrow> path_ok width d (take k p)"
  by (auto simp: path_ok_def dest: in_set_takeD)

lemma unsharedD:
  assumes "unshared ent dest width d R" "r \<in> R" "r' \<in> R" "path_ok width d p" "path_ok width d q"
    "walk ent dest r p = Some t" "walk ent dest r' q = Some t"
  shows "r = r' \<and> p = q"
  using assms unfolding unshared_def by blast

lemma reachableI: "r \<in> R \<Longrightarrow> path_ok width d p \<Longrightarrow> walk ent dest r p = Some t \<Longrightarrow> t \<in> reachable ent dest width d R"
  by (auto simp: reachable_def)

section \<open>The interface\<close>

text \<open>
  \<open>get\<close> and \<open>put\<close> access one entry of a table, \<open>dest\<close> is the table a descriptor refers to, \<open>ok\<close> the
  tables of the store and \<open>width\<close> the number of entries of a table.
\<close>

locale table_store =
  fixes get :: "'s \<Rightarrow> 't \<Rightarrow> nat \<Rightarrow> u64"
    and put :: "'s \<Rightarrow> 't \<Rightarrow> nat \<Rightarrow> u64 \<Rightarrow> 's"
    and dest :: "u64 \<Rightarrow> 't option"
    and ok :: "'t \<Rightarrow> bool"
    and width :: nat
  assumes get_put: "ok t \<Longrightarrow> ok u \<Longrightarrow> i < width \<Longrightarrow> j < width \<Longrightarrow>
      get (put s t i v) u j = (if u = t \<and> j = i then v else get s u j)"
    and dest_ok: "dest e = Some t \<Longrightarrow> ok t"
    and dest_zero: "dest 0 = None"
begin

lemma walk_ok:
  "ok r \<Longrightarrow> walk ent dest r p = Some t \<Longrightarrow> ok t"
proof (induction p arbitrary: r)
  case (Cons i p)
  then show ?case by (auto split: option.split_asm intro: dest_ok)
qed simp

text \<open>A write to a table that no shorter walk passes through leaves every walk alone.\<close>

lemma walk_put_off_path:
  assumes "ok r" "ok t" "i < width" "path_ok width d q"
    and off: "\<And>k. k < length q \<Longrightarrow> walk (get s) dest r (take k q) = Some t \<Longrightarrow> q ! k \<noteq> i"
  shows "walk (get (put s t i v)) dest r q = walk (get s) dest r q"
proof (rule walk_cong)
  fix k c
  assume k: "k < length q" and c: "walk (get s) dest r (take k q) = Some c"
  have "q ! k < width" using assms(4) k by (simp add: path_ok_def)
  with walk_ok [OF assms(1) c] k c off assms(2,3) show "get (put s t i v) c (q ! k) = get s c (q ! k)"
    by (auto simp: get_put)
qed

lemma leaf_write_walk:
  assumes un: "unshared (get s) dest width d R" and R: "\<forall>r \<in> R. ok r" "r \<in> R" "r' \<in> R"
    and p: "path_ok width d p" "length p = d" "walk (get s) dest r p = Some t"
    and "i < width" "path_ok width d q"
  shows "walk (get (put s t i v)) dest r' q = walk (get s) dest r' q"
proof (rule walk_put_off_path)
  show "ok r'" "ok t" using R walk_ok [OF _ p(3)] by auto
  fix k assume k: "k < length q" and w: "walk (get s) dest r' (take k q) = Some t"
  then have "p = take k q"
    using unsharedD [OF un R(2,3) p(1) path_ok_take [OF assms(9)] p(3) w] by simp
  with p(2) k assms(9) show "q ! k \<noteq> i" by (simp add: path_ok_def)
qed (use assms in auto)

text \<open>Writing a leaf entry changes exactly one translation and keeps the forest.\<close>

lemma leaf_write:
  assumes un: "unshared (get s) dest width d R" and R: "\<forall>r \<in> R. ok r" "r \<in> R"
    and p: "path_ok width d p" "length p = d" "walk (get s) dest r p = Some t" and i: "i < width"
  shows "unshared (get (put s t i v)) dest width d R"
    and "reachable (get (put s t i v)) dest width d R = reachable (get s) dest width d R"
    and "r' \<in> R \<Longrightarrow> path_ok width d q \<Longrightarrow> length q = d \<Longrightarrow> j < width \<Longrightarrow>
      translate (get (put s t i v)) dest r' q j =
        (if r' = r \<and> q = p \<and> j = i then v else translate (get s) dest r' q j)"
proof -
  note same = leaf_write_walk [OF un R _ p i]
  show "unshared (get (put s t i v)) dest width d R"
    using un unfolding unshared_def by (metis same)
  show "reachable (get (put s t i v)) dest width d R = reachable (get s) dest width d R"
    unfolding reachable_def by (metis same)
  assume q: "r' \<in> R" "path_ok width d q" "length q = d" "j < width"
  show "translate (get (put s t i v)) dest r' q j =
      (if r' = r \<and> q = p \<and> j = i then v else translate (get s) dest r' q j)"
  proof (cases "walk (get s) dest r' q")
    case None
    then show ?thesis using same [OF q(1,2)] p(3) by (auto simp: translate_def)
  next
    case (Some c)
    have "ok c" "ok t" using Some q(1) R p(3) walk_ok by blast+
    moreover have "c = t \<longleftrightarrow> r' = r \<and> q = p"
      using unsharedD [OF un q(1) R(2) q(2) p(1) Some] p(3) Some by auto
    ultimately show ?thesis
      using same [OF q(1,2)] Some q(4) i by (auto simp: translate_def get_put)
  qed
qed


text \<open>Linking a cleared, unreachable table below a free entry adds one walk, and no translation.\<close>

lemma link_walk:
  assumes un: "unshared (get s) dest width d R" and R: "\<forall>r \<in> R. ok r" "r \<in> R" "r' \<in> R"
    and p: "path_ok width d p" "walk (get s) dest r p = Some t" and i: "i < width" "get s t i = 0"
    and c: "dest e = Some c" "c \<notin> reachable (get s) dest width d R" "\<forall>k < width. get s c k = 0"
    and q: "path_ok width d q"
  shows "walk (get (put s t i e)) dest r' q =
           (if r' = r \<and> q = p @ [i] then Some c else walk (get s) dest r' q)"
  using q
proof (induction q rule: rev_induct)
  case (snoc j q)
  have q: "path_ok width d q" "j < width" using snoc.prems by (auto simp: path_ok_def)
  have ok: "ok t" "ok c" using R p(2) walk_ok dest_ok [OF c(1)] by blast+
  have tc: "c \<noteq> t" using reachableI [OF R(2) p] c(2) by auto
  show ?case
  proof (cases "r' = r \<and> q = p @ [i]")
    case True
    have "walk (get s) dest r (p @ [i]) = None"
      using p(2) i(2) by (simp add: walk_snoc dest_zero)
    then have old: "walk (get s) dest r ((p @ [i]) @ [j]) = None"
      by (simp only: walk_snoc [of _ _ _ "p @ [i]"] option.case)
    have "walk (get (put s t i e)) dest r ((p @ [i]) @ [j]) = None"
      using True snoc.IH [OF q(1)] c(3) ok tc i(1) q(2)
      unfolding walk_snoc [of _ _ _ "p @ [i]"] by (simp add: get_put dest_zero)
    with True old show ?thesis by simp
  next
    case False
    then have w: "walk (get (put s t i e)) dest r' q = walk (get s) dest r' q"
      using snoc.IH [OF q(1)] by auto
    show ?thesis
    proof (cases "walk (get s) dest r' q")
      case None
      with w p(2) show ?thesis by (auto simp: walk_snoc)
    next
      case (Some u)
      have "ok u" using R(1,3) Some walk_ok by blast
      moreover have "u = t \<longleftrightarrow> r' = r \<and> q = p"
        using unsharedD [OF un R(3,2) q(1) p(1) Some] p(2) Some by auto
      ultimately show ?thesis
        using w Some ok q(2) i(1) c(1) by (auto simp: walk_snoc get_put)
    qed
  qed
qed (use R in auto)

lemma link_write:
  assumes un: "unshared (get s) dest width d R" and R: "\<forall>r \<in> R. ok r" "r \<in> R"
    and p: "path_ok width d p" "length p < d" "walk (get s) dest r p = Some t" and i: "i < width" "get s t i = 0"
    and c: "dest e = Some c" "c \<notin> reachable (get s) dest width d R" "\<forall>k < width. get s c k = 0"
  shows "unshared (get (put s t i e)) dest width d R"
    and "reachable (get (put s t i e)) dest width d R = insert c (reachable (get s) dest width d R)"
    and "r' \<in> R \<Longrightarrow> path_ok width d q \<Longrightarrow> length q = d \<Longrightarrow> j < width \<Longrightarrow>
      translate (get (put s t i e)) dest r' q j = translate (get s) dest r' q j"
    and "walk (get (put s t i e)) dest r (p @ [i]) = Some c"
    and "\<forall>k < width. get (put s t i e) c k = 0"
proof -
  note w = link_walk [OF un R _ p(1,3) i c]
  have pi: "path_ok width d (p @ [i])" using p(1,2) i(1) by (simp add: path_ok_def)
  have none: "walk (get s) dest r (p @ [i]) = None" using p(3) i(2) by (simp add: walk_snoc dest_zero)
  have ok: "ok t" "ok c" using R p(3) walk_ok dest_ok [OF c(1)] by blast+
  have tc: "c \<noteq> t" using reachableI [OF R(2) p(1,3)] c(2) by auto
  show pc: "walk (get (put s t i e)) dest r (p @ [i]) = Some c"
    using w [OF R(2) pi] by simp
  show z: "\<forall>k < width. get (put s t i e) c k = 0"
    using c(3) ok tc i(1) by (simp add: get_put)
  have new: "walk (get s) dest x y \<noteq> Some c" if "x \<in> R" "path_ok width d y" for x y
    using that c(2) reachableI by metis
  show "unshared (get (put s t i e)) dest width d R"
    unfolding unshared_def using w new unsharedD [OF un] by (metis option.inject)
  show "reachable (get (put s t i e)) dest width d R = insert c (reachable (get s) dest width d R)"
  proof (intro set_eqI iffI)
    fix x assume "x \<in> reachable (get (put s t i e)) dest width d R"
    then show "x \<in> insert c (reachable (get s) dest width d R)"
      unfolding reachable_def using w by (auto split: if_split_asm)
  next
    fix x assume "x \<in> insert c (reachable (get s) dest width d R)"
    then consider "x = c" | r' q where "r' \<in> R" "path_ok width d q" "walk (get s) dest r' q = Some x"
      unfolding reachable_def by blast
    then show "x \<in> reachable (get (put s t i e)) dest width d R"
    proof cases
      case 2
      with w none have "walk (get (put s t i e)) dest r' q = Some x" by auto
      with 2 show ?thesis by (intro reachableI)
    qed (use reachableI [OF R(2) pi pc] in simp)
  qed
  assume q: "r' \<in> R" "path_ok width d q" "length q = d" "j < width"
  show "translate (get (put s t i e)) dest r' q j = translate (get s) dest r' q j"
  proof (cases "r' = r \<and> q = p @ [i]")
    case True
    then show ?thesis using pc none z q(4) by (simp add: translate_def)
  next
    case False
    then have same: "walk (get (put s t i e)) dest r' q = walk (get s) dest r' q"
      using w [OF q(1,2)] by auto
    have "get (put s t i e) u j = get s u j" if u: "walk (get s) dest r' q = Some u" for u
    proof -
      have "u \<noteq> t"
        using unsharedD [OF un q(1) R(2) q(2) p(1) u] p(2,3) q(3) by auto
      moreover have "ok u" using R(1) q(1) u walk_ok by blast
      ultimately show ?thesis using ok i(1) q(4) by (simp add: get_put)
    qed
    with same show ?thesis by (auto simp: translate_def split: option.split)
  qed
qed

lemma leaf_write_inner:
  assumes un: "unshared (get s) dest width d R" and R: "\<forall>r \<in> R. ok r" "r \<in> R"
    and p: "path_ok width d p" "length p = d" "walk (get s) dest r p = Some t" and i: "i < width"
    and inner: "inner_ok (get s) dest width d R"
  shows "inner_ok (get (put s t i v)) dest width d R"
  unfolding inner_ok_def
proof (intro ballI allI impI, elim conjE)
  fix r' q u j
  assume a: "r' \<in> R" "path_ok width d q" "length q < d" "walk (get (put s t i v)) dest r' q = Some u" "j < width"
    "get (put s t i v) u j \<noteq> 0"
  have w: "walk (get s) dest r' q = Some u"
    using leaf_write_walk [OF un R a(1) p i a(2)] a(4) by simp
  have "u \<noteq> t"
    using unsharedD [OF un a(1) R(2) a(2) p(1) w] p(2,3) a(3) by auto
  moreover have "ok u" "ok t" using R a(1) w p(3) walk_ok by blast+
  ultimately have "get (put s t i v) u j = get s u j" using get_put i a(5) by auto
  then show "dest (get (put s t i v) u j) \<noteq> None"
    using inner_okD [OF inner a(1-3) w a(5)] a(6) by simp
qed

lemma link_write_inner:
  assumes un: "unshared (get s) dest width d R" and R: "\<forall>r \<in> R. ok r" "r \<in> R"
    and p: "path_ok width d p" "length p < d" "walk (get s) dest r p = Some t" and i: "i < width" "get s t i = 0"
    and c: "dest e = Some c" "c \<notin> reachable (get s) dest width d R" "\<forall>k < width. get s c k = 0"
    and inner: "inner_ok (get s) dest width d R"
  shows "inner_ok (get (put s t i e)) dest width d R"
  unfolding inner_ok_def
proof (intro ballI allI impI, elim conjE)
  fix r' q u j
  assume a: "r' \<in> R" "path_ok width d q" "length q < d" "walk (get (put s t i e)) dest r' q = Some u" "j < width"
    "get (put s t i e) u j \<noteq> 0"
  have w: "walk (get s) dest r' q = Some u"
    using link_walk [OF un R a(1) p(1,3) i c a(2)] link_write(5) [OF un R p i c] a(4-6) by (auto split: if_splits)
  have "ok u" "ok t" using R a(1) w p(3) walk_ok by blast+
  then have "get (put s t i e) u j = (if u = t \<and> j = i then e else get s u j)" using get_put i(1) a(5) by auto
  then show "dest (get (put s t i e) u j) \<noteq> None"
    using inner_okD [OF inner a(1-3) w a(5)] a(6) c(1) by (auto split: if_splits)
qed

end

end
