(* ===== verification/Paging.thy ===== *)
theory Paging
  imports Abi Tables
begin

text \<open>
  The kernel's translation tables (\<^verbatim>\<open>crates/k0-mm/src/paging.rs\<close>): the static pool of tables, the
  page mapper with its rollback, the initial identity and higher-half mappings, and the values
  written to the translation registers. The address of the static pool is the field \<open>pl_addr\<close>,
  chosen by the linker.
\<close>

section \<open>Constants\<close>

definition BITS_PER_LEVEL :: "platform \<Rightarrow> nat" where "BITS_PER_LEVEL p = PAGE_SHIFT p - 3"
definition ENTRIES :: "platform \<Rightarrow> nat" where "ENTRIES p = unat (GRANULE p) div 8"
definition POOL_LEN :: nat where "POOL_LEN = 32"

definition ADDR_MASK :: "platform \<Rightarrow> u64" where
  "ADDR_MASK p = (push_bit 48 1 - 1) AND NOT (GRANULE p - 1)"

definition DESC_TABLE :: u64 where "DESC_TABLE = 3"
definition DESC_PAGE :: u64 where "DESC_PAGE = 3"
definition ATTR_AF :: u64 where "ATTR_AF = push_bit 10 1"
definition SH_INNER :: u64 where "SH_INNER = push_bit 8 3"
definition SH_OUTER :: u64 where "SH_OUTER = push_bit 8 2"
definition AP_RO :: u64 where "AP_RO = push_bit 6 2"
definition AP_RW :: u64 where "AP_RW = push_bit 6 0"
definition AP_RO_ALL :: u64 where "AP_RO_ALL = push_bit 6 3"
definition AP_RW_ALL :: u64 where "AP_RW_ALL = push_bit 6 1"
definition PXN :: u64 where "PXN = push_bit 53 1"
definition UXN :: u64 where "UXN = push_bit 54 1"
definition IDX_NORMAL :: u64 where "IDX_NORMAL = push_bit 2 0"
definition IDX_DEVICE :: u64 where "IDX_DEVICE = push_bit 2 1"
definition MAIR :: u64 where "MAIR = 0xFF OR push_bit 8 4"
definition SCTLR_M :: u64 where "SCTLR_M = push_bit 0 1"
definition SCTLR_C :: u64 where "SCTLR_C = push_bit 2 1"
definition SCTLR_I :: u64 where "SCTLR_I = push_bit 12 1"
definition SCTLR_WXN :: u64 where "SCTLR_WXN = push_bit 19 1"

lemmas desc_defs = DESC_TABLE_def DESC_PAGE_def ATTR_AF_def SH_INNER_def SH_OUTER_def AP_RO_def
  AP_RW_def AP_RO_ALL_def AP_RW_ALL_def PXN_def UXN_def IDX_NORMAL_def IDX_DEVICE_def

datatype perm = Text | Ro | Rw | Device

definition perm_attrs :: "perm \<Rightarrow> u64" where
  "perm_attrs pm =
     (case pm of
        Text \<Rightarrow> DESC_PAGE OR ATTR_AF OR SH_INNER OR AP_RO OR IDX_NORMAL OR UXN
      | Ro \<Rightarrow> DESC_PAGE OR ATTR_AF OR SH_INNER OR AP_RO OR IDX_NORMAL OR UXN OR PXN
      | Rw \<Rightarrow> DESC_PAGE OR ATTR_AF OR SH_INNER OR AP_RW OR IDX_NORMAL OR UXN OR PXN
      | Device \<Rightarrow> DESC_PAGE OR ATTR_AF OR SH_OUTER OR AP_RW OR IDX_DEVICE OR UXN OR PXN)"

datatype mmu_error =
    AlreadyEnabled
  | NotEnabled
  | GranuleUnsupported
  | OutOfTables
  | OutOfFrames
  | Misaligned
  | Overlap
  | NullPage
  | BadTable
  | MissingTable

record range =
  r_start :: u64
  r_end :: u64

record kernel_layout =
  kl_text :: range
  kl_rodata :: range
  kl_rw0 :: range
  kl_rw1 :: range
  kl_dtb :: range
  kl_devices :: "range list"

section \<open>The table pool\<close>

text \<open>
  \<open>pl_tables pl t i\<close> is \<^verbatim>\<open>pool.tables[t].0[i]\<close>; the bounds of both arrays are checked by the
  accessors below, as Rust does.
\<close>

record pool =
  pl_tables :: "nat \<Rightarrow> nat \<Rightarrow> u64"
  pl_used :: nat
  pl_enabled :: bool
  pl_root1 :: nat
  pl_addr :: u64

definition POOL :: "u64 \<Rightarrow> pool" where
  "POOL addr = \<lparr>pl_tables = \<lambda>_ _. 0, pl_used = 0, pl_enabled = False, pl_root1 = 0, pl_addr = addr\<rparr>"

definition index :: "platform \<Rightarrow> u64 \<Rightarrow> nat \<Rightarrow> nat" where
  "index p va level =
     (let shift = PAGE_SHIFT p + BITS_PER_LEVEL p * (3 - level);
          bits = if level = 0 then 48 - shift else BITS_PER_LEVEL p
      in unat (drop_bit shift va AND (push_bit bits 1 - 1)))"

definition pool_alloc :: "pool \<Rightarrow> mmu_error + nat \<times> pool" where
  "pool_alloc pl =
     (if pl_used pl = POOL_LEN then Inl OutOfTables
      else Inr (pl_used pl, pl\<lparr>pl_used := pl_used pl + 1\<rparr>))"

definition pool_pa :: "platform \<Rightarrow> pool \<Rightarrow> nat \<Rightarrow> u64" where
  "pool_pa p pl i = (pl_addr pl + of_nat i * GRANULE p) AND NOT KERNEL_VA_OFFSET"

definition index_of :: "platform \<Rightarrow> pool \<Rightarrow> u64 \<Rightarrow> mmu_error + nat" where
  "index_of p pl pa =
     (let base = pool_pa p pl 0
      in if pa < base then Inl BadTable
         else let off = pa - base; i = unat (off div GRANULE p)
              in if off mod GRANULE p \<noteq> 0 \<or> pl_used pl \<le> i then Inl BadTable else Inr i)"

definition pool_get :: "pool \<Rightarrow> nat \<Rightarrow> nat \<Rightarrow> u64" where
  "pool_get pl t i = pl_tables pl t i"

definition pool_put :: "pool \<Rightarrow> nat \<Rightarrow> nat \<Rightarrow> u64 \<Rightarrow> pool" where
  "pool_put pl t i v = pl\<lparr>pl_tables := (pl_tables pl)(t := (pl_tables pl t)(i := v))\<rparr>"

definition pool_read :: "platform \<Rightarrow> pool \<Rightarrow> nat \<Rightarrow> nat \<Rightarrow> halt + u64" where
  "pool_read p pl t i = (if t < POOL_LEN \<and> i < ENTRIES p then Inr (pool_get pl t i) else Inl Panic)"

text \<open>The walk of \<^verbatim>\<open>Pool::map_page\<close> over the levels 0, 1, 2, recording the links it writes.\<close>

fun pool_descend ::
  "platform \<Rightarrow> u64 \<Rightarrow> nat list \<Rightarrow> nat \<Rightarrow> pool \<Rightarrow> (nat \<times> nat) list
     \<Rightarrow> halt + ((mmu_error + nat) \<times> pool \<times> (nat \<times> nat) list)" where
  "pool_descend p va [] t pl links = Inr (Inr t, pl, links)"
| "pool_descend p va (level # levels) t pl links =
     (let idx = index p va level
      in and_then (pool_read p pl t idx) (\<lambda>entry.
        if entry = 0 then
          (case pool_alloc pl of
             Inl e \<Rightarrow> Inr (Inl e, pl, links)
           | Inr (child, pl1) \<Rightarrow>
               pool_descend p va levels child
                 (pool_put pl1 t idx (pool_pa p pl1 child OR DESC_TABLE)) (links @ [(t, idx)]))
        else if entry AND 3 = DESC_TABLE then
          (case index_of p pl (entry AND ADDR_MASK p) of
             Inl e \<Rightarrow> Inr (Inl e, pl, links)
           | Inr child \<Rightarrow> pool_descend p va levels child pl links)
        else Inr (Inl BadTable, pl, links)))"

definition pool_undo :: "nat \<Rightarrow> (nat \<times> nat) list \<Rightarrow> pool \<Rightarrow> pool" where
  "pool_undo used_before links pl =
     (fold (\<lambda>(parent, idx) q. pool_put q parent idx 0) links pl)\<lparr>pl_used := used_before\<rparr>"

definition map_page ::
  "platform \<Rightarrow> nat \<Rightarrow> u64 \<Rightarrow> u64 \<Rightarrow> u64 \<Rightarrow> pool \<Rightarrow> halt + ((mmu_error + unit) \<times> pool)" where
  "map_page p root va pa attrs pl =
     (let used_before = pl_used pl
      in and_then (pool_descend p va [0, 1, 2] root pl []) (\<lambda>(r, pl1, links).
        case r of
          Inl e \<Rightarrow> Inr (Inl e, pool_undo used_before links pl1)
        | Inr t \<Rightarrow>
            let idx = index p va 3
            in and_then (pool_read p pl1 t idx) (\<lambda>entry.
              if entry \<noteq> 0 then Inr (Inl Overlap, pool_undo used_before links pl1)
              else Inr (Inr (), pool_put pl1 t idx (pa OR attrs)))))"

function map_range_loop ::
  "platform \<Rightarrow> nat \<Rightarrow> u64 \<Rightarrow> u64 \<Rightarrow> u64 \<Rightarrow> u64 \<Rightarrow> u64 \<Rightarrow> pool \<Rightarrow> halt + ((mmu_error + unit) \<times> pool)" where
  "map_range_loop p root va pa len attrs off pl =
     (if off < len then
        and_then (add_pn va off) (\<lambda>v. and_then (add_pn pa off) (\<lambda>a.
          and_then (map_page p root v a attrs pl) (\<lambda>(r, pl1).
            case r of
              Inl e \<Rightarrow> Inr (Inl e, pl1)
            | Inr _ \<Rightarrow> and_then (add_pn off (GRANULE p)) (\<lambda>off'.
                map_range_loop p root va pa len attrs off' pl1))))
      else Inr (Inr (), pl))"
  by pat_completeness auto
termination
  using GRANULE_bounds(1)
  by (relation "measure (\<lambda>(p, root, va, pa, len, attrs, off, pl). unat len - unat off)")
    (auto simp: add_pn_Inr unat_add_64 word_order_unat intro!: diff_less_mono2)

declare map_range_loop.simps [simp del]

definition map_range ::
  "platform \<Rightarrow> nat \<Rightarrow> u64 \<Rightarrow> u64 \<Rightarrow> u64 \<Rightarrow> perm \<Rightarrow> pool \<Rightarrow> halt + ((mmu_error + unit) \<times> pool)" where
  "map_range p root va pa len pm pl =
     (if \<not> aligned (GRANULE p) va \<or> \<not> aligned (GRANULE p) pa \<or> \<not> aligned (GRANULE p) len
      then Inr (Inl Misaligned, pl)
      else map_range_loop p root va pa len (perm_attrs pm) 0 pl)"

section \<open>Translation registers\<close>

text \<open>\<open>mmfr0\<close> is the value of \<^verbatim>\<open>ID_AA64MMFR0_EL1\<close>.\<close>

definition check_features :: "platform \<Rightarrow> u64 \<Rightarrow> mmu_error + u64" where
  "check_features p mmfr0 =
     (let granule_ok =
        (case p of
           Virt \<Rightarrow> drop_bit 28 mmfr0 AND 0xF \<in> {0, 1}
         | Apple \<Rightarrow> drop_bit 20 mmfr0 AND 0xF \<in> {1, 2})
      in if \<not> granule_ok then Inl GranuleUnsupported else Inr (min (mmfr0 AND 0xF) 5))"

definition tcr :: "platform \<Rightarrow> u64 \<Rightarrow> u64" where
  "tcr p ips =
     (let (tg0, tg1) = (case p of Virt \<Rightarrow> (0, 2) | Apple \<Rightarrow> (2, 1))
      in 16
         OR push_bit 8 1 OR push_bit 10 1 OR push_bit 12 3 OR push_bit 14 tg0
         OR push_bit 16 16
         OR push_bit 24 1 OR push_bit 26 1 OR push_bit 28 3 OR push_bit 30 tg1
         OR push_bit 32 ips)"

record mmu_regs =
  mair_el1 :: u64
  tcr_el1 :: u64
  ttbr0_el1 :: u64
  ttbr1_el1 :: u64
  sctlr_el1 :: u64

definition switch_on :: "u64 \<Rightarrow> u64 \<Rightarrow> u64 \<Rightarrow> mmu_regs \<Rightarrow> mmu_regs" where
  "switch_on ttbr0 ttbr1 t regs =
     regs\<lparr>mair_el1 := MAIR, tcr_el1 := t, ttbr0_el1 := ttbr0, ttbr1_el1 := ttbr1,
          sctlr_el1 := sctlr_el1 regs OR SCTLR_M OR SCTLR_C OR SCTLR_I OR SCTLR_WXN\<rparr>"

section \<open>Building the initial tables\<close>

text \<open>\<^verbatim>\<open>end.div_ceil(g) * g\<close>, whose multiplication may overflow.\<close>

definition round_up_pn :: "platform \<Rightarrow> u64 \<Rightarrow> halt + u64" where
  "round_up_pn p x =
     (let q = x div GRANULE p + (if x mod GRANULE p = 0 then 0 else 1)
      in ok_or (checked_mul q (GRANULE p)) Panic)"

definition map_both ::
  "platform \<Rightarrow> nat \<Rightarrow> nat \<Rightarrow> u64 \<Rightarrow> u64 \<Rightarrow> perm \<Rightarrow> pool \<Rightarrow> halt + ((mmu_error + unit) \<times> pool)" where
  "map_both p root0 root1 start len pm pl =
     and_then (map_range p root0 start start len pm pl) (\<lambda>(r, pl1).
       case r of
         Inl e \<Rightarrow> Inr (Inl e, pl1)
       | Inr _ \<Rightarrow> and_then (add_pn start KERNEL_VA_OFFSET) (\<lambda>va.
           map_range p root1 va start len pm pl1))"

fun map_segments ::
  "platform \<Rightarrow> nat \<Rightarrow> nat \<Rightarrow> (u64 \<times> u64 \<times> perm) list \<Rightarrow> pool \<Rightarrow> halt + ((mmu_error + unit) \<times> pool)" where
  "map_segments p root0 root1 [] pl = Inr (Inr (), pl)"
| "map_segments p root0 root1 ((start, end, pm) # segs) pl =
     (if end < start then Inr (Inl Misaligned, pl)
      else if end - start = 0 then map_segments p root0 root1 segs pl
      else and_then (map_both p root0 root1 start (end - start) pm pl) (\<lambda>(r, pl1).
        case r of
          Inl e \<Rightarrow> Inr (Inl e, pl1)
        | Inr _ \<Rightarrow> map_segments p root0 root1 segs pl1))"

fun map_devices ::
  "platform \<Rightarrow> nat \<Rightarrow> nat \<Rightarrow> range list \<Rightarrow> pool \<Rightarrow> halt + ((mmu_error + unit) \<times> pool)" where
  "map_devices p root0 root1 [] pl = Inr (Inr (), pl)"
| "map_devices p root0 root1 (dev # devs) pl =
     (if r_end dev \<le> r_start dev then map_devices p root0 root1 devs pl
      else and_then (map_both p root0 root1 (r_start dev) (r_end dev - r_start dev) Device pl) (\<lambda>(r, pl1).
        case r of
          Inl e \<Rightarrow> Inr (Inl e, pl1)
        | Inr _ \<Rightarrow> map_devices p root0 root1 devs pl1))"

definition layout_segments :: "kernel_layout \<Rightarrow> u64 \<Rightarrow> u64 \<Rightarrow> (u64 \<times> u64 \<times> perm) list" where
  "layout_segments layout dtb_base dtb_end =
     [(r_start (kl_text layout), r_end (kl_text layout), Text),
      (r_start (kl_rodata layout), r_end (kl_rodata layout), Ro),
      (r_start (kl_rw0 layout), r_end (kl_rw0 layout), Rw),
      (r_start (kl_rw1 layout), r_end (kl_rw1 layout), Rw),
      (dtb_base, dtb_end, Ro)]"

text \<open>
  \<^verbatim>\<open>enable_paging\<close>. When it fails the caller aborts the boot, so the pool of a failed run is not
  returned.
\<close>

definition enable_paging ::
  "platform \<Rightarrow> u64 \<Rightarrow> kernel_layout \<Rightarrow> pool \<Rightarrow> mmu_regs \<Rightarrow> halt + (mmu_error + (pool \<times> mmu_regs))" where
  "enable_paging p mmfr0 layout pl regs =
     (case check_features p mmfr0 of
        Inl e \<Rightarrow> Inr (Inl e)
      | Inr ips \<Rightarrow>
          if pl_enabled pl then Inr (Inl AlreadyEnabled)
          else (case pool_alloc pl of Inl e \<Rightarrow> Inr (Inl e) | Inr (root0, pl1) \<Rightarrow>
            (case pool_alloc pl1 of Inl e \<Rightarrow> Inr (Inl e) | Inr (root1, pl2) \<Rightarrow>
              (let dtb_base = r_start (kl_dtb layout) AND NOT (GRANULE p - 1)
               in and_then (round_up_pn p (r_end (kl_dtb layout))) (\<lambda>dtb_end.
                 and_then (map_segments p root0 root1 (layout_segments layout dtb_base dtb_end) pl2) (\<lambda>(r, pl3).
                   case r of Inl e \<Rightarrow> Inr (Inl e) | Inr _ \<Rightarrow>
                     and_then (map_devices p root0 root1 (kl_devices layout) pl3) (\<lambda>(r', pl4).
                       case r' of Inl e \<Rightarrow> Inr (Inl e) | Inr _ \<Rightarrow>
                         let ttbr0 = pool_pa p pl4 root0; ttbr1 = pool_pa p pl4 root1
                         in Inr (Inr (pl4\<lparr>pl_enabled := True, pl_root1 := root1\<rparr>,
                                      switch_on ttbr0 ttbr1 (tcr p ips) regs)))))))))"

definition map_kernel_window ::
  "platform \<Rightarrow> range \<Rightarrow> pool \<Rightarrow> halt + ((mmu_error + unit) \<times> pool)" where
  "map_kernel_window p window pl =
     (if r_end window \<le> r_start window \<or> \<not> aligned (GRANULE p) (r_start window)
         \<or> \<not> aligned (GRANULE p) (r_end window)
      then Inr (Inl Misaligned, pl)
      else if \<not> pl_enabled pl then Inr (Inl NotEnabled, pl)
      else and_then (add_pn (r_start window) KERNEL_VA_OFFSET) (\<lambda>va.
        map_range p (pl_root1 pl) va (r_start window) (r_end window - r_start window) Rw pl))"

definition table_pool_usage :: "pool \<Rightarrow> nat \<times> nat" where
  "table_pool_usage pl = (pl_used pl, POOL_LEN)"

section \<open>Indices\<close>

lemma ENTRIES_pow: "ENTRIES p = 2 ^ BITS_PER_LEVEL p"
  by (cases p) (simp_all add: ENTRIES_def BITS_PER_LEVEL_def GRANULE_def PAGE_SHIFT_def)

lemma unat_and_mask: "unat (x AND (2 ^ k - 1) :: u64) = unat x mod 2 ^ k"
  by (simp add: mask_eq_exp_minus_1 [symmetric] take_bit_eq_mask [symmetric] unat_take_bit_64)

lemma unat_drop_bit_64: "unat (drop_bit k (x :: u64)) = unat x div 2 ^ k"
  by (simp only: unat_drop_bit_eq) (simp add: drop_bit_eq_div)

lemma index_eq:
  "index p va level =
     (unat va div 2 ^ (PAGE_SHIFT p + BITS_PER_LEVEL p * (3 - level)))
       mod 2 ^ (if level = 0 then 48 - (PAGE_SHIFT p + BITS_PER_LEVEL p * 3) else BITS_PER_LEVEL p)"
  by (simp add: index_def Let_def unat_and_mask unat_drop_bit_64 push_bit_eq_mult)

lemma index_lt: "index p va level < ENTRIES p"
proof -
  have "2 ^ (48 - (PAGE_SHIFT p + BITS_PER_LEVEL p * 3)) \<le> ENTRIES p"
    by (cases p) (simp_all add: ENTRIES_def BITS_PER_LEVEL_def PAGE_SHIFT_def GRANULE_def)
  then show ?thesis
    unfolding index_eq using mod_less_divisor
    by (cases "level = 0") (auto simp: ENTRIES_pow intro: less_le_trans [OF mod_less_divisor])
qed

text \<open>The page number of an address: its low 48 bits without the page offset.\<close>

definition page_no :: "platform \<Rightarrow> u64 \<Rightarrow> nat" where
  "page_no p va = unat va mod 2 ^ 48 div 2 ^ PAGE_SHIFT p"

definition va_path :: "platform \<Rightarrow> u64 \<Rightarrow> nat list" where
  "va_path p va = map (index p va) [0, 1, 2]"

lemma mod_mult_eq_iff:
  fixes m m' b c :: nat
  assumes "0 < b"
  shows "m mod (b * c) = m' mod (b * c) \<longleftrightarrow> m mod b = m' mod b \<and> m div b mod c = m' div b mod c"
proof -
  have "(b * x + y = b * x' + y') = (x = x' \<and> y = y')" if "y < b" "y' < b" for x x' y y' :: nat
    using that by (metis add.commute div_mult_self4 div_less mod_mult_self4 mod_less plus_nat.add_0 assms less_not_refl2)
  then show ?thesis
    using assms unfolding mod_mult2_eq by auto
qed

lemma indices_page_no:
  "va_path p va = va_path p va' \<and> index p va 3 = index p va' 3 \<longleftrightarrow> page_no p va = page_no p va'"
proof -
  define b :: nat where "b = 2 ^ BITS_PER_LEVEL p"
  define c :: nat where "c = 2 ^ (48 - (PAGE_SHIFT p + BITS_PER_LEVEL p * 3))"
  have b: "0 < b" by (simp add: b_def)
  have split48: "(2 :: nat) ^ 48 = 2 ^ PAGE_SHIFT p * (b * (b * (b * c)))"
    by (cases p) (simp_all add: b_def c_def PAGE_SHIFT_def BITS_PER_LEVEL_def)
  have pn: "page_no p x = unat x div 2 ^ PAGE_SHIFT p mod (b * (b * (b * c)))" for x
    unfolding page_no_def split48 mod_mult2_eq [of _ "2 ^ PAGE_SHIFT p"] by simp
  have ix: "index p x 3 = unat x div 2 ^ PAGE_SHIFT p mod b"
    "index p x 2 = unat x div 2 ^ PAGE_SHIFT p div b mod b"
    "index p x 1 = unat x div 2 ^ PAGE_SHIFT p div b div b mod b"
    "index p x 0 = unat x div 2 ^ PAGE_SHIFT p div b div b div b mod c" for x
    by (simp_all add: index_eq b_def c_def power_add power_mult div_mult2_eq eval_nat_numeral mult.commute)
  show ?thesis
    unfolding va_path_def pn mod_mult_eq_iff [OF b] list.map ix by auto
qed

section \<open>Descriptors\<close>

lemma ADDR_MASK_alt: "x AND ADDR_MASK p = align_down (PAGE_SHIFT p) (take_bit 48 x)"
proof -
  have "(push_bit 48 1 - 1 :: u64) = mask 48"
    by (simp add: mask_eq_exp_minus_1)
  then show ?thesis
    by (simp only: ADDR_MASK_def align_down_def GRANULE_pow take_bit_eq_mask and.assoc)
qed

lemma align_down_id: "2 ^ k dvd unat x \<Longrightarrow> align_down k x = x"
  by (simp add: u64_eq_iff unat_align_down)

lemma take_bit_48_id: "unat (x :: u64) < 281474976710656 \<Longrightarrow> take_bit 48 x = x"
  by (simp add: u64_eq_iff unat_take_bit_64)

lemma aligned_GRANULE: "aligned (GRANULE p) x \<longleftrightarrow> 2 ^ PAGE_SHIFT p dvd unat x"
  by (simp add: aligned_dvd unat_GRANULE)

lemma mask_address:
  assumes "aligned (GRANULE p) x" "unat x < 281474976710656" "a AND ADDR_MASK p = 0"
  shows "(x OR a) AND ADDR_MASK p = x"
proof -
  have "x AND ADDR_MASK p = x"
    using assms(1,2) by (simp add: ADDR_MASK_alt take_bit_48_id align_down_id aligned_GRANULE)
  then show ?thesis
    using assms(3) by (simp add: bit.conj_disj_distrib2)
qed

lemma aligned_low_bits:
  assumes "aligned (GRANULE p) x"
  shows "x AND 3 = 0"
proof -
  have "4 dvd unat x"
    using assms by (cases p) (auto simp: aligned_GRANULE PAGE_SHIFT_def elim: dvd_trans [rotated])
  then show ?thesis
    using unat_and_mask [of x 2] by (simp add: u64_eq_iff dvd_eq_mod_eq_0)
qed

lemma table_descriptor:
  assumes "aligned (GRANULE p) x" "unat x < 281474976710656"
  shows "(x OR DESC_TABLE) AND 3 = DESC_TABLE" "(x OR DESC_TABLE) AND ADDR_MASK p = x" "x OR DESC_TABLE \<noteq> 0"
proof -
  have "DESC_TABLE AND ADDR_MASK p = 0"
    by (cases p) (simp_all add: DESC_TABLE_def ADDR_MASK_def GRANULE_def)
  then show "(x OR DESC_TABLE) AND ADDR_MASK p = x"
    using assms by (intro mask_address)
  show low: "(x OR DESC_TABLE) AND 3 = DESC_TABLE"
    using aligned_low_bits [OF assms(1)] by (simp add: bit.conj_disj_distrib2 DESC_TABLE_def)
  show "x OR DESC_TABLE \<noteq> 0"
  proof
    assume "x OR DESC_TABLE = 0"
    with low have "(0 :: u64) AND 3 = DESC_TABLE" by (simp only:)
    then show False by (simp add: DESC_TABLE_def)
  qed
qed

lemma unat_not_offset: "unat (x AND NOT KERNEL_VA_OFFSET) = unat x mod 281474976710656"
proof -
  have "NOT KERNEL_VA_OFFSET = (2 ^ 48 - 1 :: u64)"
    by (simp add: KERNEL_VA_OFFSET_def)
  then show ?thesis using unat_and_mask [of x 48] by simp
qed

section \<open>The pool as a table store\<close>

text \<open>The pool lies in one run of physical memory below 2^48, aligned to the granule.\<close>

definition pool_placed :: "platform \<Rightarrow> u64 \<Rightarrow> bool" where
  "pool_placed p a \<longleftrightarrow> 2 ^ PAGE_SHIFT p dvd unat a \<and>
     unat a mod 281474976710656 + POOL_LEN * unat (GRANULE p) \<le> 281474976710656"

text \<open>The table of the pool a descriptor refers to, as the hardware walker finds it.\<close>

definition pool_dest :: "platform \<Rightarrow> u64 \<Rightarrow> u64 \<Rightarrow> nat option" where
  "pool_dest p a e =
     (let base = a AND NOT KERNEL_VA_OFFSET; pa = e AND ADDR_MASK p;
          i = unat ((pa - base) div GRANULE p)
      in if e AND 3 = DESC_TABLE \<and> base \<le> pa \<and> (pa - base) mod GRANULE p = 0 \<and> i < POOL_LEN
         then Some i else None)"

lemma unat_pool_pa:
  assumes "pool_placed p (pl_addr pl)" "i < POOL_LEN"
  shows "unat (pool_pa p pl i) = unat (pl_addr pl) mod 281474976710656 + i * unat (GRANULE p)"
proof -
  have "i * unat (GRANULE p) < 281474976710656"
    using assms(2) GRANULE_bounds(3) [of p] by (auto simp: POOL_LEN_def intro: le_less_trans [OF mult_le_mono])
  then have u: "unat (of_nat i * GRANULE p) = i * unat (GRANULE p)"
    by (simp add: unat_word_ariths unat_of_nat mod_mult_left_eq)
  have lt: "unat (pl_addr pl) mod 281474976710656 + i * unat (GRANULE p) < 281474976710656"
  proof -
    have "i * unat (GRANULE p) < POOL_LEN * unat (GRANULE p)"
      using assms(2) GRANULE_bounds(1) [of p] by simp
    then show ?thesis using assms(1) unfolding pool_placed_def by linarith
  qed
  have "unat (pl_addr pl + of_nat i * GRANULE p) mod 281474976710656 =
      (unat (pl_addr pl) + i * unat (GRANULE p)) mod 281474976710656"
    by (simp only: unat_word_ariths(1) u) (simp add: mod_mod_cancel)
  also have "\<dots> = unat (pl_addr pl) mod 281474976710656 + i * unat (GRANULE p)"
    using lt by (metis mod_add_left_eq mod_less)
  finally show ?thesis
    by (simp add: pool_pa_def unat_not_offset)
qed

lemma pool_pa_table:
  assumes "pool_placed p (pl_addr pl)" "i < POOL_LEN"
  shows "aligned (GRANULE p) (pool_pa p pl i)" "unat (pool_pa p pl i) < 281474976710656"
proof -
  note u = unat_pool_pa [OF assms]
  have "(2 :: nat) ^ PAGE_SHIFT p dvd 281474976710656"
    by (cases p) (simp_all add: PAGE_SHIFT_def)
  then have "2 ^ PAGE_SHIFT p dvd unat (pl_addr pl) mod 281474976710656"
    using assms(1) by (simp add: pool_placed_def dvd_mod)
  then show "aligned (GRANULE p) (pool_pa p pl i)"
    by (simp add: aligned_GRANULE u unat_GRANULE)
  have "i * unat (GRANULE p) < POOL_LEN * unat (GRANULE p)"
    using assms(2) GRANULE_bounds(1) [of p] by simp
  then show "unat (pool_pa p pl i) < 281474976710656"
    unfolding u using assms(1) unfolding pool_placed_def by linarith
qed

lemma pool_dest_link:
  assumes "pool_placed p (pl_addr pl)" "i < POOL_LEN"
  shows "pool_dest p (pl_addr pl) (pool_pa p pl i OR DESC_TABLE) = Some i"
proof -
  let ?base = "pl_addr pl AND NOT KERNEL_VA_OFFSET"
  note u = unat_pool_pa [OF assms] and d = table_descriptor [OF pool_pa_table [OF assms]]
  have le: "unat ?base \<le> unat (pool_pa p pl i)"
    by (simp add: u unat_not_offset)
  then have diff: "unat (pool_pa p pl i - ?base) = i * unat (GRANULE p)"
    by (simp add: unat_sub_64 u unat_not_offset)
  have "unat ((pool_pa p pl i - ?base) div GRANULE p) = i"
    using GRANULE_bounds(1) [of p] by (simp add: unat_div diff)
  moreover have "(pool_pa p pl i - ?base) mod GRANULE p = 0"
    by (simp add: u64_eq_iff unat_mod diff)
  ultimately show ?thesis
    using d le assms(2) by (simp add: pool_dest_def Let_def word_order_unat)
qed

lemma index_of_dest:
  assumes "entry AND 3 = DESC_TABLE" "pool_dest p (pl_addr pl) entry = Some c" "c < pl_used pl"
  shows "index_of p pl (entry AND ADDR_MASK p) = Inr c"
  using assms by (auto simp: index_of_def pool_dest_def pool_pa_def Let_def split: if_split_asm)

interpretation pool_store: table_store pool_get pool_put "pool_dest p a" "\<lambda>t. t < POOL_LEN" "ENTRIES p"
  for p a
proof unfold_locales
  show "pool_dest p a 0 = None"
    by (simp add: pool_dest_def DESC_TABLE_def)
qed (auto simp: pool_get_def pool_put_def pool_dest_def Let_def split: if_split_asm)

section \<open>The pool invariant\<close>

text \<open>
  Tables not yet handed out are cleared, the tables reachable from the roots are allocated and form
  a forest, and every entry above the last level is empty or links a table of the pool.
\<close>

definition pool_links :: "platform \<Rightarrow> pool \<Rightarrow> nat set \<Rightarrow> bool" where
  "pool_links p pl R \<longleftrightarrow>
     (\<forall>r \<in> R. \<forall>q t i. path_ok (ENTRIES p) 2 q \<and> walk (pool_get pl) (pool_dest p (pl_addr pl)) r q = Some t \<and>
        i < ENTRIES p \<and> pool_get pl t i \<noteq> 0 \<longrightarrow>
        pool_get pl t i AND 3 = DESC_TABLE \<and> (\<exists>c. pool_dest p (pl_addr pl) (pool_get pl t i) = Some c))"

definition pool_inv :: "platform \<Rightarrow> pool \<Rightarrow> nat set \<Rightarrow> bool" where
  "pool_inv p pl R \<longleftrightarrow>
     pool_placed p (pl_addr pl) \<and> pl_used pl \<le> POOL_LEN \<and>
     (\<forall>t i. pl_used pl \<le> t \<longrightarrow> pool_get pl t i = 0) \<and>
     reachable (pool_get pl) (pool_dest p (pl_addr pl)) (ENTRIES p) 3 R \<subseteq> {..<pl_used pl} \<and>
     unshared (pool_get pl) (pool_dest p (pl_addr pl)) (ENTRIES p) 3 R \<and> pool_links p pl R"

text \<open>The leaf descriptor a virtual address translates to, 0 if none.\<close>

definition pool_leaf :: "platform \<Rightarrow> pool \<Rightarrow> nat \<Rightarrow> u64 \<Rightarrow> u64" where
  "pool_leaf p pl r va =
     translate (pool_get pl) (pool_dest p (pl_addr pl)) r (va_path p va) (index p va 3)"

lemma va_path_ok: "path_ok (ENTRIES p) 3 (va_path p va)" "length (va_path p va) = 3"
  by (simp_all add: path_ok_def va_path_def index_lt)

lemma pool_inv_root: "pool_inv p pl R \<Longrightarrow> r \<in> R \<Longrightarrow> r < pl_used pl \<and> r < POOL_LEN"
  using reachableI [of r R "ENTRIES p" 3 "[]" "pool_get pl" "pool_dest p (pl_addr pl)" r]
  by (auto simp: pool_inv_def path_ok_def)


section \<open>Rollback\<close>

lemma pool_put_fields [simp]:
  "pl_used (pool_put pl t i v) = pl_used pl" "pl_addr (pool_put pl t i v) = pl_addr pl"
  "pl_enabled (pool_put pl t i v) = pl_enabled pl" "pl_root1 (pool_put pl t i v) = pl_root1 pl"
  by (simp_all add: pool_put_def)

lemma pool_put_zero_commute:
  "pool_put (pool_put pl t i 0) u j 0 = pool_put (pool_put pl u j 0) t i 0"
  by (simp add: pool_put_def fun_eq_iff)

lemma pool_put_used_commute:
  "pool_put (pl\<lparr>pl_used := n\<rparr>) t i v = (pool_put pl t i v)\<lparr>pl_used := n\<rparr>"
  by (simp add: pool_put_def)

lemma pool_clear_commute:
  "fold (\<lambda>(u, j) q. pool_put q u j 0) links (pool_put pl t i 0) =
     pool_put (fold (\<lambda>(u, j) q. pool_put q u j 0) links pl) t i 0"
  by (induction links arbitrary: pl) (auto simp: pool_put_zero_commute [of _ t i])

lemma pool_undo_Cons:
  "pool_undo n ((t, i) # links) pl = (pool_put (pool_undo m links pl) t i 0)\<lparr>pl_used := n\<rparr>"
  by (simp add: pool_undo_def pool_clear_commute pool_put_used_commute)

text \<open>The links of a descent, undone, restore the pool the descent started from.\<close>

lemma pool_descend_undo:
  assumes "pool_descend p va levels t pl links = Inr (res, pl', links')"
  shows "\<exists>new. links' = links @ new \<and> pool_undo (pl_used pl) new pl' = pl"
  using assms
proof (induction p va levels t pl links rule: pool_descend.induct)
  case (2 p va level levels t pl links)
  let ?idx = "index p va level"
  from "2.prems" have rd: "pool_read p pl t ?idx = Inr (pool_get pl t ?idx)"
    by (auto simp: pool_read_def Let_def split: if_split_asm)
  have same: "pool_undo (pl_used pl) [] pl = pl" by (simp add: pool_undo_def)
  consider (alloc) child pl1 where "pool_get pl t ?idx = 0" "pool_alloc pl = Inr (child, pl1)"
    | (child) c where "pool_get pl t ?idx \<noteq> 0" "pool_get pl t ?idx AND 3 = DESC_TABLE"
        "index_of p pl (pool_get pl t ?idx AND ADDR_MASK p) = Inr c"
    | (stop) "pl' = pl" "links' = links"
    using "2.prems" rd by (auto simp: Let_def split: if_split_asm sum.split_asm prod.split_asm)
  then show ?case
  proof cases
    case alloc
    let ?pl2 = "pool_put pl1 t ?idx (pool_pa p pl1 child OR DESC_TABLE)"
    have run: "pool_descend p va levels child ?pl2 (links @ [(t, ?idx)]) = Inr (res, pl', links')"
      using "2.prems" rd alloc by (simp add: Let_def)
    obtain new where new: "links' = (links @ [(t, ?idx)]) @ new" "pool_undo (pl_used ?pl2) new pl' = ?pl2"
      using "2.IH"(1) [OF refl rd alloc(1,2) refl run] by blast
    have pl1: "pl1 = pl\<lparr>pl_used := pl_used pl + 1\<rparr>"
      using alloc(2) by (auto simp: pool_alloc_def split: if_split_asm)
    have "(pool_put ?pl2 t ?idx 0)\<lparr>pl_used := pl_used pl\<rparr> = pl"
      using alloc(1) by (simp add: pl1 pool_put_def pool_get_def fun_upd_idem)
    then have "pool_undo (pl_used pl) ((t, ?idx) # new) pl' = pl"
      using new(2) pool_undo_Cons [of "pl_used pl" t ?idx new pl' "pl_used ?pl2"] by simp
    with new(1) show ?thesis by auto
  next
    case child
    have "pool_descend p va levels c pl links = Inr (res, pl', links')"
      using "2.prems" rd child by (simp add: Let_def)
    then show ?thesis
      using "2.IH"(2) [OF refl rd child] by blast
  qed (use same in auto)
qed (simp add: pool_undo_def)

lemma map_page_rollback:
  assumes "map_page p root va pa attrs pl = Inr (Inl e, pl')"
  shows "pl' = pl"
proof -
  obtain r pl1 links where d: "pool_descend p va [0, 1, 2] root pl [] = Inr (r, pl1, links)"
    using assms by (cases "pool_descend p va [0, 1, 2] root pl []") (auto simp: map_page_def)
  have u: "pl' = pool_undo (pl_used pl) links pl1"
    using assms unfolding map_page_def d
    by (cases r) (auto simp: Let_def and_then_Inr split: if_split_asm)
  from pool_descend_undo [OF d] u show ?thesis by simp
qed

section \<open>Mapping a page\<close>

text \<open>Linking a fresh table below an empty entry: the invariant holds and no translation changes.\<close>

lemma pool_link_step:
  assumes inv: "pool_inv p pl R" and r: "r \<in> R" and q: "path_ok (ENTRIES p) 2 q"
    and t: "walk (pool_get pl) (pool_dest p (pl_addr pl)) r q = Some t"
    and i: "i < ENTRIES p" "pool_get pl t i = 0"
    and al: "pool_alloc pl = Inr (c, pl1)"
    and pl2: "pl2 = pool_put pl1 t i (pool_pa p pl1 c OR DESC_TABLE)"
  shows "pool_inv p pl2 R" "walk (pool_get pl2) (pool_dest p (pl_addr pl2)) r (q @ [i]) = Some c"
    "r' \<in> R \<Longrightarrow> pool_leaf p pl2 r' va = pool_leaf p pl r' va"
    "pl_addr pl2 = pl_addr pl"
proof -
  let ?w = "ENTRIES p" and ?dest = "pool_dest p (pl_addr pl)"
  let ?e = "pool_pa p pl c OR DESC_TABLE"
  have c: "c = pl_used pl" "c < POOL_LEN" and pl1: "pl1 = pl\<lparr>pl_used := pl_used pl + 1\<rparr>"
    using al inv by (auto simp: pool_alloc_def pool_inv_def split: if_split_asm)
  have get2: "pool_get pl2 = pool_get (pool_put pl t i ?e)"
    by (simp add: pl2 pl1 pool_put_def pool_get_def pool_pa_def fun_eq_iff)
  show ad: "pl_addr pl2 = pl_addr pl" by (simp add: pl2 pl1)
  have de: "?dest ?e = Some c"
    using inv c(2) by (intro pool_dest_link) (simp_all add: pool_inv_def)
  have fresh: "c \<notin> reachable (pool_get pl) ?dest ?w 3 R" "\<forall>k < ?w. pool_get pl c k = 0"
    using inv c(1) by (auto simp: pool_inv_def)
  have un: "unshared (pool_get pl) ?dest ?w 3 R" and ok: "\<forall>r \<in> R. r < POOL_LEN"
    using inv pool_inv_root by (auto simp: pool_inv_def)
  have q3: "path_ok ?w 3 q" "length q < 3" using q by (auto simp: path_ok_def)
  note link = pool_store.link_write [OF un ok r q3 t i de fresh, folded get2]
  note lw = pool_store.link_walk [OF un ok r _ q3(1) t i de fresh, folded get2]
  show "walk (pool_get pl2) (pool_dest p (pl_addr pl2)) r (q @ [i]) = Some c"
    using link(4) by (simp add: ad)
  show "r' \<in> R \<Longrightarrow> pool_leaf p pl2 r' va = pool_leaf p pl r' va"
    using link(3) va_path_ok index_lt by (simp add: pool_leaf_def ad)
  have "pool_links p pl2 R"
    unfolding pool_links_def ad
  proof (intro ballI allI impI, elim conjE)
    fix r' q' t' j
    assume a: "r' \<in> R" "path_ok ?w 2 q'" "walk (pool_get pl2) ?dest r' q' = Some t'" "j < ?w"
      "pool_get pl2 t' j \<noteq> 0"
    have "path_ok ?w 3 q'" using a(2) by (simp add: path_ok_def)
    then have "t' \<noteq> c \<and> walk (pool_get pl) ?dest r' q' = Some t'"
      using lw [OF a(1)] a(3-5) link(5) by (auto split: if_split_asm)
    then show "pool_get pl2 t' j AND 3 = DESC_TABLE \<and> (\<exists>c. ?dest (pool_get pl2 t' j) = Some c)"
      using a(1,2,4,5) inv de c(2) table_descriptor(1) [OF pool_pa_table, of p pl c]
      unfolding pool_inv_def pool_links_def get2
      by (auto simp: pool_get_def pool_put_def split: if_split_asm)
  qed
  moreover have "reachable (pool_get pl2) ?dest ?w 3 R \<subseteq> {..<pl_used pl2}"
    using link(2) inv c(1) by (auto simp: pool_inv_def pl2 pl1)
  moreover have "pl_used pl \<le> t \<Longrightarrow> False"
    using reachableI [OF r q3(1) t] inv by (auto simp: pool_inv_def)
  ultimately show "pool_inv p pl2 R"
    using inv link(1) c unfolding pool_inv_def ad
    by (auto simp: get2) (auto simp: pl2 pl1 pool_put_def pool_get_def split: if_split_asm)
qed

lemma pool_child_step:
  assumes inv: "pool_inv p pl R" and r: "r \<in> R" and q: "path_ok (ENTRIES p) 2 q"
    and t: "walk (pool_get pl) (pool_dest p (pl_addr pl)) r q = Some t"
    and i: "i < ENTRIES p" "pool_get pl t i \<noteq> 0"
  obtains c where "pool_get pl t i AND 3 = DESC_TABLE"
    "index_of p pl (pool_get pl t i AND ADDR_MASK p) = Inr c"
    "walk (pool_get pl) (pool_dest p (pl_addr pl)) r (q @ [i]) = Some c"
proof -
  obtain c where c: "pool_get pl t i AND 3 = DESC_TABLE" "pool_dest p (pl_addr pl) (pool_get pl t i) = Some c"
    using inv r q t i unfolding pool_inv_def pool_links_def by blast
  then have w: "walk (pool_get pl) (pool_dest p (pl_addr pl)) r (q @ [i]) = Some c"
    using t by (simp add: walk_snoc)
  have "path_ok (ENTRIES p) 3 (q @ [i])" using q i(1) by (auto simp: path_ok_def)
  from reachableI [OF r this w] have "c < pl_used pl"
    using inv by (auto simp: pool_inv_def)
  then show thesis
    using that c index_of_dest w by blast
qed

lemma pool_read_walk:
  assumes "pool_inv p pl R" "r \<in> R" "path_ok (ENTRIES p) 3 q" "i < ENTRIES p"
    "walk (pool_get pl) (pool_dest p (pl_addr pl)) r q = Some t"
  shows "pool_read p pl t i = Inr (pool_get pl t i)"
  using assms reachableI [OF assms(2,3,5)] by (auto simp: pool_read_def pool_inv_def)

text \<open>The descent reaches the last-level table of the address, or runs out of tables.\<close>

definition reaches ::
  "platform \<Rightarrow> nat set \<Rightarrow> nat \<Rightarrow> nat list \<Rightarrow> pool \<Rightarrow> mmu_error + nat \<Rightarrow> pool \<Rightarrow> bool" where
  "reaches p R r path pl res pl' \<longleftrightarrow>
     (case res of Inl e \<Rightarrow> e = OutOfTables
      | Inr t \<Rightarrow> pool_inv p pl' R \<and> pl_addr pl' = pl_addr pl \<and>
          walk (pool_get pl') (pool_dest p (pl_addr pl')) r path = Some t \<and>
          (\<forall>r' \<in> R. \<forall>va. pool_leaf p pl' r' va = pool_leaf p pl r' va))"

lemma reaches_trans:
  assumes "reaches p R r path pl1 res pl2" "pl_addr pl1 = pl_addr pl"
    "\<And>r' va. r' \<in> R \<Longrightarrow> pool_leaf p pl1 r' va = pool_leaf p pl r' va"
  shows "reaches p R r path pl res pl2"
  using assms by (auto simp: reaches_def split: sum.split_asm)

lemma pool_descend_reaches:
  assumes "pool_inv p pl R" "r \<in> R" "path_ok (ENTRIES p) 3 q" "length q + length levels = 3"
    "walk (pool_get pl) (pool_dest p (pl_addr pl)) r q = Some t"
  shows "\<exists>res pl' links'. pool_descend p va levels t pl links = Inr (res, pl', links') \<and>
    reaches p R r (q @ map (index p va) levels) pl res pl'"
  using assms
proof (induction p va levels t pl links arbitrary: q rule: pool_descend.induct)
  case (2 p va level levels t pl links)
  let ?i = "index p va level" and ?D = "pool_dest p (pl_addr pl)"
  have q: "path_ok (ENTRIES p) 2 q" and len: "length (q @ [?i]) + length levels = 3"
    using "2.prems"(3,4) by (auto simp: path_ok_def)
  have qi: "path_ok (ENTRIES p) 3 (q @ [?i])"
    using q index_lt by (auto simp: path_ok_def)
  have rd: "pool_read p pl t ?i = Inr (pool_get pl t ?i)"
    using pool_read_walk [OF "2.prems"(1,2,3) index_lt "2.prems"(5)] .
  show ?case
  proof (cases "pool_get pl t ?i = 0")
    case True
    show ?thesis
    proof (cases "pool_alloc pl")
      case (Inl e)
      with True rd show ?thesis by (auto simp: pool_alloc_def reaches_def split: if_split_asm)
    next
      case (Inr a)
      then obtain c pl1 where al: "pool_alloc pl = Inr (c, pl1)" by (cases a) auto
      note step = pool_link_step [OF "2.prems"(1,2) q "2.prems"(5) index_lt True al refl]
      obtain res pl' links' where run: "pool_descend p va levels c
            (pool_put pl1 t ?i (pool_pa p pl1 c OR DESC_TABLE)) (links @ [(t, ?i)]) = Inr (res, pl', links')"
          and "reaches p R r ((q @ [?i]) @ map (index p va) levels)
            (pool_put pl1 t ?i (pool_pa p pl1 c OR DESC_TABLE)) res pl'"
        using "2.IH"(1) [OF refl rd True al refl step(1) "2.prems"(2) qi len step(2)] by blast
      then have "reaches p R r (q @ map (index p va) (level # levels)) pl res pl'"
        using reaches_trans step(3,4) by fastforce
      with run rd True al show ?thesis by (simp add: Let_def)
    qed
  next
    case False
    obtain c where c: "pool_get pl t ?i AND 3 = DESC_TABLE"
        "index_of p pl (pool_get pl t ?i AND ADDR_MASK p) = Inr c" "walk (pool_get pl) ?D r (q @ [?i]) = Some c"
      using pool_child_step [OF "2.prems"(1,2) q "2.prems"(5) index_lt False] by blast
    show ?thesis
      using "2.IH"(2) [OF refl rd False c(1,2) "2.prems"(1,2) qi len c(3)] rd False c(1,2)
      by (auto simp: Let_def)
  qed
qed (simp add: reaches_def)

lemma pool_leaf_write:
  assumes inv: "pool_inv p pl R" and r: "r \<in> R"
    and t: "walk (pool_get pl) (pool_dest p (pl_addr pl)) r (va_path p va) = Some t"
  shows "pool_inv p (pool_put pl t (index p va 3) v) R"
    "r' \<in> R \<Longrightarrow> pool_leaf p (pool_put pl t (index p va 3) v) r' va' =
       (if r' = r \<and> page_no p va' = page_no p va then v else pool_leaf p pl r' va')"
proof -
  let ?w = "ENTRIES p" and ?D = "pool_dest p (pl_addr pl)" and ?pl = "pool_put pl t (index p va 3) v"
  have un: "unshared (pool_get pl) ?D ?w 3 R" and ok: "\<forall>r \<in> R. r < POOL_LEN"
    using inv pool_inv_root by (auto simp: pool_inv_def)
  note leaf = pool_store.leaf_write [OF un ok r va_path_ok t index_lt [of p va 3]]
  note lw = pool_store.leaf_write_walk [OF un ok r _ va_path_ok t index_lt [of p va 3]]
  show "r' \<in> R \<Longrightarrow> pool_leaf p ?pl r' va' =
      (if r' = r \<and> page_no p va' = page_no p va then v else pool_leaf p pl r' va')"
    using leaf(3) [of r' "va_path p va'" "index p va' 3" v] va_path_ok [of p va'] index_lt [of p va' 3]
      indices_page_no [of p va' va]
    by (auto simp: pool_leaf_def)
  have "t \<in> reachable (pool_get pl) ?D ?w 3 R"
    using r va_path_ok(1) t by (rule reachableI)
  then have tu: "t < pl_used pl" using inv by (auto simp: pool_inv_def)
  have "pool_links p ?pl R"
    unfolding pool_links_def pool_put_fields
  proof (intro ballI allI impI, elim conjE)
    fix r' q u i
    assume a: "r' \<in> R" "path_ok ?w 2 q" "walk (pool_get ?pl) ?D r' q = Some u" "i < ?w" "pool_get ?pl u i \<noteq> 0"
    have q3: "path_ok ?w 3 q" using a(2) by (simp add: path_ok_def)
    have w: "walk (pool_get pl) ?D r' q = Some u" using lw [OF a(1) q3] a(3) by simp
    have "u \<noteq> t"
      using unsharedD [OF un a(1) r q3 va_path_ok(1) w] t a(2) by (auto simp: path_ok_def va_path_def)
    then have "pool_get ?pl u i = pool_get pl u i" by (simp add: pool_get_def pool_put_def)
    with a w inv show "pool_get ?pl u i AND 3 = DESC_TABLE \<and> (\<exists>c. ?D (pool_get ?pl u i) = Some c)"
      unfolding pool_inv_def pool_links_def by metis
  qed
  then show "pool_inv p ?pl R"
    using inv leaf(1,2) tu unfolding pool_inv_def
    by (auto simp: pool_get_def pool_put_def)
qed

text \<open>
  The outcome of mapping one page: it never panics; it either fails for lack of tables or because
  the page is mapped, leaving the pool as it was, or adds exactly the translation of that page.
\<close>

lemma map_page_cases:
  assumes inv: "pool_inv p pl R" and r: "r \<in> R"
  obtains (fail) e where "map_page p r va pa attrs pl = Inr (Inl e, pl)"
      "e = OutOfTables \<or> (e = Overlap \<and> pool_leaf p pl r va \<noteq> 0)"
    | (mapped) pl' where "map_page p r va pa attrs pl = Inr (Inr (), pl')" "pool_inv p pl' R"
      "pl_addr pl' = pl_addr pl" "pool_leaf p pl r va = 0"
      "\<And>r' va'. r' \<in> R \<Longrightarrow> pool_leaf p pl' r' va' =
         (if r' = r \<and> page_no p va' = page_no p va then pa OR attrs else pool_leaf p pl r' va')"
proof -
  have root: "walk (pool_get pl) (pool_dest p (pl_addr pl)) r [] = Some r" "path_ok (ENTRIES p) 3 []"
    by (simp_all add: path_ok_def)
  obtain res pl1 links where run: "pool_descend p va [0, 1, 2] r pl [] = Inr (res, pl1, links)"
      and rc: "reaches p R r (va_path p va) pl res pl1"
    using pool_descend_reaches [OF inv r root(2) _ root(1), of "[0, 1, 2]" va "[]"] by (auto simp: va_path_def)
  note undo = map_page_rollback [of p r va pa attrs pl]
  show thesis
  proof (cases res)
    case (Inl e)
    then have "map_page p r va pa attrs pl = Inr (Inl e, pool_undo (pl_used pl) links pl1)"
      unfolding map_page_def run by simp
    with Inl rc undo show thesis by (intro fail) (auto simp: reaches_def)
  next
    case (Inr t)
    with rc have d: "pool_inv p pl1 R" "pl_addr pl1 = pl_addr pl"
        "walk (pool_get pl1) (pool_dest p (pl_addr pl1)) r (va_path p va) = Some t"
        "\<And>r' va. r' \<in> R \<Longrightarrow> pool_leaf p pl1 r' va = pool_leaf p pl r' va"
      by (auto simp: reaches_def)
    have rd: "pool_read p pl1 t (index p va 3) = Inr (pool_get pl1 t (index p va 3))"
      using pool_read_walk [OF d(1) r va_path_ok(1) index_lt d(3)] .
    have leaf: "pool_leaf p pl r va = pool_get pl1 t (index p va 3)"
      unfolding d(4) [OF r, symmetric] by (simp add: pool_leaf_def translate_def d(3))
    show thesis
    proof (cases "pool_get pl1 t (index p va 3) = 0")
      case True
      then have m: "map_page p r va pa attrs pl = Inr (Inr (), pool_put pl1 t (index p va 3) (pa OR attrs))"
        using rd unfolding map_page_def run Inr by (simp add: Let_def)
      show thesis
        by (rule mapped [OF m]) (use True leaf d(2,4) pool_leaf_write [OF d(1) r d(3)] in auto)
    next
      case False
      then have "map_page p r va pa attrs pl = Inr (Inl Overlap, pool_undo (pl_used pl) links pl1)"
        using rd unfolding map_page_def run Inr by (simp add: Let_def)
      with False leaf undo show thesis by (intro fail) auto
    qed
  qed
qed

section \<open>Mapping a range\<close>

text \<open>Which bits of a leaf descriptor grant what: AP[2] (bit 7) denies writes, AP[1] (bit 6) opens
  the page to EL0, bits 53 and 54 forbid execution at EL1 and EL0.\<close>

definition wx_safe :: "u64 \<Rightarrow> bool" where
  "wx_safe e \<longleftrightarrow> bit e 7 \<or> (bit e 53 \<and> bit e 54)"

definition kernel_only :: "u64 \<Rightarrow> bool" where
  "kernel_only e \<longleftrightarrow> \<not> bit e 6 \<and> bit e 54"

definition leaf_secure :: "u64 \<Rightarrow> bool" where
  "leaf_secure e \<longleftrightarrow> e = 0 \<or> (wx_safe e \<and> kernel_only e)"

lemma perm_attrs_bits:
  "bit (perm_attrs pm) 7 \<or> (bit (perm_attrs pm) 53)" "bit (perm_attrs pm) 54" "\<not> bit (perm_attrs pm) 6"
  by (cases pm; simp add: perm_attrs_def desc_defs bit_simps)+

lemma aligned_bit:
  assumes "aligned (GRANULE p) x" "n < PAGE_SHIFT p"
  shows "\<not> bit x n"
proof -
  have "take_bit (PAGE_SHIFT p) x = 0"
    using assms(1) by (simp add: u64_eq_iff unat_take_bit_64 aligned_GRANULE)
  then have "bit (take_bit (PAGE_SHIFT p) x) n = False" by simp
  then show ?thesis using assms(2) by (simp add: bit_simps)
qed

lemma perm_leaf_secure:
  assumes "aligned (GRANULE p) pa"
  shows "leaf_secure (pa OR perm_attrs pm)"
proof -
  have "\<not> bit pa 6"
    using assms by (rule aligned_bit) (cases p, simp_all add: PAGE_SHIFT_def)
  then show ?thesis
    using perm_attrs_bits [of pm] by (auto simp: leaf_secure_def wx_safe_def kernel_only_def bit_simps)
qed

definition pool_secure :: "platform \<Rightarrow> pool \<Rightarrow> nat set \<Rightarrow> bool" where
  "pool_secure p pl R \<longleftrightarrow> (\<forall>r \<in> R. \<forall>va. leaf_secure (pool_leaf p pl r va))"

text \<open>
  The pages \<open>va + k\<close> for the multiples \<open>k\<close> of the granule with \<open>off \<le> k < len\<close> were free and are now
  mapped to \<open>pa + k\<close>; every other translation is as before.
\<close>

definition page_offset :: "platform \<Rightarrow> u64 \<Rightarrow> u64 \<Rightarrow> nat \<Rightarrow> bool" where
  "page_offset p off len k \<longleftrightarrow> unat off \<le> k \<and> k < unat len \<and> unat (GRANULE p) dvd k"

definition range_mapped ::
  "platform \<Rightarrow> 'r set \<Rightarrow> 'r \<Rightarrow> u64 \<Rightarrow> u64 \<Rightarrow> u64 \<Rightarrow> u64 \<Rightarrow> u64
     \<Rightarrow> ('r \<Rightarrow> u64 \<Rightarrow> u64) \<Rightarrow> ('r \<Rightarrow> u64 \<Rightarrow> u64) \<Rightarrow> bool" where
  "range_mapped p R r va pa len attrs off f f' \<longleftrightarrow>
     (\<forall>k. page_offset p off len k \<longrightarrow> f r (va + of_nat k) = 0 \<and>
        (\<forall>va'. page_no p va' = page_no p (va + of_nat k) \<longrightarrow> f' r va' = (pa + of_nat k) OR attrs)) \<and>
     (\<forall>r' \<in> R. \<forall>va'. \<not> (r' = r \<and> (\<exists>k. page_offset p off len k \<and> page_no p va' = page_no p (va + of_nat k))) \<longrightarrow>
        f' r' va' = f r' va')"

lemma page_no_leaf:
  "page_no p va = page_no p va' \<Longrightarrow> pool_leaf p pl r va = pool_leaf p pl r va'"
  using indices_page_no [of p va va'] by (simp add: pool_leaf_def)

lemma page_offset_step:
  assumes "unat off < unat len" "unat (GRANULE p) dvd unat off"
    and "unat off' = unat off + unat (GRANULE p)"
  shows "page_offset p off len k \<longleftrightarrow> k = unat off \<or> page_offset p off' len k"
proof -
  have "k = unat off" if "unat off \<le> k" "k < unat off + unat (GRANULE p)" "unat (GRANULE p) dvd k"
  proof -
    have "unat (GRANULE p) dvd k - unat off" using that assms(2) by simp
    moreover have "k - unat off < unat (GRANULE p)" using that by simp
    ultimately have "k - unat off = 0" by (meson dvd_imp_le not_le not_gr_zero)
    then show ?thesis using that(1) by simp
  qed
  then show ?thesis
    using assms unfolding page_offset_def by force
qed

lemma range_mapped_step:
  assumes leaf: "\<And>r' va'. r' \<in> R \<Longrightarrow> f1 r' va' =
        (if r' = r \<and> page_no p va' = page_no p (va + off) then (pa + off) OR attrs else f r' va')"
    and free: "f r (va + off) = 0" and nz: "(pa + off) OR attrs \<noteq> 0" and r: "r \<in> R"
    and off: "unat off < unat len" "unat (GRANULE p) dvd unat off" "unat off' = unat off + unat (GRANULE p)"
    and rest: "range_mapped p R r va pa len attrs off' f1 f2"
  shows "range_mapped p R r va pa len attrs off f f2"
proof -
  note step = page_offset_step [OF off]
  have later: "page_no p (va + of_nat k) \<noteq> page_no p (va + off)" if "page_offset p off' len k" for k
    using rest that leaf [OF r, of "va + of_nat k"] nz unfolding range_mapped_def by auto
  have w: "of_nat (unat off) = off" by simp
  have "f r (va + of_nat k) = 0" if "page_offset p off len k" for k
    using that rest leaf [OF r, of "va + of_nat k"] later free w unfolding step range_mapped_def by auto
  moreover have "f2 r va' = (pa + of_nat k) OR attrs"
    if "page_offset p off len k" "page_no p va' = page_no p (va + of_nat k)" for k va'
  proof (cases "page_offset p off' len k")
    case False
    with that have k: "k = unat off" by (simp add: step)
    have "\<not> (\<exists>k. page_offset p off' len k \<and> page_no p va' = page_no p (va + of_nat k))"
      using later that(2) k w by metis
    then have "f2 r va' = f1 r va'"
      using rest r unfolding range_mapped_def by blast
    with that(2) k leaf [OF r] show ?thesis by simp
  qed (use rest that in \<open>auto simp: range_mapped_def\<close>)
  moreover have "f2 r' va' = f r' va'"
    if "r' \<in> R" "\<not> (r' = r \<and> (\<exists>k. page_offset p off len k \<and> page_no p va' = page_no p (va + of_nat k)))" for r' va'
  proof -
    have "\<not> (r' = r \<and> (\<exists>k. page_offset p off' len k \<and> page_no p va' = page_no p (va + of_nat k)))"
      and "\<not> (r' = r \<and> page_no p va' = page_no p (va + off))"
      using that(2) w by (auto simp: step)
    then show ?thesis
      using rest that(1) leaf [OF that(1), of va'] unfolding range_mapped_def by auto
  qed
  ultimately show ?thesis unfolding range_mapped_def by blast
qed

lemma aligned_add:
  assumes "aligned (GRANULE p) a" "aligned (GRANULE p) b" "unat a + unat b < 18446744073709551616"
  shows "aligned (GRANULE p) (a + b)"
  using assms by (simp add: aligned_dvd unat_add_64)

lemma map_range_loop_correct:
  assumes "pool_inv p pl R" "r \<in> R" "pool_secure p pl R"
    "unat va + unat len \<le> 18446744073709551616" "unat pa + unat len \<le> 18446744073709551616"
    "aligned (GRANULE p) pa" "aligned (GRANULE p) len" "aligned (GRANULE p) off"
  shows "\<exists>res pl'. map_range_loop p r va pa len (perm_attrs pm) off pl = Inr (res, pl') \<and>
     pool_inv p pl' R \<and> pl_addr pl' = pl_addr pl \<and> pool_secure p pl' R \<and>
     (case res of Inl e \<Rightarrow> e = OutOfTables \<or> e = Overlap
      | Inr _ \<Rightarrow> range_mapped p R r va pa len (perm_attrs pm) off (pool_leaf p pl) (pool_leaf p pl'))"
  using assms
proof (induction p r va pa len "perm_attrs pm" off pl rule: map_range_loop.induct)
  case (1 p r va pa len off pl)
  note step = map_range_loop.simps [of p r va pa len "perm_attrs pm" off pl]
  show ?case
  proof (cases "off < len")
    case True
    then have lt: "unat off < unat len" by (simp add: word_order_unat)
    have va: "add_pn va off = Inr (va + off)" and pa: "add_pn pa off = Inr (pa + off)"
      using lt "1.prems"(4,5) by (auto intro!: add_pn_ok)
    have "unat (GRANULE p) dvd unat len - unat off"
      using "1.prems"(7,8) by (simp add: aligned_dvd)
    then have "unat off + unat (GRANULE p) \<le> unat len"
      using lt dvd_imp_le [of "unat (GRANULE p)" "unat len - unat off"] by simp
    then have g: "unat off + unat (GRANULE p) < 18446744073709551616"
      using unat_lt_64 [of len] by linarith
    note og = add_pn_ok [OF g] unat_add_64 [OF g]
    have al: "aligned (GRANULE p) (pa + off)" "aligned (GRANULE p) (off + GRANULE p)"
      using "1.prems"(5,6,8) lt g by (auto intro!: aligned_add) (simp add: aligned_dvd)
    from "1.prems"(1,2) show ?thesis
    proof (cases rule: map_page_cases [where va = "va + off" and pa = "pa + off" and attrs = "perm_attrs pm"])
      case (fail e)
      with True va pa "1.prems" show ?thesis by (auto simp: step)
    next
      case (mapped pl1)
      have sec: "leaf_secure ((pa + off) OR perm_attrs pm)" "(pa + off) OR perm_attrs pm \<noteq> 0"
        using perm_leaf_secure [OF al(1)] perm_attrs_bits(2) [of pm]
        by (auto simp: bit_simps dest!: arg_cong [where f = "\<lambda>w. bit w 54"])
      have "pool_secure p pl1 R"
        using "1.prems"(2,3) mapped(5) sec(1) by (simp add: pool_secure_def)
      then obtain res pl' where run: "map_range_loop p r va pa len (perm_attrs pm) (off + GRANULE p) pl1 = Inr (res, pl')"
          and post: "pool_inv p pl' R" "pl_addr pl' = pl_addr pl1" "pool_secure p pl' R"
          "case res of Inl e \<Rightarrow> e = OutOfTables \<or> e = Overlap
           | Inr _ \<Rightarrow> range_mapped p R r va pa len (perm_attrs pm) (off + GRANULE p) (pool_leaf p pl1) (pool_leaf p pl')"
        using "1.hyps" [OF True va pa mapped(1) refl refl og(1) mapped(2) "1.prems"(2) _ "1.prems"(4-7) al(2)]
        by blast
      have "range_mapped p R r va pa len (perm_attrs pm) off (pool_leaf p pl) (pool_leaf p pl')" if "res = Inr u" for u
        using range_mapped_step [OF mapped(5,4) sec(2) "1.prems"(2) lt _ og(2)] post(4) that "1.prems"(8)
        by (simp add: aligned_dvd)
      with run post mapped(1,3) True va pa og(1) show ?thesis
        by (auto simp: step split: sum.split_asm)
    qed
  next
    case False
    then have "\<not> page_offset p off len k" for k
      by (auto simp: page_offset_def word_order_unat)
    with False "1.prems" show ?thesis by (simp add: step range_mapped_def)
  qed
qed
section \<open>The initial address spaces\<close>

text \<open>
  \<open>listed p root0 root1 L r va e\<close>: some entry \<open>(start, len, perm)\<close> of \<open>L\<close> maps the page of \<open>va\<close> to the
  descriptor \<open>e\<close>, at its physical address under \<open>root0\<close> and at the higher-half alias under \<open>root1\<close>.
\<close>

definition listed ::
  "platform \<Rightarrow> nat \<Rightarrow> nat \<Rightarrow> (u64 \<times> u64 \<times> perm) list \<Rightarrow> nat \<Rightarrow> u64 \<Rightarrow> u64 \<Rightarrow> bool" where
  "listed p root0 root1 L r va e \<longleftrightarrow>
     (\<exists>(start, len, pm) \<in> set L. \<exists>k. page_offset p 0 len k \<and> e = (start + of_nat k) OR perm_attrs pm \<and>
        (r = root0 \<and> page_no p va = page_no p (start + of_nat k) \<or>
         r = root1 \<and> page_no p va = page_no p (start + KERNEL_VA_OFFSET + of_nat k)))"

text \<open>The two address spaces map exactly the entries of \<open>L\<close>.\<close>

definition pool_exact :: "platform \<Rightarrow> pool \<Rightarrow> nat \<Rightarrow> nat \<Rightarrow> (u64 \<times> u64 \<times> perm) list \<Rightarrow> bool" where
  "pool_exact p pl root0 root1 L \<longleftrightarrow>
     (\<forall>r \<in> {root0, root1}. \<forall>va e. e \<noteq> 0 \<longrightarrow> (pool_leaf p pl r va = e \<longleftrightarrow> listed p root0 root1 L r va e))"

lemma perm_leaf_nonzero: "x OR perm_attrs pm \<noteq> 0"
  using perm_attrs_bits(2) [of pm] by (auto simp: bit_simps dest!: arg_cong [where f = "\<lambda>w. bit w 54"])

lemma map_range_correct:
  assumes "pool_inv p pl R" "r \<in> R" "pool_secure p pl R"
    "unat va + unat len \<le> 18446744073709551616" "unat pa + unat len \<le> 18446744073709551616"
  obtains (fail) e pl' where "map_range p r va pa len pm pl = Inr (Inl e, pl')"
      "pool_inv p pl' R" "pl_addr pl' = pl_addr pl" "pool_secure p pl' R"
    | (mapped) pl' where "map_range p r va pa len pm pl = Inr (Inr (), pl')"
      "pool_inv p pl' R" "pl_addr pl' = pl_addr pl" "pool_secure p pl' R"
      "range_mapped p R r va pa len (perm_attrs pm) 0 (pool_leaf p pl) (pool_leaf p pl')"
      "aligned (GRANULE p) va" "aligned (GRANULE p) pa" "aligned (GRANULE p) len"
proof (cases "aligned (GRANULE p) va \<and> aligned (GRANULE p) pa \<and> aligned (GRANULE p) len")
  case True
  moreover have "aligned (GRANULE p) 0" by (simp add: aligned_def)
  ultimately obtain res pl' where run: "map_range_loop p r va pa len (perm_attrs pm) 0 pl = Inr (res, pl')"
      and post: "pool_inv p pl' R" "pl_addr pl' = pl_addr pl" "pool_secure p pl' R"
      "case res of Inl e \<Rightarrow> e = OutOfTables \<or> e = Overlap
       | Inr _ \<Rightarrow> range_mapped p R r va pa len (perm_attrs pm) 0 (pool_leaf p pl) (pool_leaf p pl')"
    using map_range_loop_correct [OF assms, of 0 pm] by blast
  have mr: "map_range p r va pa len pm pl = Inr (res, pl')"
    using True run by (simp add: map_range_def)
  show thesis
  proof (cases res)
    case (Inl e)
    show thesis by (rule fail [of e pl']) (use Inl mr post in auto)
  next
    case (Inr u)
    show thesis by (rule mapped [of pl']) (use Inr mr post True in auto)
  qed
next
  case False
  show thesis by (rule fail [of Misaligned pl]) (use False assms in \<open>auto simp: map_range_def\<close>)
qed

lemma range_mapped_exact:
  assumes rm: "range_mapped p R r va pa len attrs off f f'"
    and page: "\<And>r va va'. page_no p va = page_no p va' \<Longrightarrow> f r va = f r va'"
    and "r' \<in> R" "e \<noteq> 0"
  shows "f' r' va' = e \<longleftrightarrow> f r' va' = e \<or>
     (r' = r \<and> (\<exists>k. page_offset p off len k \<and> page_no p va' = page_no p (va + of_nat k) \<and> e = (pa + of_nat k) OR attrs))"
proof (cases "r' = r \<and> (\<exists>k. page_offset p off len k \<and> page_no p va' = page_no p (va + of_nat k))")
  case True
  then obtain k where k: "r' = r" "page_offset p off len k" "page_no p va' = page_no p (va + of_nat k)"
    by blast
  have "f r va' = 0"
    using page [OF k(3)] k(2) rm by (simp add: range_mapped_def)
  moreover have "f' r va' = (pa + of_nat j) OR attrs"
    if "page_offset p off len j" "page_no p va' = page_no p (va + of_nat j)" for j
    using rm that by (auto simp: range_mapped_def)
  ultimately show ?thesis
    using k assms(4) by metis
next
  case False
  then have "f' r' va' = f r' va'"
    using rm assms(3) unfolding range_mapped_def by blast
  with False show ?thesis by auto
qed

lemma pool_mapped_exact:
  assumes "range_mapped p R r va pa len attrs off (pool_leaf p pl) (pool_leaf p pl')" "r' \<in> R" "e \<noteq> 0"
  shows "pool_leaf p pl' r' va' = e \<longleftrightarrow> pool_leaf p pl r' va' = e \<or>
     (r' = r \<and> (\<exists>k. page_offset p off len k \<and> page_no p va' = page_no p (va + of_nat k) \<and> e = (pa + of_nat k) OR attrs))"
  using assms(1) page_no_leaf assms(2,3) by (rule range_mapped_exact)

lemma map_both_correct:
  assumes inv: "pool_inv p pl {r0, r1}" "pool_secure p pl {r0, r1}" and ne: "r0 \<noteq> r1"
    and ex: "pool_exact p pl r0 r1 L"
    and len: "unat start < 281474976710656" "unat start + unat len \<le> 281474976710656"
  shows "\<exists>res pl'. map_both p r0 r1 start len pm pl = Inr (res, pl') \<and>
     (\<forall>u. res = Inr u \<longrightarrow> pool_inv p pl' {r0, r1} \<and> pool_secure p pl' {r0, r1} \<and>
        pl_addr pl' = pl_addr pl \<and> pool_exact p pl' r0 r1 (L @ [(start, len, pm)]))"
proof -
  have off: "add_pn start KERNEL_VA_OFFSET = Inr (start + KERNEL_VA_OFFSET)"
      "unat (start + KERNEL_VA_OFFSET) + unat len \<le> 18446744073709551616"
    using len by (auto intro!: add_pn_ok simp: KERNEL_VA_OFFSET_def unat_add_64)
  have l64: "unat start + unat len \<le> 18446744073709551616" using len(2) by simp
  have r0: "r0 \<in> {r0, r1}" and r1: "r1 \<in> {r0, r1}" by auto
  from inv(1) r0 inv(2) l64 l64 show ?thesis
  proof (cases rule: map_range_correct [where pm = pm])
    case (fail e pl')
    then show ?thesis by (auto simp: map_both_def)
  next
    case m0: (mapped pl1)
    from m0(2) r1 m0(4) off(2) l64 show ?thesis
    proof (cases rule: map_range_correct [where pm = pm])
      case (fail e pl')
      with m0(1) off(1) show ?thesis by (auto simp: map_both_def)
    next
      case m1: (mapped pl2)
      have "pool_exact p pl2 r0 r1 (L @ [(start, len, pm)])"
        unfolding pool_exact_def
      proof (intro ballI allI impI)
        fix r va e
        assume "r \<in> {r0, r1}" "(e :: u64) \<noteq> 0"
        note x = pool_mapped_exact [OF m1(5) this] pool_mapped_exact [OF m0(5) this]
        have "pool_leaf p pl r va = e \<longleftrightarrow> listed p r0 r1 L r va e"
          using ex \<open>r \<in> {r0, r1}\<close> \<open>e \<noteq> 0\<close> unfolding pool_exact_def by blast
        then show "pool_leaf p pl2 r va = e \<longleftrightarrow> listed p r0 r1 (L @ [(start, len, pm)]) r va e"
          unfolding x listed_def by (auto simp: add.assoc)
      qed
      with m0 m1 off(1) show ?thesis by (auto simp: map_both_def)
    qed
  qed
qed

definition seg_list :: "(u64 \<times> u64 \<times> perm) list \<Rightarrow> (u64 \<times> u64 \<times> perm) list" where
  "seg_list segs = map (\<lambda>(s, e, pm). (s, e - s, pm)) (filter (\<lambda>(s, e, pm). s \<noteq> e) segs)"

definition dev_list :: "range list \<Rightarrow> (u64 \<times> u64 \<times> perm) list" where
  "dev_list devs = map (\<lambda>d. (r_start d, r_end d - r_start d, Device)) (filter (\<lambda>d. r_start d < r_end d) devs)"

lemma range_fits:
  fixes s e :: u64
  assumes "s < e" "unat e \<le> 281474976710656"
  shows "unat s < 281474976710656" "unat s + unat (e - s) \<le> 281474976710656"
proof -
  have "unat (e - s) = unat e - unat s"
    using assms(1) by (intro unat_sub_64) (simp add: word_order_unat)
  then show "unat s < 281474976710656" "unat s + unat (e - s) \<le> 281474976710656"
    using assms by (simp_all add: word_order_unat)
qed

lemma map_segments_correct:
  assumes "pool_inv p pl {r0, r1}" "pool_secure p pl {r0, r1}" "r0 \<noteq> r1" "pool_exact p pl r0 r1 L"
    "\<forall>(s, e, pm) \<in> set segs. unat e \<le> 281474976710656"
  shows "\<exists>res pl'. map_segments p r0 r1 segs pl = Inr (res, pl') \<and>
     (\<forall>u. res = Inr u \<longrightarrow> pool_inv p pl' {r0, r1} \<and> pool_secure p pl' {r0, r1} \<and>
        pl_addr pl' = pl_addr pl \<and> pool_exact p pl' r0 r1 (L @ seg_list segs))"
  using assms
proof (induction segs arbitrary: pl L)
  case (Cons seg segs)
  obtain s e pm where seg: "seg = (s, e, pm)" by (cases seg)
  consider "e < s" | "e = s" | "s < e" by (meson less_linear)
  then show ?case
  proof cases
    case 3
    have e: "unat e \<le> 281474976710656" using Cons.prems(5) seg by simp
    have ne: "\<not> e < s" "e - s \<noteq> 0" using 3 by auto
    obtain res pl1 where run: "map_both p r0 r1 s (e - s) pm pl = Inr (res, pl1)"
        and ok: "\<And>u. res = Inr u \<Longrightarrow> pool_inv p pl1 {r0, r1} \<and> pool_secure p pl1 {r0, r1} \<and>
          pl_addr pl1 = pl_addr pl \<and> pool_exact p pl1 r0 r1 (L @ [(s, e - s, pm)])"
      using map_both_correct [OF Cons.prems(1-4) range_fits [OF 3 e]] by blast
    show ?thesis
    proof (cases res)
      case (Inl err)
      with run ne show ?thesis by (simp add: seg)
    next
      case (Inr u)
      then show ?thesis
        using Cons.IH [of pl1 "L @ [(s, e - s, pm)]"] ok [OF Inr] Cons.prems(3,5) run ne 3
        by (auto simp: seg seg_list_def)
    qed
  qed (use Cons.IH [of pl L] Cons.prems in \<open>auto simp: seg seg_list_def\<close>)
qed (simp add: seg_list_def)

lemma map_devices_correct:
  assumes "pool_inv p pl {r0, r1}" "pool_secure p pl {r0, r1}" "r0 \<noteq> r1" "pool_exact p pl r0 r1 L"
    "\<forall>d \<in> set devs. unat (r_end d) \<le> 281474976710656"
  shows "\<exists>res pl'. map_devices p r0 r1 devs pl = Inr (res, pl') \<and>
     (\<forall>u. res = Inr u \<longrightarrow> pool_inv p pl' {r0, r1} \<and> pool_secure p pl' {r0, r1} \<and>
        pl_addr pl' = pl_addr pl \<and> pool_exact p pl' r0 r1 (L @ dev_list devs))"
  using assms
proof (induction devs arbitrary: pl L)
  case (Cons d devs)
  show ?case
  proof (cases "r_start d < r_end d")
    case True
    have e: "unat (r_end d) \<le> 281474976710656" using Cons.prems(5) by simp
    have ne: "\<not> r_end d \<le> r_start d" using True by simp
    obtain res pl1 where run: "map_both p r0 r1 (r_start d) (r_end d - r_start d) Device pl = Inr (res, pl1)"
        and ok: "\<And>u. res = Inr u \<Longrightarrow> pool_inv p pl1 {r0, r1} \<and> pool_secure p pl1 {r0, r1} \<and>
          pl_addr pl1 = pl_addr pl \<and> pool_exact p pl1 r0 r1 (L @ [(r_start d, r_end d - r_start d, Device)])"
      using map_both_correct [OF Cons.prems(1-4) range_fits [OF True e]] by blast
    show ?thesis
    proof (cases res)
      case (Inl err)
      with run ne show ?thesis by simp
    next
      case (Inr u)
      then show ?thesis
        using Cons.IH [of pl1 "L @ [(r_start d, r_end d - r_start d, Device)]"] ok [OF Inr] Cons.prems(3,5) run ne True
        by (auto simp: dev_list_def)
    qed
  next
    case False
    with Cons.IH [of pl L] Cons.prems show ?thesis by (auto simp: dev_list_def)
  qed
qed (simp add: dev_list_def)

lemma round_up_ok:
  assumes "unat x \<le> 281474976710656"
  shows "\<exists>y. round_up_pn p x = Inr y \<and> unat y \<le> 281474976710656 \<and> x \<le> y \<and> aligned (GRANULE p) y"
proof -
  let ?g = "unat (GRANULE p)"
  define q where "q = x div GRANULE p + (if x mod GRANULE p = 0 then 0 else 1)"
  have g: "0 < ?g" "?g dvd 281474976710656"
    by (cases p; simp add: GRANULE_def)+
  have le: "unat x div ?g \<le> 281474976710656"
    using assms div_le_dividend le_trans by blast
  have one: "unat (x div GRANULE p + 1) = unat x div ?g + 1"
    using le by (subst unat_add_64) (simp_all add: unat_div)
  have uq: "unat q = unat x div ?g + (if ?g dvd unat x then 0 else 1)"
    by (auto simp: q_def unat_div one u64_eq_iff [of _ 0] unat_mod dvd_eq_mod_eq_0)
  have ge: "unat x \<le> unat q * ?g"
    using g(1) unfolding uq by (auto simp: algebra_simps) (metis add.commute less_imp_le_nat
        mod_less_divisor mult.commute nat_add_left_cancel_le mult_div_mod_eq)
  have up: "unat q * ?g \<le> 281474976710656"
  proof (cases "?g dvd unat x")
    case True
    then show ?thesis using assms by (simp add: uq)
  next
    case False
    then have "unat x \<noteq> 281474976710656" using g(2) by auto
    then have "unat x div ?g < 281474976710656 div ?g"
      using assms g(2) by (intro less_mult_imp_div_less) simp
    then have "(unat x div ?g + 1) * ?g \<le> 281474976710656 div ?g * ?g"
      by (intro mult_le_mono1) simp
    then show ?thesis using False g(2) by (simp add: uq)
  qed
  then have "round_up_pn p x = Inr (q * GRANULE p)" "unat (q * GRANULE p) = unat q * ?g"
    by (simp_all add: round_up_pn_def checked_mul_def unat_word_ariths flip: q_def)
  then show ?thesis
    using up ge by (auto simp: word_order_unat aligned_dvd)
qed

lemma pool_flags:
  fixes pl :: pool and b :: bool and n :: nat
  defines "pl' \<equiv> pl\<lparr>pl_enabled := b, pl_root1 := n\<rparr>"
  shows "pool_inv p pl' R = pool_inv p pl R" "pool_leaf p pl' r va = pool_leaf p pl r va"
    "pool_secure p pl' R = pool_secure p pl R" "pool_exact p pl' r0 r1 L = pool_exact p pl r0 r1 L"
proof -
  have g: "pool_get pl' = pool_get pl" and f: "pl_addr pl' = pl_addr pl" "pl_used pl' = pl_used pl"
    by (simp_all add: pl'_def pool_get_def fun_eq_iff)
  show "pool_inv p pl' R = pool_inv p pl R"
    unfolding pool_inv_def pool_links_def g f ..
  show leaf: "pool_leaf p pl' r va = pool_leaf p pl r va" for r va
    unfolding pool_leaf_def g f ..
  show "pool_secure p pl' R = pool_secure p pl R" "pool_exact p pl' r0 r1 L = pool_exact p pl r0 r1 L"
    unfolding pool_secure_def pool_exact_def leaf by (rule refl)+
qed

text \<open>The empty pool.\<close>

lemma pool_start:
  assumes "pool_placed p a"
    and "pl = (POOL a)\<lparr>pl_used := 2\<rparr>"
  shows "pool_inv p pl {0, 1}" "pool_secure p pl {0, 1}" "pool_exact p pl 0 1 []"
proof -
  have z: "pool_get pl t i = 0" for t i by (simp add: assms POOL_def pool_get_def)
  have w: "walk (pool_get pl) (pool_dest p (pl_addr pl)) r q = (if q = [] then Some r else None)" for r q
    by (cases q) (simp_all add: z pool_store.dest_zero)
  have l: "pool_leaf p pl r va = 0" for r va by (simp add: pool_leaf_def translate_def z split: option.split)
  have f: "pl_addr pl = a" "pl_used pl = 2" by (simp_all add: assms(2) POOL_def)
  show "pool_inv p pl {0, 1}"
    unfolding pool_inv_def pool_links_def reachable_def unshared_def w
    using assms(1) f z by (auto simp: POOL_LEN_def split: if_split_asm)
  show "pool_secure p pl {0, 1}" by (simp add: pool_secure_def l leaf_secure_def)
  show "pool_exact p pl 0 1 []" by (simp add: pool_exact_def l listed_def)
qed

definition layout_ok :: "kernel_layout \<Rightarrow> bool" where
  "layout_ok layout \<longleftrightarrow>
     (\<forall>r \<in> set ([kl_text layout, kl_rodata layout, kl_rw0 layout, kl_rw1 layout, kl_dtb layout] @ kl_devices layout).
        unat (r_end r) \<le> 281474976710656)"

lemma enable_paging_success:
  assumes placed: "pool_placed p a" and lay: "layout_ok layout"
  shows "\<exists>res. enable_paging p mmfr0 layout (POOL a) regs = Inr res \<and>
     (\<forall>pl' regs'. res = Inr (pl', regs') \<longrightarrow>
        pool_inv p pl' {0, 1} \<and> pool_secure p pl' {0, 1} \<and> pl_enabled pl' \<and> pl_root1 pl' = 1 \<and>
        (\<exists>dtb_end. round_up_pn p (r_end (kl_dtb layout)) = Inr dtb_end \<and>
           pool_exact p pl' 0 1
             (seg_list (layout_segments layout (r_start (kl_dtb layout) AND NOT (GRANULE p - 1)) dtb_end)
              @ dev_list (kl_devices layout))) \<and>
        (\<exists>ips \<le> 5. regs' = switch_on (pool_pa p pl' 0) (pool_pa p pl' 1) (tcr p ips) regs))"
proof (cases "check_features p mmfr0")
  case (Inl e)
  then show ?thesis by (simp add: enable_paging_def)
next
  case (Inr ips)
  then have ips: "ips \<le> 5" by (auto simp: check_features_def Let_def split: if_split_asm)
  let ?pl2 = "(POOL a)\<lparr>pl_used := 2\<rparr>"
  let ?base = "r_start (kl_dtb layout) AND NOT (GRANULE p - 1)"
  note st = pool_start [OF placed refl]
  have alloc: "pool_alloc (POOL a) = Inr (0, (POOL a)\<lparr>pl_used := 1\<rparr>)"
      "pool_alloc ((POOL a)\<lparr>pl_used := 1\<rparr>) = Inr (1, ?pl2)" "\<not> pl_enabled (POOL a)"
    by (simp_all add: pool_alloc_def POOL_def POOL_LEN_def numeral_2_eq_2)
  obtain dtb_end where de: "round_up_pn p (r_end (kl_dtb layout)) = Inr dtb_end" "unat dtb_end \<le> 281474976710656"
    using round_up_ok [of "r_end (kl_dtb layout)" p] lay by (auto simp: layout_ok_def)
  let ?segs = "layout_segments layout ?base dtb_end"
  have segs: "\<forall>(s, e, pm) \<in> set ?segs. unat e \<le> 281474976710656"
    using lay de(2) by (simp add: layout_segments_def layout_ok_def)
  obtain res pl3 where s: "map_segments p 0 1 ?segs ?pl2 = Inr (res, pl3)"
      and s': "\<And>u. res = Inr u \<Longrightarrow> pool_inv p pl3 {0, 1} \<and> pool_secure p pl3 {0, 1} \<and>
        pl_addr pl3 = pl_addr ?pl2 \<and> pool_exact p pl3 0 1 (seg_list ?segs)"
    using map_segments_correct [OF st(1,2) _ st(3) segs] by auto
  note run = Inr alloc [unfolded One_nat_def] de(1) s [unfolded One_nat_def]
  show ?thesis
  proof (cases res)
    case (Inl e)
    then show ?thesis by (simp add: enable_paging_def Let_def run)
  next
    case (Inr u)
    have devs: "\<forall>d \<in> set (kl_devices layout). unat (r_end d) \<le> 281474976710656"
      using lay by (simp add: layout_ok_def)
    obtain res' pl4 where d: "map_devices p 0 1 (kl_devices layout) pl3 = Inr (res', pl4)"
        and d': "\<And>u. res' = Inr u \<Longrightarrow> pool_inv p pl4 {0, 1} \<and> pool_secure p pl4 {0, 1} \<and>
          pl_addr pl4 = pl_addr pl3 \<and> pool_exact p pl4 0 1 (seg_list ?segs @ dev_list (kl_devices layout))"
      using map_devices_correct [OF _ _ _ _ devs, of p pl3 0 1 "seg_list ?segs"] s' [OF Inr] by auto
    show ?thesis
    proof (cases res')
      case (Inl e)
      with d [unfolded One_nat_def] \<open>res = Inr u\<close> show ?thesis by (simp add: enable_paging_def Let_def run)
    next
      case u': (Inr u')
      let ?pl5 = "pl4\<lparr>pl_enabled := True, pl_root1 := 1\<rparr>"
      have "enable_paging p mmfr0 layout (POOL a) regs =
          Inr (Inr (?pl5, switch_on (pool_pa p ?pl5 0) (pool_pa p ?pl5 1) (tcr p ips) regs))"
        using d [unfolded One_nat_def] u' \<open>res = Inr u\<close> by (simp add: enable_paging_def Let_def run pool_pa_def)
      moreover have "pool_inv p ?pl5 {0, 1}" "pool_secure p ?pl5 {0, 1}"
          "pool_exact p ?pl5 0 1 (seg_list ?segs @ dev_list (kl_devices layout))"
        using d' [OF u'] by (simp_all only: pool_flags)
      ultimately show ?thesis using ips de(1) by auto
    qed
  qed
qed

section \<open>Windows opened after the MMU is on\<close>

lemma pool_descend_frame:
  "pool_descend p va levels t pl links = Inr (res, pl', links') \<Longrightarrow>
     pl_enabled pl' = pl_enabled pl \<and> pl_root1 pl' = pl_root1 pl \<and> pl_addr pl' = pl_addr pl"
proof (induction p va levels t pl links rule: pool_descend.induct)
  case (2 p va level levels t pl links)
  have rd: "pool_read p pl t (index p va level) = Inr (pool_get pl t (index p va level))"
    using "2.prems" by (auto simp: pool_read_def Let_def split: if_split_asm)
  show ?case
  proof (cases "pool_get pl t (index p va level) = 0")
    case True
    show ?thesis
    proof (cases "pool_alloc pl")
      case (Inr a)
      then obtain c pl1 where al: "pool_alloc pl = Inr (c, pl1)" by (cases a) auto
      then have "pl_enabled pl1 = pl_enabled pl \<and> pl_root1 pl1 = pl_root1 pl \<and> pl_addr pl1 = pl_addr pl"
        by (auto simp: pool_alloc_def split: if_split_asm)
      then show ?thesis
        using "2.IH"(1) [OF refl rd True al refl] "2.prems" rd True al by (simp add: Let_def)
    qed (use "2.prems" rd True in \<open>simp add: Let_def\<close>)
  next
    case False
    show ?thesis
      using "2.IH"(2) [OF refl rd False] "2.prems" rd False
      by (auto simp: Let_def split: if_split_asm sum.split_asm)
  qed
qed simp

lemma pool_clear_frame:
  "pl_enabled (fold (\<lambda>(u, j) q. pool_put q u j 0) links pl) = pl_enabled pl \<and>
   pl_root1 (fold (\<lambda>(u, j) q. pool_put q u j 0) links pl) = pl_root1 pl"
proof (induction links arbitrary: pl)
  case (Cons x links)
  then show ?case by (cases x) simp
qed simp

lemma pool_undo_frame:
  "pl_enabled (pool_undo n links pl) = pl_enabled pl" "pl_root1 (pool_undo n links pl) = pl_root1 pl"
  using pool_clear_frame [of links pl] by (simp_all add: pool_undo_def)

lemma map_page_frame:
  assumes "map_page p r va pa attrs pl = Inr (res, pl')"
  shows "pl_enabled pl' = pl_enabled pl \<and> pl_root1 pl' = pl_root1 pl"
proof -
  obtain r' pl1 links where d: "pool_descend p va [0, 1, 2] r pl [] = Inr (r', pl1, links)"
    using assms by (cases "pool_descend p va [0, 1, 2] r pl []") (auto simp: map_page_def)
  show ?thesis
    using assms pool_descend_frame [OF d] unfolding map_page_def d
    by (cases r') (auto simp: Let_def and_then_Inr pool_undo_frame split: if_split_asm)
qed

lemma unat_offset: "unat b < 281474976710656 \<Longrightarrow> unat (b + KERNEL_VA_OFFSET) = unat b + 18446462598732840960"
  by (simp add: KERNEL_VA_OFFSET_def unat_add_64)

text \<open>
  Opening one granule, the use \<^verbatim>\<open>retype\<close> makes of it: either nothing changes, or exactly the alias of
  that granule becomes a kernel read-write page.
\<close>

lemma map_kernel_window_granule:
  assumes inv: "pool_inv p pl R" "pl_root1 pl \<in> R" "pool_secure p pl R" "pl_enabled pl"
    and b: "aligned (GRANULE p) b" "unat b + unat (GRANULE p) \<le> 281474976710656"
  obtains (fail) e where
      "map_kernel_window p \<lparr>r_start = b, r_end = b + GRANULE p\<rparr> pl = Inr (Inl e, pl)"
      "e = OutOfTables \<or> (e = Overlap \<and> pool_leaf p pl (pl_root1 pl) (b + KERNEL_VA_OFFSET) \<noteq> 0)"
    | (mapped) pl' where
      "map_kernel_window p \<lparr>r_start = b, r_end = b + GRANULE p\<rparr> pl = Inr (Inr (), pl')"
      "pool_inv p pl' R" "pool_secure p pl' R" "pl_enabled pl'" "pl_root1 pl' = pl_root1 pl" "pl_addr pl' = pl_addr pl"
      "pool_leaf p pl (pl_root1 pl) (b + KERNEL_VA_OFFSET) = 0"
      "\<And>r va. r \<in> R \<Longrightarrow> pool_leaf p pl' r va =
         (if r = pl_root1 pl \<and> page_no p va = page_no p (b + KERNEL_VA_OFFSET) then b OR perm_attrs Rw
          else pool_leaf p pl r va)"
proof -
  let ?g = "GRANULE p" and ?va = "b + KERNEL_VA_OFFSET"
  have lt: "unat b < 281474976710656" using b(2) GRANULE_bounds(1) [of p] by linarith
  have bg: "unat (b + ?g) = unat b + unat ?g" using b(2) by (intro unat_add_64) simp
  have win: "\<not> b + ?g \<le> b" "aligned ?g (b + ?g)"
    using bg GRANULE_bounds(1) [of p] b(1) by (simp_all add: word_order_unat aligned_dvd)
  have al: "aligned ?g ?va" "aligned ?g ?g"
    using b(1) by (cases p; simp add: aligned_dvd unat_offset [OF lt] GRANULE_def)+
  have opn: "add_pn b KERNEL_VA_OFFSET = Inr ?va"
    using lt by (intro add_pn_ok) (simp add: KERNEL_VA_OFFSET_def)
  have g0: "0 < ?g" "add_pn 0 ?g = Inr ?g" using GRANULE_bounds [of p] by (auto simp: word_order_unat add_pn_Inr)
  have run: "map_kernel_window p \<lparr>r_start = b, r_end = b + ?g\<rparr> pl =
      map_page p (pl_root1 pl) ?va b (perm_attrs Rw) pl"
  proof -
    have last: "map_range_loop p r ?va b ?g (perm_attrs Rw) ?g pl' = Inr (Inr (), pl')" for r pl'
      by (simp add: map_range_loop.simps)
    have first: "map_range_loop p r ?va b ?g (perm_attrs Rw) 0 pl = map_page p r ?va b (perm_attrs Rw) pl" for r
      using g0 by (cases "map_page p r ?va b (perm_attrs Rw) pl")
        (auto simp: map_range_loop.simps [of _ _ _ _ _ _ 0] add_pn_ok last split: sum.split)
    show ?thesis
      using win al b(1) inv(4) opn by (simp add: map_kernel_window_def map_range_def first)
  qed
  from inv(1,2) show thesis
  proof (cases rule: map_page_cases [where va = ?va and pa = b and attrs = "perm_attrs Rw"])
    case (fail e)
    with run that(1) show thesis by auto
  next
    case (mapped pl')
    have "pool_secure p pl' R"
      using inv(2,3) mapped(5) perm_leaf_secure [OF b(1), of Rw] by (simp add: pool_secure_def)
    moreover have "map_kernel_window p \<lparr>r_start = b, r_end = b + ?g\<rparr> pl = Inr (Inr (), pl')"
      using mapped(1) run by simp
    ultimately show thesis
      using mapped(2-5) map_page_frame [OF mapped(1)] inv(4) by (intro that(2) [of pl']) auto
  qed
qed

section \<open>Properties\<close>

text \<open>
  C9. Mapping a page is a transaction. On a pool whose tables form a forest, \<^verbatim>\<open>map_page\<close> never panics;
  it fails only for lack of tables or because the page is already mapped, and then the pool is
  exactly what it was; or it succeeds on a free page, and then the translation of that page under
  that root is the requested descriptor and every other translation under every root is unchanged.
\<close>

theorem map_page_transactional:
  assumes "pool_inv p pl R" "r \<in> R"
  shows "\<exists>res pl'. map_page p r va pa attrs pl = Inr (res, pl') \<and> pool_inv p pl' R \<and>
    (case res of
       Inl e \<Rightarrow> pl' = pl \<and> (e = OutOfTables \<or> e = Overlap \<and> pool_leaf p pl r va \<noteq> 0)
     | Inr _ \<Rightarrow> pool_leaf p pl r va = 0 \<and>
         (\<forall>r' \<in> R. \<forall>va'. pool_leaf p pl' r' va' =
            (if r' = r \<and> page_no p va' = page_no p va then pa OR attrs else pool_leaf p pl r' va')))"
  using assms
proof (cases rule: map_page_cases [where va = va and pa = pa and attrs = attrs])
  case (fail e)
  with assms(1) show ?thesis by auto
next
  case (mapped pl')
  then show ?thesis by auto
qed

theorem map_page_transactional_witness:
  "\<exists>res pl'. map_page Virt 1 0xFFFF000040000000 0x40000000 (perm_attrs Text) ((POOL 0x40200000)\<lparr>pl_used := 2\<rparr>)
       = Inr (res, pl') \<and> pool_inv Virt pl' {0, 1}"
proof -
  have "pool_placed Virt 0x40200000"
    by (simp add: pool_placed_def PAGE_SHIFT_def GRANULE_def POOL_LEN_def dvd_eq_mod_eq_0)
  from map_page_transactional [OF pool_start(1) [OF this refl], of 1] show ?thesis by blast
qed

text \<open>
  C10. The initial address spaces are exact and W^X. For a layout below 2^48, \<^verbatim>\<open>enable_paging\<close> does not
  panic; when it succeeds, the identity map and the higher-half map contain exactly the pages of the
  image segments, the DTB and the device windows, each with the descriptor of its permission; no
  mapped page is both writable and executable or open to EL0; and the MMU and WXN bits are set.
\<close>

theorem enable_paging_secure:
  assumes "pool_placed p a" "layout_ok layout"
  shows "\<exists>res. enable_paging p mmfr0 layout (POOL a) regs = Inr res \<and>
     (\<forall>pl' regs'. res = Inr (pl', regs') \<longrightarrow>
        pool_secure p pl' {0, 1} \<and>
        (\<exists>dtb_end. round_up_pn p (r_end (kl_dtb layout)) = Inr dtb_end \<and>
           pool_exact p pl' 0 1
             (seg_list (layout_segments layout (r_start (kl_dtb layout) AND NOT (GRANULE p - 1)) dtb_end)
              @ dev_list (kl_devices layout))) \<and>
        ttbr0_el1 regs' = pool_pa p pl' 0 \<and> ttbr1_el1 regs' = pool_pa p pl' 1 \<and>
        bit (sctlr_el1 regs') 0 \<and> bit (sctlr_el1 regs') 19)"
proof -
  obtain res where run: "enable_paging p mmfr0 layout (POOL a) regs = Inr res"
      and post: "\<And>pl' regs'. res = Inr (pl', regs') \<Longrightarrow> pool_secure p pl' {0, 1} \<and>
        (\<exists>dtb_end. round_up_pn p (r_end (kl_dtb layout)) = Inr dtb_end \<and>
           pool_exact p pl' 0 1
             (seg_list (layout_segments layout (r_start (kl_dtb layout) AND NOT (GRANULE p - 1)) dtb_end)
              @ dev_list (kl_devices layout))) \<and>
        (\<exists>ips \<le> 5. regs' = switch_on (pool_pa p pl' 0) (pool_pa p pl' 1) (tcr p ips) regs)"
    using enable_paging_success [OF assms, of mmfr0 regs] by blast
  have "bit (sctlr_el1 (switch_on t0 t1 t regs)) 0 \<and> bit (sctlr_el1 (switch_on t0 t1 t regs)) 19 \<and>
      ttbr0_el1 (switch_on t0 t1 t regs) = t0 \<and> ttbr1_el1 (switch_on t0 t1 t regs) = t1" for t0 t1 t
    by (simp add: switch_on_def SCTLR_M_def SCTLR_WXN_def bit_simps)
  with run post show ?thesis by blast
qed

definition demo_layout :: kernel_layout where
  "demo_layout =
     \<lparr>kl_text = \<lparr>r_start = 0x40080000, r_end = 0x40090000\<rparr>, kl_rodata = \<lparr>r_start = 0x40090000, r_end = 0x400A0000\<rparr>,
      kl_rw0 = \<lparr>r_start = 0x400A0000, r_end = 0x400B0000\<rparr>, kl_rw1 = \<lparr>r_start = 0x400B4000, r_end = 0x400C0000\<rparr>,
      kl_dtb = \<lparr>r_start = 0x48000000, r_end = 0x48002000\<rparr>,
      kl_devices = [\<lparr>r_start = 0x9000000, r_end = 0x9004000\<rparr>]\<rparr>"

theorem enable_paging_secure_witness:
  "\<exists>res. enable_paging Virt 0x1125 demo_layout (POOL 0x40200000)
      \<lparr>mair_el1 = 0, tcr_el1 = 0, ttbr0_el1 = 0, ttbr1_el1 = 0, sctlr_el1 = 0\<rparr> = Inr res \<and>
     (\<forall>pl' regs'. res = Inr (pl', regs') \<longrightarrow> pool_secure Virt pl' {0, 1})"
proof -
  have "pool_placed Virt 0x40200000"
    by (simp add: pool_placed_def PAGE_SHIFT_def GRANULE_def POOL_LEN_def dvd_eq_mod_eq_0)
  moreover have "layout_ok demo_layout"
    by (simp add: layout_ok_def demo_layout_def)
  ultimately show ?thesis
    using enable_paging_secure [of Virt "0x40200000" demo_layout "0x1125"] by blast
qed

end
