(* ===== verification/UserSpace.thy ===== *)
theory UserSpace
  imports Paging
begin

text \<open>
  User address spaces (\<^verbatim>\<open>crates/k0-mm/src/user.rs\<close>): the bump allocator of the boot window, the
  builder of the root task's TTBR0 tables, and the two run-time walkers behind the MAP system call.
  User tables live in physical frames that the kernel reads and writes through the TTBR1 alias, so
  memory is a map from kernel virtual addresses of 8-byte words to their contents.
\<close>

type_synonym memory = "u64 \<Rightarrow> u64"

section \<open>Permissions\<close>

datatype user_perm = TextUser | RoUser | RwUser

definition user_attrs :: "user_perm \<Rightarrow> u64" where
  "user_attrs pm =
     (case pm of
        TextUser \<Rightarrow> DESC_PAGE OR ATTR_AF OR SH_INNER OR AP_RO_ALL OR IDX_NORMAL OR PXN
      | RoUser \<Rightarrow> DESC_PAGE OR ATTR_AF OR SH_INNER OR AP_RO_ALL OR IDX_NORMAL OR UXN OR PXN
      | RwUser \<Rightarrow> DESC_PAGE OR ATTR_AF OR SH_INNER OR AP_RW_ALL OR IDX_NORMAL OR UXN OR PXN)"

section \<open>The boot frame allocator\<close>

record frame_alloc =
  fa_start :: u64
  fa_next :: u64
  fa_end :: u64

definition frame_alloc_new :: "platform \<Rightarrow> range \<Rightarrow> mmu_error + frame_alloc" where
  "frame_alloc_new p window =
     (if \<not> aligned (GRANULE p) (r_start window) \<or> \<not> aligned (GRANULE p) (r_end window)
         \<or> r_end window \<le> r_start window
      then Inl Misaligned
      else Inr \<lparr>fa_start = r_start window, fa_next = r_start window, fa_end = r_end window\<rparr>)"

text \<open>\<^verbatim>\<open>write_bytes(va, 0, len)\<close>\<close>

definition zero_bytes :: "u64 \<Rightarrow> u64 \<Rightarrow> memory \<Rightarrow> memory" where
  "zero_bytes va len mem = (\<lambda>a. if unat va \<le> unat a \<and> unat a < unat va + unat len then 0 else mem a)"

definition alloc_contig ::
  "platform \<Rightarrow> u64 \<Rightarrow> frame_alloc \<Rightarrow> memory \<Rightarrow> halt + ((mmu_error + u64) \<times> frame_alloc \<times> memory)" where
  "alloc_contig p n fa mem =
     (case checked_mul n (GRANULE p) of
        None \<Rightarrow> Inr (Inl OutOfFrames, fa, mem)
      | Some len \<Rightarrow>
          if len = 0 then Inr (Inl OutOfFrames, fa, mem)
          else (let base = fa_next fa
            in case checked_add base len of
                 None \<Rightarrow> Inr (Inl OutOfFrames, fa, mem)
               | Some end \<Rightarrow>
                   if fa_end fa < end then Inr (Inl OutOfFrames, fa, mem)
                   else and_then (add_pn base KERNEL_VA_OFFSET) (\<lambda>va.
                     Inr (Inr base, fa\<lparr>fa_next := end\<rparr>, zero_bytes va len mem))))"

definition frame_alloc_alloc ::
  "platform \<Rightarrow> frame_alloc \<Rightarrow> memory \<Rightarrow> halt + ((mmu_error + u64) \<times> frame_alloc \<times> memory)" where
  "frame_alloc_alloc p fa mem = alloc_contig p 1 fa mem"

definition frame_alloc_used :: "frame_alloc \<Rightarrow> range" where
  "frame_alloc_used fa = \<lparr>r_start = fa_start fa, r_end = fa_next fa\<rparr>"

section \<open>The address space builder\<close>

definition entry_ptr :: "u64 \<Rightarrow> nat \<Rightarrow> halt + u64" where
  "entry_ptr table_pa idx =
     and_then (add_pn table_pa KERNEL_VA_OFFSET) (\<lambda>va. add_pn va (of_nat idx * 8))"

definition user_space_new ::
  "platform \<Rightarrow> frame_alloc \<Rightarrow> memory \<Rightarrow> halt + ((mmu_error + u64) \<times> frame_alloc \<times> memory)" where
  "user_space_new p fa mem = frame_alloc_alloc p fa mem"

fun us_descend ::
  "platform \<Rightarrow> u64 \<Rightarrow> nat list \<Rightarrow> u64 \<Rightarrow> frame_alloc \<Rightarrow> memory
     \<Rightarrow> halt + ((mmu_error + u64) \<times> frame_alloc \<times> memory)" where
  "us_descend p va [] t fa mem = Inr (Inr t, fa, mem)"
| "us_descend p va (level # levels) t fa mem =
     and_then (entry_ptr t (index p va level)) (\<lambda>ptr.
       let entry = mem ptr
       in if entry = 0 then
            and_then (frame_alloc_alloc p fa mem) (\<lambda>(r, fa1, mem1).
              case r of
                Inl e \<Rightarrow> Inr (Inl e, fa1, mem1)
              | Inr child \<Rightarrow> us_descend p va levels child fa1 (mem1(ptr := child OR DESC_TABLE)))
          else if entry AND 3 = DESC_TABLE then us_descend p va levels (entry AND ADDR_MASK p) fa mem
          else Inr (Inl BadTable, fa, mem))"

definition us_map_page ::
  "platform \<Rightarrow> u64 \<Rightarrow> u64 \<Rightarrow> u64 \<Rightarrow> u64 \<Rightarrow> frame_alloc \<Rightarrow> memory
     \<Rightarrow> halt + ((mmu_error + unit) \<times> frame_alloc \<times> memory)" where
  "us_map_page p root va pa attrs fa mem =
     and_then (us_descend p va [0, 1, 2] root fa mem) (\<lambda>(r, fa1, mem1).
       case r of
         Inl e \<Rightarrow> Inr (Inl e, fa1, mem1)
       | Inr t \<Rightarrow>
           and_then (entry_ptr t (index p va 3)) (\<lambda>ptr.
             if mem1 ptr \<noteq> 0 then Inr (Inl Overlap, fa1, mem1)
             else Inr (Inr (), fa1, mem1(ptr := pa OR attrs))))"

function us_map_range_loop ::
  "platform \<Rightarrow> u64 \<Rightarrow> u64 \<Rightarrow> u64 \<Rightarrow> u64 \<Rightarrow> u64 \<Rightarrow> u64 \<Rightarrow> frame_alloc \<Rightarrow> memory
     \<Rightarrow> halt + ((mmu_error + unit) \<times> frame_alloc \<times> memory)" where
  "us_map_range_loop p root va pa len attrs off fa mem =
     (if off < len then
        and_then (add_pn va off) (\<lambda>v. and_then (add_pn pa off) (\<lambda>a.
          and_then (us_map_page p root v a attrs fa mem) (\<lambda>(r, fa1, mem1).
            case r of
              Inl e \<Rightarrow> Inr (Inl e, fa1, mem1)
            | Inr _ \<Rightarrow> and_then (add_pn off (GRANULE p)) (\<lambda>off'.
                us_map_range_loop p root va pa len attrs off' fa1 mem1))))
      else Inr (Inr (), fa, mem))"
  by pat_completeness auto
termination
  using GRANULE_bounds(1)
  by (relation "measure (\<lambda>(p, root, va, pa, len, attrs, off, fa, mem). unat len - unat off)")
    (auto simp: add_pn_Inr unat_add_64 word_order_unat intro!: diff_less_mono2)

declare us_map_range_loop.simps [simp del]

definition us_map_range ::
  "platform \<Rightarrow> u64 \<Rightarrow> u64 \<Rightarrow> u64 \<Rightarrow> u64 \<Rightarrow> user_perm \<Rightarrow> frame_alloc \<Rightarrow> memory
     \<Rightarrow> halt + ((mmu_error + unit) \<times> frame_alloc \<times> memory)" where
  "us_map_range p root va pa len pm fa mem =
     (if \<not> aligned (GRANULE p) va \<or> \<not> aligned (GRANULE p) pa \<or> \<not> aligned (GRANULE p) len \<or> len = 0
      then Inr (Inl Misaligned, fa, mem)
      else if va < GRANULE p then Inr (Inl NullPage, fa, mem)
      else case checked_add va len of
        None \<Rightarrow> Inr (Inl Misaligned, fa, mem)
      | Some end \<Rightarrow>
          if push_bit 48 1 < end then Inr (Inl Misaligned, fa, mem)
          else us_map_range_loop p root va pa len (user_attrs pm) 0 fa mem)"

section \<open>Installing an address space\<close>

definition install_user_ttbr0 :: "u64 \<Rightarrow> mmu_regs \<Rightarrow> mmu_regs" where
  "install_user_ttbr0 root_pa regs = regs\<lparr>ttbr0_el1 := root_pa\<rparr>"

definition current_user_root :: "mmu_regs \<Rightarrow> u64" where
  "current_user_root regs = ttbr0_el1 regs AND 0x0000FFFFFFFFFFFE"

section \<open>The run-time walkers\<close>

fun user_walk :: "platform \<Rightarrow> u64 \<Rightarrow> nat list \<Rightarrow> u64 \<Rightarrow> memory \<Rightarrow> halt + (mmu_error + u64)" where
  "user_walk p va [] t mem = Inr (Inr t)"
| "user_walk p va (level # levels) t mem =
     and_then (entry_ptr t (index p va level)) (\<lambda>ptr.
       let entry = mem ptr
       in if entry = 0 then Inr (Inl MissingTable)
          else if entry AND 3 = DESC_TABLE then user_walk p va levels (entry AND ADDR_MASK p) mem
          else Inr (Inl BadTable))"

definition user_map_frame ::
  "platform \<Rightarrow> u64 \<Rightarrow> u64 \<Rightarrow> u64 \<Rightarrow> user_perm \<Rightarrow> memory \<Rightarrow> halt + ((mmu_error + unit) \<times> memory)" where
  "user_map_frame p root_pa va pa pm mem =
     (if \<not> aligned (GRANULE p) va \<or> \<not> aligned (GRANULE p) pa then Inr (Inl Misaligned, mem)
      else if va < GRANULE p then Inr (Inl NullPage, mem)
      else case checked_add va (GRANULE p) of
        None \<Rightarrow> Inr (Inl Misaligned, mem)
      | Some end \<Rightarrow>
          if push_bit 48 1 < end then Inr (Inl Misaligned, mem)
          else and_then (user_walk p va [0, 1, 2] root_pa mem) (\<lambda>r.
            case r of
              Inl e \<Rightarrow> Inr (Inl e, mem)
            | Inr t \<Rightarrow>
                and_then (entry_ptr t (index p va 3)) (\<lambda>ptr.
                  if mem ptr \<noteq> 0 then Inr (Inl Overlap, mem)
                  else Inr (Inr (), mem(ptr := pa OR user_attrs pm)))))"

fun install_walk ::
  "platform \<Rightarrow> u64 \<Rightarrow> u64 \<Rightarrow> nat list \<Rightarrow> u64 \<Rightarrow> memory \<Rightarrow> halt + ((mmu_error + nat) \<times> memory)" where
  "install_walk p va table_pa [] t mem = Inr (Inl Overlap, mem)"
| "install_walk p va table_pa (level # levels) t mem =
     and_then (entry_ptr t (index p va level)) (\<lambda>ptr.
       let entry = mem ptr
       in if entry = 0 then Inr (Inr level, mem(ptr := table_pa OR DESC_TABLE))
          else if entry AND 3 = DESC_TABLE then install_walk p va table_pa levels (entry AND ADDR_MASK p) mem
          else Inr (Inl BadTable, mem))"

definition user_install_table ::
  "platform \<Rightarrow> u64 \<Rightarrow> u64 \<Rightarrow> u64 \<Rightarrow> memory \<Rightarrow> halt + ((mmu_error + nat) \<times> memory)" where
  "user_install_table p root_pa va table_pa mem =
     (if \<not> aligned (GRANULE p) table_pa \<or> push_bit 48 1 \<le> va then Inr (Inl Misaligned, mem)
      else install_walk p va table_pa [0, 1, 2] root_pa mem)"

section \<open>User tables as a table store\<close>

text \<open>Where a table can be: a granule-aligned frame below 2^48.\<close>

definition utbl_ok :: "platform \<Rightarrow> u64 \<Rightarrow> bool" where
  "utbl_ok p t \<longleftrightarrow> aligned (GRANULE p) t \<and> unat t < 281474976710656"

definition utbl_slot :: "u64 \<Rightarrow> nat \<Rightarrow> u64" where
  "utbl_slot t i = t + KERNEL_VA_OFFSET + of_nat i * 8"

definition utbl_get :: "memory \<Rightarrow> u64 \<Rightarrow> nat \<Rightarrow> u64" where
  "utbl_get mem t i = mem (utbl_slot t i)"

definition utbl_put :: "memory \<Rightarrow> u64 \<Rightarrow> nat \<Rightarrow> u64 \<Rightarrow> memory" where
  "utbl_put mem t i v = mem(utbl_slot t i := v)"

definition utbl_dest :: "platform \<Rightarrow> u64 \<Rightarrow> u64 option" where
  "utbl_dest p e = (if e AND 3 = DESC_TABLE then Some (e AND ADDR_MASK p) else None)"

lemma utbl_room: "utbl_ok p t \<Longrightarrow> unat t + unat (GRANULE p) \<le> 281474976710656"
proof -
  assume t: "utbl_ok p t"
  have "unat (GRANULE p) dvd 281474976710656 - unat t"
    using t by (cases p) (auto simp: utbl_ok_def aligned_dvd GRANULE_def intro!: dvd_diff_nat)
  then have "unat (GRANULE p) \<le> 281474976710656 - unat t"
    using t by (intro dvd_imp_le) (simp_all add: utbl_ok_def)
  then show ?thesis using t unfolding utbl_ok_def by linarith
qed

lemma unat_of_nat_small: "n < 18446744073709551616 \<Longrightarrow> unat (of_nat n :: u64) = n"
  by (simp add: unat_of_nat)

lemma ENTRIES_le: "ENTRIES p \<le> 2048"
  by (cases p) (simp_all add: ENTRIES_def GRANULE_def)

lemma ENTRIES_8: "ENTRIES p * 8 = unat (GRANULE p)"
  by (cases p) (simp_all add: ENTRIES_def GRANULE_def)

lemma unat_index_8: "i < ENTRIES p \<Longrightarrow> unat (of_nat i * 8 :: u64) = i * 8"
proof -
  assume "i < ENTRIES p"
  then have "i < 2048" using ENTRIES_le [of p] by linarith
  then show ?thesis by (simp add: unat_word_ariths unat_of_nat)
qed

lemma unat_utbl_slot:
  assumes "utbl_ok p t" "i < ENTRIES p"
  shows "unat (utbl_slot t i) = unat t + 18446462598732840960 + i * 8"
    "entry_ptr t i = Inr (utbl_slot t i)"
proof -
  have t: "unat t < 281474976710656" using assms(1) by (simp add: utbl_ok_def)
  have o: "unat (t + KERNEL_VA_OFFSET) = unat t + 18446462598732840960"
    using unat_offset [OF t] .
  have "i * 8 < unat (GRANULE p)" using assms(2) ENTRIES_8 [of p] by linarith
  then have b: "unat t + 18446462598732840960 + i * 8 < 18446744073709551616"
    using utbl_room [OF assms(1)] by linarith
  show "unat (utbl_slot t i) = unat t + 18446462598732840960 + i * 8"
    unfolding utbl_slot_def by (subst unat_add_64) (use b o unat_index_8 [OF assms(2)] in simp_all)
  have "add_pn t KERNEL_VA_OFFSET = Inr (t + KERNEL_VA_OFFSET)"
    using t by (intro add_pn_ok) (simp add: KERNEL_VA_OFFSET_def)
  moreover have "add_pn (t + KERNEL_VA_OFFSET) (of_nat i * 8) = Inr (utbl_slot t i)"
    unfolding utbl_slot_def by (rule add_pn_ok) (use b o unat_index_8 [OF assms(2)] in simp)
  ultimately show "entry_ptr t i = Inr (utbl_slot t i)"
    by (simp add: entry_ptr_def)
qed

text \<open>Entries of different tables, and different entries of a table, are different words.\<close>

lemma utbl_slot_inj:
  assumes "utbl_ok p t" "utbl_ok p u" "i < ENTRIES p" "j < ENTRIES p" "utbl_slot t i = utbl_slot u j"
  shows "t = u \<and> i = j"
proof -
  let ?g = "unat (GRANULE p)"
  have eq: "unat t + i * 8 = unat u + j * 8"
    using assms(5) unat_utbl_slot(1) [OF assms(1,3)] unat_utbl_slot(1) [OF assms(2,4)] by simp
  have "i * 8 < ?g" "j * 8 < ?g" using assms(3,4) ENTRIES_8 [of p] by linarith+
  then have "(unat t + i * 8) div ?g = unat t div ?g" "(unat u + j * 8) div ?g = unat u div ?g"
    using assms(1,2) by (simp_all add: utbl_ok_def aligned_dvd div_plus_div_distrib_dvd_left)
  then have "unat t div ?g * ?g = unat u div ?g * ?g" using eq by simp
  then have "unat t = unat u"
    using assms(1,2) by (metis utbl_ok_def aligned_dvd dvd_div_mult_self)
  with eq show ?thesis by (simp add: u64_eq_iff)
qed

lemma utbl_dest_ok: "utbl_dest p e = Some t \<Longrightarrow> utbl_ok p t"
proof -
  assume "utbl_dest p e = Some t"
  then have t: "t = align_down (PAGE_SHIFT p) (take_bit 48 e)"
    by (simp add: utbl_dest_def ADDR_MASK_alt split: if_split_asm)
  have "unat (take_bit 48 e) < 281474976710656" by (simp add: unat_take_bit_64)
  then show ?thesis
    using align_down_le [of "PAGE_SHIFT p" "take_bit 48 e"] by (simp add: utbl_ok_def t)
qed

interpretation user_store: table_store utbl_get utbl_put "utbl_dest p" "utbl_ok p" "ENTRIES p" for p
proof unfold_locales
  show "utbl_dest p 0 = None" by (simp add: utbl_dest_def DESC_TABLE_def)
qed (auto simp: utbl_get_def utbl_put_def dest: utbl_slot_inj intro: utbl_dest_ok)

text \<open>The leaf descriptor of a user address.\<close>

definition user_leaf :: "platform \<Rightarrow> memory \<Rightarrow> u64 \<Rightarrow> u64 \<Rightarrow> u64" where
  "user_leaf p mem root va = translate (utbl_get mem) (utbl_dest p) root (va_path p va) (index p va 3)"

text \<open>
  The address spaces rooted at \<open>R\<close>: a forest of tables in frames below 2^48, whose inner entries are
  free or table descriptors.
\<close>

definition spaces_ok :: "platform \<Rightarrow> memory \<Rightarrow> u64 set \<Rightarrow> bool" where
  "spaces_ok p mem R \<longleftrightarrow>
     (\<forall>r \<in> R. utbl_ok p r) \<and> unshared (utbl_get mem) (utbl_dest p) (ENTRIES p) 3 R \<and>
     inner_ok (utbl_get mem) (utbl_dest p) (ENTRIES p) 3 R"

definition tables_of :: "platform \<Rightarrow> memory \<Rightarrow> u64 set \<Rightarrow> u64 set" where
  "tables_of p mem R = reachable (utbl_get mem) (utbl_dest p) (ENTRIES p) 3 R"

lemma tables_of_ok: "spaces_ok p mem R \<Longrightarrow> t \<in> tables_of p mem R \<Longrightarrow> utbl_ok p t"
  by (auto simp: spaces_ok_def tables_of_def reachable_def intro: user_store.walk_ok)

section \<open>The frame walker\<close>

lemma user_walk_result:
  assumes "utbl_ok p t"
  obtains (missing) e where "user_walk p va levels t mem = Inr (Inl e)" "e = MissingTable \<or> e = BadTable"
      "walk (utbl_get mem) (utbl_dest p) t (map (index p va) levels) = None"
    | (found) t' where "user_walk p va levels t mem = Inr (Inr t')" "utbl_ok p t'"
      "walk (utbl_get mem) (utbl_dest p) t (map (index p va) levels) = Some t'"
  using assms
proof (induction levels arbitrary: t thesis)
  case (Cons l levels)
  let ?i = "index p va l"
  note ptr = unat_utbl_slot(2) [OF Cons.prems(3) index_lt]
  define entry where "entry = mem (utbl_slot t ?i)"
  have get: "utbl_get mem t ?i = entry" by (simp add: utbl_get_def entry_def)
  consider "entry = 0" | "entry \<noteq> 0" "entry AND 3 \<noteq> DESC_TABLE" | "entry \<noteq> 0" "entry AND 3 = DESC_TABLE"
    by blast
  then show ?case
  proof cases
    case 1
    then show ?thesis
      using Cons.prems(1) [of MissingTable] by (simp add: ptr entry_def [symmetric] get user_store.dest_zero)
  next
    case 2
    then show ?thesis
      using Cons.prems(1) [of BadTable] by (simp add: ptr entry_def [symmetric] get utbl_dest_def)
  next
    case 3
    then have d: "utbl_dest p entry = Some (entry AND ADDR_MASK p)" by (simp add: utbl_dest_def)
    have run: "user_walk p va (l # levels) t mem = user_walk p va levels (entry AND ADDR_MASK p) mem"
      using 3 by (simp add: ptr entry_def [symmetric])
    show ?thesis
    proof (rule Cons.IH [OF _ _ utbl_dest_ok [OF d]])
      fix e
      assume "user_walk p va levels (entry AND ADDR_MASK p) mem = Inr (Inl e)" "e = MissingTable \<or> e = BadTable"
        "walk (utbl_get mem) (utbl_dest p) (entry AND ADDR_MASK p) (map (index p va) levels) = None"
      then show thesis using Cons.prems(1) [of e] run d get by simp
    next
      fix t'
      assume "user_walk p va levels (entry AND ADDR_MASK p) mem = Inr (Inr t')" "utbl_ok p t'"
        "walk (utbl_get mem) (utbl_dest p) (entry AND ADDR_MASK p) (map (index p va) levels) = Some t'"
      then show thesis using Cons.prems(2) [of t'] run d get by simp
    qed
  qed
qed simp

text \<open>In a well-formed forest the walker never meets a corrupt entry.\<close>

lemma user_walk_not_bad:
  assumes sp: "spaces_ok p mem R" and r: "r \<in> R"
    and "path_ok (ENTRIES p) 3 q" "length q + length levels = 3" "walk (utbl_get mem) (utbl_dest p) r q = Some t"
  shows "user_walk p va levels t mem \<noteq> Inr (Inl BadTable)"
  using assms(3-5)
proof (induction levels arbitrary: q t)
  case (Cons l levels)
  let ?i = "index p va l"
  have ok: "utbl_ok p t"
    using sp r Cons.prems(3) by (auto simp: spaces_ok_def intro: user_store.walk_ok)
  note ptr = unat_utbl_slot(2) [OF ok index_lt [of p va l]]
  have q: "length q < 3" "path_ok (ENTRIES p) 3 (q @ [?i])" "length (q @ [?i]) + length levels = 3"
    using Cons.prems(1,2) index_lt by (auto simp: path_ok_def)
  show ?case
  proof (cases "utbl_get mem t ?i = 0")
    case True
    then show ?thesis by (simp add: ptr utbl_get_def)
  next
    case False
    have "utbl_dest p (utbl_get mem t ?i) \<noteq> None"
      using inner_okD [OF _ r Cons.prems(1) q(1) Cons.prems(3) index_lt False] sp by (simp add: spaces_ok_def)
    then have d: "utbl_get mem t ?i AND 3 = DESC_TABLE" "utbl_dest p (utbl_get mem t ?i) = Some (utbl_get mem t ?i AND ADDR_MASK p)"
      by (auto simp: utbl_dest_def split: if_splits)
    have "walk (utbl_get mem) (utbl_dest p) r (q @ [?i]) = Some (utbl_get mem t ?i AND ADDR_MASK p)"
      using Cons.prems(3) d(2) by (simp add: walk_snoc)
    from Cons.IH [OF q(2,3) this] False d(1) show ?thesis
      by (simp add: ptr utbl_get_def)
  qed
qed simp

text \<open>Every outcome of mapping a frame; an error never writes.\<close>

lemma user_map_frame_cases:
  assumes sp: "spaces_ok p mem R" and r: "root \<in> R"
  obtains (fail) e where "user_map_frame p root va pa pm mem = Inr (Inl e, mem)" "e \<noteq> BadTable"
    | (mapped) mem' where "user_map_frame p root va pa pm mem = Inr (Inr (), mem')"
      "aligned (GRANULE p) va" "aligned (GRANULE p) pa" "GRANULE p \<le> va"
      "unat va + unat (GRANULE p) \<le> 281474976710656"
      "spaces_ok p mem' R" "tables_of p mem' R = tables_of p mem R" "user_leaf p mem root va = 0"
      "\<And>r' va'. r' \<in> R \<Longrightarrow> user_leaf p mem' r' va' =
         (if r' = root \<and> page_no p va' = page_no p va then pa OR user_attrs pm else user_leaf p mem r' va')"
      "\<exists>t \<in> tables_of p mem R. \<exists>i < ENTRIES p. mem' = utbl_put mem t i (pa OR user_attrs pm)"
proof (cases "aligned (GRANULE p) va \<and> aligned (GRANULE p) pa \<and> GRANULE p \<le> va \<and>
    unat va + unat (GRANULE p) \<le> 281474976710656")
  case False
  then have "user_map_frame p root va pa pm mem = Inr (Inl Misaligned, mem) \<or>
      user_map_frame p root va pa pm mem = Inr (Inl NullPage, mem)"
    by (auto simp: user_map_frame_def checked_add_def word_order_unat unat_add_64 not_le)
  then show thesis using that(1) by blast
next
  case True
  have rt: "utbl_ok p root" using sp r by (simp add: spaces_ok_def)
  have "unat (va + GRANULE p) \<le> 281474976710656" "unat va + unat (GRANULE p) < 18446744073709551616"
    using True by (auto simp: unat_add_64)
  then have pre: "checked_add va (GRANULE p) = Some (va + GRANULE p)" "\<not> push_bit 48 1 < va + GRANULE p"
      "\<not> va < GRANULE p"
    using True by (auto simp: checked_add_def word_order_unat)
  let ?w = "user_walk p va [0, 1, 2] root mem"
  have run: "user_map_frame p root va pa pm mem = and_then ?w (\<lambda>r.
      case r of Inl e \<Rightarrow> Inr (Inl e, mem) | Inr t \<Rightarrow> and_then (entry_ptr t (index p va 3)) (\<lambda>ptr.
        if mem ptr \<noteq> 0 then Inr (Inl Overlap, mem) else Inr (Inr (), mem(ptr := pa OR user_attrs pm))))"
    using True pre unfolding user_map_frame_def by simp
  from rt show thesis
  proof (cases rule: user_walk_result [where va = va and levels = "[0, 1, 2]" and mem = mem])
    case (missing e)
    have "user_walk p va [0, 1, 2] root mem \<noteq> Inr (Inl BadTable)"
      by (rule user_walk_not_bad [OF sp r, of "[]"]) (simp_all add: path_ok_def)
    then show thesis using that(1) [of e] run missing by auto
  next
    case (found t)
    have w: "walk (utbl_get mem) (utbl_dest p) root (va_path p va) = Some t"
      using found(3) by (simp add: va_path_def)
    note ptr = unat_utbl_slot(2) [OF found(2) index_lt [of p va 3]]
    have leaf0: "user_leaf p mem root va = mem (utbl_slot t (index p va 3))"
      by (simp add: user_leaf_def translate_def w utbl_get_def)
    show thesis
    proof (cases "mem (utbl_slot t (index p va 3)) = 0")
      case False
      then show thesis using that(1) [of Overlap] run found(1) ptr by simp
    next
      case free: True
      let ?mem' = "utbl_put mem t (index p va 3) (pa OR user_attrs pm)"
      have un: "unshared (utbl_get mem) (utbl_dest p) (ENTRIES p) 3 R" and ok: "\<forall>r \<in> R. utbl_ok p r"
        using sp by (simp_all add: spaces_ok_def)
      note lw = user_store.leaf_write [OF un ok r va_path_ok w index_lt [of p va 3]]
      have "inner_ok (utbl_get mem) (utbl_dest p) (ENTRIES p) 3 R" using sp by (simp add: spaces_ok_def)
      note li = user_store.leaf_write_inner [OF un ok r va_path_ok w index_lt [of p va 3] this]
      have m: "user_map_frame p root va pa pm mem = Inr (Inr (), ?mem')"
        using run found(1) ptr free by (simp add: utbl_put_def)
      have "user_leaf p ?mem' r' va' =
          (if r' = root \<and> page_no p va' = page_no p va then pa OR user_attrs pm else user_leaf p mem r' va')"
        if "r' \<in> R" for r' va'
        using lw(3) [OF that va_path_ok [of p va'] index_lt [of p va' 3]] indices_page_no [of p va' va]
        by (auto simp: user_leaf_def)
      moreover have "t \<in> tables_of p mem R"
        unfolding tables_of_def using r va_path_ok(1) w by (rule reachableI)
      ultimately show thesis
        using True free leaf0 lw(1,2) ok index_lt [of p va 3] li
        by (intro that(2) [OF m]) (auto simp: spaces_ok_def tables_of_def)
    qed
  qed
qed

section \<open>The table installer\<close>

definition linked ::
  "platform \<Rightarrow> u64 set \<Rightarrow> u64 \<Rightarrow> memory \<Rightarrow> memory \<Rightarrow> bool" where
  "linked p R tpa mem mem' \<longleftrightarrow>
     spaces_ok p mem' R \<and> tables_of p mem' R = insert tpa (tables_of p mem R) \<and>
     (\<forall>r \<in> R. \<forall>va. user_leaf p mem' r va = user_leaf p mem r va) \<and>
     (\<exists>t \<in> tables_of p mem R. \<exists>i < ENTRIES p. mem' = utbl_put mem t i (tpa OR DESC_TABLE))"

lemma link_table:
  assumes sp: "spaces_ok p mem R" and r: "r \<in> R" and q: "path_ok (ENTRIES p) 2 q"
    and w: "walk (utbl_get mem) (utbl_dest p) r q = Some t" and i: "i < ENTRIES p" "utbl_get mem t i = 0"
    and c: "utbl_ok p tpa" "tpa \<notin> tables_of p mem R" "\<forall>k < ENTRIES p. utbl_get mem tpa k = 0"
  shows "linked p R tpa mem (utbl_put mem t i (tpa OR DESC_TABLE))"
    "walk (utbl_get (utbl_put mem t i (tpa OR DESC_TABLE))) (utbl_dest p) r (q @ [i]) = Some tpa"
proof -
  have un: "unshared (utbl_get mem) (utbl_dest p) (ENTRIES p) 3 R" and ok: "\<forall>r \<in> R. utbl_ok p r"
    using sp by (simp_all add: spaces_ok_def)
  have q3: "path_ok (ENTRIES p) 3 q" "length q < 3" using q by (auto simp: path_ok_def)
  have d: "utbl_dest p (tpa OR DESC_TABLE) = Some tpa"
    using c(1) table_descriptor [of p tpa] by (simp add: utbl_dest_def utbl_ok_def)
  have inner: "inner_ok (utbl_get mem) (utbl_dest p) (ENTRIES p) 3 R" using sp by (simp add: spaces_ok_def)
  note lk = user_store.link_write [OF un ok r q3 w i d c(2) [unfolded tables_of_def] c(3)]
  note li = user_store.link_write_inner [OF un ok r q3 w i d c(2) [unfolded tables_of_def] c(3) inner]
  have "t \<in> tables_of p mem R"
    unfolding tables_of_def using r q3(1) w by (rule reachableI)
  moreover have "user_leaf p (utbl_put mem t i (tpa OR DESC_TABLE)) r' va = user_leaf p mem r' va" if "r' \<in> R" for r' va
    using lk(3) [OF that va_path_ok index_lt] by (simp add: user_leaf_def)
  ultimately show "linked p R tpa mem (utbl_put mem t i (tpa OR DESC_TABLE))"
    using lk(1,2) li ok i(1) by (auto simp: linked_def spaces_ok_def tables_of_def)
  show "walk (utbl_get (utbl_put mem t i (tpa OR DESC_TABLE))) (utbl_dest p) r (q @ [i]) = Some tpa"
    by (rule lk(4))
qed

lemma install_walk_cases:
  assumes sp: "spaces_ok p mem R" and r: "r \<in> R"
    and c: "utbl_ok p tpa" "tpa \<notin> tables_of p mem R" "\<forall>k < ENTRIES p. utbl_get mem tpa k = 0"
    and q: "path_ok (ENTRIES p) 3 q" "length q + length levels = 3"
    and w: "walk (utbl_get mem) (utbl_dest p) r q = Some t"
  shows "\<exists>res mem'. install_walk p va tpa levels t mem = Inr (res, mem') \<and>
     (case res of Inl e \<Rightarrow> mem' = mem \<and> e = Overlap
      | Inr l \<Rightarrow> l \<in> set levels \<and> linked p R tpa mem mem')"
  using q w
proof (induction levels arbitrary: t q)
  case (Cons l levels)
  let ?i = "index p va l"
  have q2: "path_ok (ENTRIES p) 2 q" using Cons.prems(1,2) by (simp add: path_ok_def)
  have ok: "utbl_ok p t"
    using sp r Cons.prems(3) by (auto simp: spaces_ok_def intro: user_store.walk_ok)
  note ptr = unat_utbl_slot(2) [OF ok index_lt [of p va l]]
  define entry where "entry = mem (utbl_slot t ?i)"
  have get: "utbl_get mem t ?i = entry" by (simp add: utbl_get_def entry_def)
  consider "entry = 0" | "entry \<noteq> 0" "entry AND 3 \<noteq> DESC_TABLE" | "entry \<noteq> 0" "entry AND 3 = DESC_TABLE"
    by blast
  then show ?case
  proof cases
    case 1
    have "linked p R tpa mem (utbl_put mem t ?i (tpa OR DESC_TABLE))"
      using link_table(1) [OF sp r q2 Cons.prems(3) index_lt _ c] get 1 by simp
    with 1 show ?thesis by (simp add: ptr entry_def [symmetric] utbl_put_def)
  next
    case 2
    have "length q < 3" using Cons.prems(2) by simp
    then have "utbl_dest p entry \<noteq> None"
      using inner_okD [OF _ r Cons.prems(1) _ Cons.prems(3) index_lt [of p va l]] sp 2(1) get by (simp add: spaces_ok_def)
    with 2 show ?thesis by (simp add: utbl_dest_def)
  next
    case 3
    then have d: "utbl_dest p entry = Some (entry AND ADDR_MASK p)" by (simp add: utbl_dest_def)
    have "walk (utbl_get mem) (utbl_dest p) r (q @ [?i]) = Some (entry AND ADDR_MASK p)"
      using Cons.prems(3) get d by (simp add: walk_snoc)
    moreover have "path_ok (ENTRIES p) 3 (q @ [?i])" "length (q @ [?i]) + length levels = 3"
      using q2 Cons.prems(2) index_lt by (auto simp: path_ok_def)
    ultimately obtain res mem' where "install_walk p va tpa levels (entry AND ADDR_MASK p) mem = Inr (res, mem')"
        "case res of Inl e \<Rightarrow> mem' = mem \<and> e = Overlap
         | Inr l \<Rightarrow> l \<in> set levels \<and> linked p R tpa mem mem'"
      using Cons.IH by blast
    with 3 show ?thesis
      by (intro exI [of _ res] exI [of _ mem']) (auto simp: ptr entry_def [symmetric] split: sum.split)
  qed
qed simp

lemma user_install_table_cases:
  assumes sp: "spaces_ok p mem R" and r: "root \<in> R"
    and c: "utbl_ok p tpa" "tpa \<notin> tables_of p mem R" "\<forall>k < ENTRIES p. utbl_get mem tpa k = 0"
  obtains (fail) e where "user_install_table p root va tpa mem = Inr (Inl e, mem)" "e \<noteq> BadTable"
    | (linked) l mem' where "user_install_table p root va tpa mem = Inr (Inr l, mem')" "l \<le> 2"
      "linked p R tpa mem mem'"
proof (cases "push_bit 48 1 \<le> va")
  case True
  then show thesis using that(1) [of Misaligned] by (simp add: user_install_table_def)
next
  case False
  have root: "walk (utbl_get mem) (utbl_dest p) root [] = Some root" "path_ok (ENTRIES p) 3 []"
    by (simp_all add: path_ok_def)
  obtain res mem' where run: "install_walk p va tpa [0, 1, 2] root mem = Inr (res, mem')"
      and post: "case res of Inl e \<Rightarrow> mem' = mem \<and> e = Overlap
       | Inr l \<Rightarrow> l \<in> set [0, 1, 2] \<and> linked p R tpa mem mem'"
    using install_walk_cases [OF sp r c root(2) _ root(1), of "[0, 1, 2]" va] by auto
  have u: "user_install_table p root va tpa mem = Inr (res, mem')"
    using False c(1) unfolding user_install_table_def run by (simp add: utbl_ok_def)
  show thesis
  proof (cases res)
    case (Inl e)
    then show thesis using that(1) u post by simp
  next
    case (Inr l)
    then show thesis using that(2) [of l mem'] u post by auto
  qed
qed

section \<open>The boot builder\<close>

lemma zero_frame:
  assumes "utbl_ok p b" "utbl_ok p t" "i < ENTRIES p"
  shows "utbl_get (zero_bytes (b + KERNEL_VA_OFFSET) (GRANULE p) mem) t i =
    (if t = b then 0 else utbl_get mem t i)"
proof -
  let ?g = "unat (GRANULE p)"
  have b: "unat (b + KERNEL_VA_OFFSET) = unat b + 18446462598732840960"
    using assms(1) by (intro unat_offset) (simp add: utbl_ok_def)
  note s = unat_utbl_slot(1) [OF assms(2,3)]
  have i: "i * 8 < ?g" using assms(3) ENTRIES_8 [of p] by linarith
  have "unat b \<le> unat t + i * 8 \<and> unat t + i * 8 < unat b + ?g \<longleftrightarrow> t = b"
  proof
    assume a: "unat b \<le> unat t + i * 8 \<and> unat t + i * 8 < unat b + ?g"
    define k where "k = unat t + i * 8 - unat b"
    have k: "unat t + i * 8 = unat b + k" "k < ?g" using a by (auto simp: k_def)
    have "(unat t + i * 8) div ?g = unat t div ?g" "(unat b + k) div ?g = unat b div ?g"
      using assms(1,2) i k(2) by (simp_all add: utbl_ok_def aligned_dvd div_plus_div_distrib_dvd_left)
    then have "unat t div ?g = unat b div ?g" using k(1) by simp
    then have "unat t = unat b"
      using assms(1,2) by (metis utbl_ok_def aligned_dvd dvd_div_mult_self)
    then show "t = b" by (simp add: u64_eq_iff)
  qed (use i in auto)
  then show ?thesis
    by (simp add: utbl_get_def zero_bytes_def b s)
qed

text \<open>Frames of the window that have been handed out, and the tables among them.\<close>

definition fa_ok :: "platform \<Rightarrow> frame_alloc \<Rightarrow> bool" where
  "fa_ok p fa \<longleftrightarrow> aligned (GRANULE p) (fa_next fa) \<and> fa_start fa \<le> fa_next fa \<and>
     fa_next fa \<le> fa_end fa \<and> unat (fa_end fa) \<le> 281474976710656"

definition us_inv :: "platform \<Rightarrow> frame_alloc \<Rightarrow> memory \<Rightarrow> u64 set \<Rightarrow> bool" where
  "us_inv p fa mem R \<longleftrightarrow> fa_ok p fa \<and> spaces_ok p mem R \<and> (\<forall>t \<in> tables_of p mem R. t < fa_next fa)"

text \<open>A frame is handed out whole, cleared, inside the window and above all earlier ones.\<close>

lemma frame_alloc_cases:
  assumes "fa_ok p fa"
  obtains (full) "frame_alloc_alloc p fa mem = Inr (Inl OutOfFrames, fa, mem)"
    | (frame) fa' where
      "frame_alloc_alloc p fa mem = Inr (Inr (fa_next fa), fa', zero_bytes (fa_next fa + KERNEL_VA_OFFSET) (GRANULE p) mem)"
      "fa' = fa\<lparr>fa_next := fa_next fa + GRANULE p\<rparr>" "fa_ok p fa'" "utbl_ok p (fa_next fa)"
      "unat (fa_next fa') = unat (fa_next fa) + unat (GRANULE p)"
proof (cases "unat (fa_next fa) + unat (GRANULE p) \<le> unat (fa_end fa)")
  case True
  have b: "unat (fa_next fa) + unat (GRANULE p) \<le> 281474976710656"
    using True assms by (simp add: fa_ok_def)
  then have lt: "unat (fa_next fa) < 281474976710656" using GRANULE_bounds(1) [of p] by linarith
  have n: "unat (fa_next fa + GRANULE p) = unat (fa_next fa) + unat (GRANULE p)"
    using b by (intro unat_add_64) simp
  have "add_pn (fa_next fa) KERNEL_VA_OFFSET = Inr (fa_next fa + KERNEL_VA_OFFSET)"
    using lt by (intro add_pn_ok) (simp add: KERNEL_VA_OFFSET_def)
  moreover have "checked_mul 1 (GRANULE p) = Some (GRANULE p)" "GRANULE p \<noteq> 0"
    using GRANULE_bounds [of p] by (auto simp: checked_mul_def)
  moreover have "checked_add (fa_next fa) (GRANULE p) = Some (fa_next fa + GRANULE p)"
    "\<not> fa_end fa < fa_next fa + GRANULE p"
    using b True n by (auto simp: checked_add_def word_order_unat)
  ultimately have run: "frame_alloc_alloc p fa mem =
      Inr (Inr (fa_next fa), fa\<lparr>fa_next := fa_next fa + GRANULE p\<rparr>,
        zero_bytes (fa_next fa + KERNEL_VA_OFFSET) (GRANULE p) mem)"
    by (simp add: frame_alloc_alloc_def alloc_contig_def Let_def)
  show thesis
    by (rule frame [OF run refl])
      (use True assms n lt in \<open>auto simp: fa_ok_def utbl_ok_def word_order_unat aligned_dvd\<close>)
next
  case False
  then have "frame_alloc_alloc p fa mem = Inr (Inl OutOfFrames, fa, mem)"
    by (auto simp: frame_alloc_alloc_def alloc_contig_def Let_def checked_mul_def checked_add_def
        word_order_unat unat_add_64)
  then show thesis by (rule full)
qed

text \<open>A memory that agrees on every table of the forest translates alike.\<close>

lemma spaces_cong:
  assumes sp: "spaces_ok p mem R"
    and keep: "\<And>t i. t \<in> tables_of p mem R \<Longrightarrow> i < ENTRIES p \<Longrightarrow> utbl_get mem' t i = utbl_get mem t i"
  shows "spaces_ok p mem' R" "tables_of p mem' R = tables_of p mem R"
    "r \<in> R \<Longrightarrow> user_leaf p mem' r va = user_leaf p mem r va"
    "r \<in> R \<Longrightarrow> path_ok (ENTRIES p) 3 q \<Longrightarrow>
      walk (utbl_get mem') (utbl_dest p) r q = walk (utbl_get mem) (utbl_dest p) r q"
proof -
  have ok: "\<forall>r \<in> R. utbl_ok p r" using sp by (simp add: spaces_ok_def)
  show w: "walk (utbl_get mem') (utbl_dest p) r q = walk (utbl_get mem) (utbl_dest p) r q"
    if "r \<in> R" "path_ok (ENTRIES p) 3 q" for r q
  proof (rule walk_cong)
    fix k c assume "k < length q" "walk (utbl_get mem) (utbl_dest p) r (take k q) = Some c"
    moreover from this have "c \<in> tables_of p mem R"
      unfolding tables_of_def using that path_ok_take by (blast intro: reachableI)
    ultimately show "utbl_get mem' c (q ! k) = utbl_get mem c (q ! k)"
      using that(2) by (intro keep) (auto simp: path_ok_def)
  qed
  have "unshared (utbl_get mem') (utbl_dest p) (ENTRIES p) 3 R"
    using sp w unfolding spaces_ok_def unshared_def by (metis (no_types, lifting))
  moreover have "inner_ok (utbl_get mem') (utbl_dest p) (ENTRIES p) 3 R"
    unfolding inner_ok_def
  proof (intro ballI allI impI, elim conjE)
    fix r q t i
    assume a: "r \<in> R" "path_ok (ENTRIES p) 3 q" "length q < 3" "walk (utbl_get mem') (utbl_dest p) r q = Some t"
      "i < ENTRIES p" "utbl_get mem' t i \<noteq> 0"
    have t: "walk (utbl_get mem) (utbl_dest p) r q = Some t" using w [OF a(1,2)] a(4) by simp
    then have "t \<in> tables_of p mem R" unfolding tables_of_def using a(1,2) by (blast intro: reachableI)
    then show "utbl_dest p (utbl_get mem' t i) \<noteq> None"
      using sp inner_okD [OF _ a(1-3) t a(5)] a(5,6) keep by (auto simp: spaces_ok_def)
  qed
  ultimately show "spaces_ok p mem' R"
    using ok by (simp add: spaces_ok_def)
  show "tables_of p mem' R = tables_of p mem R"
    unfolding tables_of_def reachable_def using w by (metis (no_types, lifting))
  assume r: "r \<in> R"
  show "user_leaf p mem' r va = user_leaf p mem r va"
  proof (cases "walk (utbl_get mem) (utbl_dest p) r (va_path p va)")
    case (Some t)
    then have "t \<in> tables_of p mem R"
      unfolding tables_of_def using r va_path_ok(1) by (intro reachableI)
    then show ?thesis
      using Some w [OF r va_path_ok(1)] keep index_lt by (simp add: user_leaf_def translate_def)
  qed (use w [OF r va_path_ok(1)] in \<open>simp add: user_leaf_def translate_def\<close>)
qed

text \<open>Clearing a fresh frame leaves every table of the forest alone.\<close>

lemma zero_fresh_frame:
  assumes sp: "spaces_ok p mem R" and b: "utbl_ok p b" "b \<notin> tables_of p mem R"
  defines "mem' \<equiv> zero_bytes (b + KERNEL_VA_OFFSET) (GRANULE p) mem"
  shows "spaces_ok p mem' R" "tables_of p mem' R = tables_of p mem R"
    "r \<in> R \<Longrightarrow> user_leaf p mem' r va = user_leaf p mem r va" "\<forall>k < ENTRIES p. utbl_get mem' b k = 0"
    "r \<in> R \<Longrightarrow> path_ok (ENTRIES p) 3 q \<Longrightarrow>
      walk (utbl_get mem') (utbl_dest p) r q = walk (utbl_get mem) (utbl_dest p) r q"
proof -
  have keep: "utbl_get mem' t i = utbl_get mem t i" if "t \<in> tables_of p mem R" "i < ENTRIES p" for t i
    using zero_frame [OF b(1) tables_of_ok [OF sp that(1)] that(2)] that(1) b(2) by (auto simp: mem'_def)
  show "spaces_ok p mem' R" by (rule spaces_cong(1) [OF sp]) (rule keep)
  show "tables_of p mem' R = tables_of p mem R" by (rule spaces_cong(2) [OF sp]) (rule keep)
  show "user_leaf p mem' r va = user_leaf p mem r va" if "r \<in> R"
    by (rule spaces_cong(3) [OF sp _ that]) (rule keep)
  show "walk (utbl_get mem') (utbl_dest p) r q = walk (utbl_get mem) (utbl_dest p) r q"
    if "r \<in> R" "path_ok (ENTRIES p) 3 q"
    by (rule spaces_cong(4) [OF sp _ that]) (rule keep)
  show "\<forall>k < ENTRIES p. utbl_get mem' b k = 0"
    using zero_frame [OF b(1,1)] by (simp add: mem'_def)
qed

text \<open>A word inside a frame is not an entry of any other table.\<close>

lemma word_in_frame:
  assumes "utbl_ok p f" "utbl_ok p t" "t \<noteq> f" "i < ENTRIES p" "off < GRANULE p"
  shows "utbl_slot t i \<noteq> f + off + KERNEL_VA_OFFSET"
proof
  assume a: "utbl_slot t i = f + off + KERNEL_VA_OFFSET"
  have l: "unat f + unat off < 281474976710656"
    using utbl_room [OF assms(1)] assms(5) by (simp add: word_order_unat)
  have "unat (f + off) = unat f + unat off" using l by (intro unat_add_64) simp
  then have s: "unat (utbl_slot t i) = unat f + unat off + 18446462598732840960"
    using a unat_offset [of "f + off"] l by simp
  have b: "unat (f + KERNEL_VA_OFFSET) = unat f + 18446462598732840960"
    using assms(1) by (intro unat_offset) (simp add: utbl_ok_def)
  have "utbl_get (zero_bytes (f + KERNEL_VA_OFFSET) (GRANULE p) (\<lambda>_. 1)) t i = 1"
    using zero_frame [OF assms(1,2,4), of "\<lambda>_. 1"] assms(3) by (simp add: utbl_get_def)
  then show False
    using s b assms(5) by (simp add: utbl_get_def zero_bytes_def word_order_unat split: if_splits)
qed

lemma us_inv_fresh: "us_inv p fa mem R \<Longrightarrow> fa_next fa \<notin> tables_of p mem R"
  by (auto simp: us_inv_def)

lemma us_alloc_link:
  assumes inv: "us_inv p fa mem R" and r: "r \<in> R" and q: "path_ok (ENTRIES p) 2 q"
    and w: "walk (utbl_get mem) (utbl_dest p) r q = Some t" and i: "i < ENTRIES p" "utbl_get mem t i = 0"
    and al: "frame_alloc_alloc p fa mem = Inr (Inr c, fa1, mem1)"
  defines "mem2 \<equiv> mem1(utbl_slot t i := c OR DESC_TABLE)"
  shows "us_inv p fa1 mem2 R" "walk (utbl_get mem2) (utbl_dest p) r (q @ [i]) = Some c"
    "r' \<in> R \<Longrightarrow> user_leaf p mem2 r' va = user_leaf p mem r' va" "fa_end fa1 = fa_end fa" "fa_start fa1 = fa_start fa"
    "tables_of p mem2 R \<subseteq> tables_of p mem R \<union> {t. fa_next fa \<le> t}" "fa_next fa \<le> fa_next fa1"
proof -
  have fa: "fa_ok p fa" and sp: "spaces_ok p mem R" using inv by (auto simp: us_inv_def)
  from fa have f: "c = fa_next fa" "mem1 = zero_bytes (fa_next fa + KERNEL_VA_OFFSET) (GRANULE p) mem"
      "fa1 = fa\<lparr>fa_next := fa_next fa + GRANULE p\<rparr>" "fa_ok p fa1" "utbl_ok p c"
      "unat (fa_next fa1) = unat (fa_next fa) + unat (GRANULE p)"
    by (cases rule: frame_alloc_cases [where mem = mem]; use al in auto)+
  show "fa_end fa1 = fa_end fa" "fa_start fa1 = fa_start fa" by (simp_all add: f(3))
  have fresh: "c \<notin> tables_of p mem R" using us_inv_fresh [OF inv] f(1) by simp
  have m1: "mem1 = zero_bytes (c + KERNEL_VA_OFFSET) (GRANULE p) mem" using f(1,2) by simp
  note z = zero_fresh_frame [OF sp f(5) fresh, folded m1]
  have q3: "path_ok (ENTRIES p) 3 q" using q by (simp add: path_ok_def)
  have tin: "t \<in> tables_of p mem R" unfolding tables_of_def using r q3 w by (rule reachableI)
  then have "utbl_get mem1 t i = 0"
    using zero_frame [OF f(5) tables_of_ok [OF sp tin] i(1)] fresh i(2) by (auto simp: m1)
  note lk = link_table [OF z(1) r q _ i(1) this f(5) _ z(4)]
  have mem2: "mem2 = utbl_put mem1 t i (c OR DESC_TABLE)" by (simp add: mem2_def utbl_put_def)
  have l: "linked p R c mem1 mem2"
    unfolding mem2 using lk(1) z(2) z(5) [OF r q3] w fresh by simp
  show "walk (utbl_get mem2) (utbl_dest p) r (q @ [i]) = Some c"
    unfolding mem2 using lk(2) z(2) z(5) [OF r q3] w fresh by simp
  show "r' \<in> R \<Longrightarrow> user_leaf p mem2 r' va = user_leaf p mem r' va"
    using l z(3) by (simp add: linked_def)
  have "\<forall>t \<in> tables_of p mem2 R. t < fa_next fa1"
    using l inv z(2) f(1,6) GRANULE_bounds(1) [of p] by (auto simp: linked_def us_inv_def word_order_unat)
  then show "us_inv p fa1 mem2 R"
    using l f(4) by (simp add: us_inv_def linked_def)
  show "tables_of p mem2 R \<subseteq> tables_of p mem R \<union> {t. fa_next fa \<le> t}"
    using l z(2) f(1) by (auto simp: linked_def)
  show "fa_next fa \<le> fa_next fa1" using f(6) by (simp add: word_order_unat)
qed

lemma us_descend_reaches:
  assumes "us_inv p fa mem R" "r \<in> R" "path_ok (ENTRIES p) 3 q" "length q + length levels = 3"
    "walk (utbl_get mem) (utbl_dest p) r q = Some t"
  shows "\<exists>res fa' mem'. us_descend p va levels t fa mem = Inr (res, fa', mem') \<and>
     us_inv p fa' mem' R \<and> fa_end fa' = fa_end fa \<and> fa_start fa' = fa_start fa \<and>
     (tables_of p mem' R \<subseteq> tables_of p mem R \<union> {t. fa_next fa \<le> t} \<and> fa_next fa \<le> fa_next fa') \<and>
     (\<forall>r' \<in> R. \<forall>va'. user_leaf p mem' r' va' = user_leaf p mem r' va') \<and>
     (\<forall>t'. res = Inr t' \<longrightarrow>
        walk (utbl_get mem') (utbl_dest p) r (q @ map (index p va) levels) = Some t')"
  using assms
proof (induction levels arbitrary: q t fa mem)
  case (Cons l levels)
  let ?i = "index p va l"
  have q2: "path_ok (ENTRIES p) 2 q" using Cons.prems(3,4) by (simp add: path_ok_def)
  have qi: "path_ok (ENTRIES p) 3 (q @ [?i])" "length (q @ [?i]) + length levels = 3"
    using q2 Cons.prems(4) index_lt by (auto simp: path_ok_def)
  have ok: "utbl_ok p t"
    using Cons.prems(1,2,5) by (auto simp: us_inv_def spaces_ok_def intro: user_store.walk_ok)
  note ptr = unat_utbl_slot(2) [OF ok index_lt [of p va l]]
  define entry where "entry = mem (utbl_slot t ?i)"
  have get: "utbl_get mem t ?i = entry" by (simp add: utbl_get_def entry_def)
  consider "entry = 0" | "entry \<noteq> 0" "entry AND 3 \<noteq> DESC_TABLE" | "entry \<noteq> 0" "entry AND 3 = DESC_TABLE"
    by blast
  then show ?case
  proof cases
    case 1
    have "fa_ok p fa" using Cons.prems(1) by (simp add: us_inv_def)
    then show ?thesis
    proof (cases rule: frame_alloc_cases [where mem = mem])
      case full
      with 1 Cons.prems(1) show ?thesis by (simp add: ptr entry_def [symmetric] Let_def)
    next
      case (frame fa1)
      note step = us_alloc_link [OF Cons.prems(1,2) q2 Cons.prems(5) index_lt [of p va l] _ frame(1), unfolded get, OF 1]
      define mem2 where "mem2 = (zero_bytes (fa_next fa + KERNEL_VA_OFFSET) (GRANULE p) mem)
          (utbl_slot t ?i := fa_next fa OR DESC_TABLE)"
      note step = step [folded mem2_def]
      have "us_descend p va (l # levels) t fa mem = us_descend p va levels (fa_next fa) fa1 mem2"
        using 1 frame(1) by (simp add: ptr entry_def [symmetric] Let_def mem2_def)
      moreover obtain res fa' mem' where
          "us_descend p va levels (fa_next fa) fa1 mem2 = Inr (res, fa', mem')" "us_inv p fa' mem' R" "fa_end fa' = fa_end fa1"
          "fa_start fa' = fa_start fa1" and tb: "tables_of p mem' R \<subseteq> tables_of p mem2 R \<union> {t. fa_next fa1 \<le> t}" "fa_next fa1 \<le> fa_next fa'"
          and "\<forall>r' \<in> R. \<forall>va'. user_leaf p mem' r' va' = user_leaf p mem2 r' va'"
          "\<forall>t'. res = Inr t' \<longrightarrow> walk (utbl_get mem') (utbl_dest p) r ((q @ [?i]) @ map (index p va) levels) = Some t'"
        using Cons.IH [OF step(1) Cons.prems(2) qi step(2)] by blast
      moreover have "tables_of p mem' R \<subseteq> tables_of p mem R \<union> {t. fa_next fa \<le> t}" "fa_next fa \<le> fa_next fa'"
        using tb step(6,7) by (auto intro: order_trans)
      ultimately show ?thesis using step(3-5) by simp
    qed
  next
    case 2
    with Cons.prems(1) show ?thesis by (simp add: ptr entry_def [symmetric] Let_def)
  next
    case 3
    then have "utbl_dest p entry = Some (entry AND ADDR_MASK p)" by (simp add: utbl_dest_def)
    then have "walk (utbl_get mem) (utbl_dest p) r (q @ [?i]) = Some (entry AND ADDR_MASK p)"
      using Cons.prems(5) get by (simp add: walk_snoc)
    from Cons.IH [OF Cons.prems(1,2) qi this] 3
    show ?thesis by (simp add: ptr entry_def [symmetric] Let_def)
  qed
qed simp

definition user_safe :: "u64 \<Rightarrow> bool" where
  "user_safe e \<longleftrightarrow> e = 0 \<or> (wx_safe e \<and> bit e 53)"

lemma user_attrs_bits:
  "bit (user_attrs pm) 53" "bit (user_attrs pm) 7 \<or> bit (user_attrs pm) 54"
  by (cases pm; simp add: user_attrs_def desc_defs bit_simps)+

lemma user_leaf_safe: "user_safe (pa OR user_attrs pm)" "pa OR user_attrs pm \<noteq> 0"
  using user_attrs_bits [of pm]
  by (auto simp: user_safe_def wx_safe_def bit_simps dest!: arg_cong [where f = "\<lambda>w. bit w 53"])

definition spaces_safe :: "platform \<Rightarrow> memory \<Rightarrow> u64 set \<Rightarrow> bool" where
  "spaces_safe p mem R \<longleftrightarrow> (\<forall>r \<in> R. \<forall>va. user_safe (user_leaf p mem r va))"

lemma us_map_page_cases:
  assumes inv: "us_inv p fa mem R" and r: "r \<in> R"
  obtains (fail) e fa' mem' where "us_map_page p r va pa attrs fa mem = Inr (Inl e, fa', mem')"
      "us_inv p fa' mem' R" "fa_end fa' = fa_end fa" "fa_start fa' = fa_start fa"
      "\<And>r' va'. r' \<in> R \<Longrightarrow> user_leaf p mem' r' va' = user_leaf p mem r' va'"
      "tables_of p mem' R \<subseteq> tables_of p mem R \<union> {t. fa_next fa \<le> t}" "fa_next fa \<le> fa_next fa'"
    | (mapped) fa' mem' where "us_map_page p r va pa attrs fa mem = Inr (Inr (), fa', mem')"
      "us_inv p fa' mem' R" "fa_end fa' = fa_end fa" "fa_start fa' = fa_start fa" "user_leaf p mem r va = 0"
      "\<And>r' va'. r' \<in> R \<Longrightarrow> user_leaf p mem' r' va' =
         (if r' = r \<and> page_no p va' = page_no p va then pa OR attrs else user_leaf p mem r' va')"
      "tables_of p mem' R \<subseteq> tables_of p mem R \<union> {t. fa_next fa \<le> t}" "fa_next fa \<le> fa_next fa'"
proof -
  have root: "walk (utbl_get mem) (utbl_dest p) r [] = Some r" "path_ok (ENTRIES p) 3 []"
    by (simp_all add: path_ok_def)
  obtain res fa1 mem1 where run: "us_descend p va [0, 1, 2] r fa mem = Inr (res, fa1, mem1)"
      and d: "us_inv p fa1 mem1 R" "fa_end fa1 = fa_end fa" "fa_start fa1 = fa_start fa"
      "\<And>r' va'. r' \<in> R \<Longrightarrow> user_leaf p mem1 r' va' = user_leaf p mem r' va'"
      "\<And>t'. res = Inr t' \<Longrightarrow> walk (utbl_get mem1) (utbl_dest p) r (va_path p va) = Some t'"
      and tb: "tables_of p mem1 R \<subseteq> tables_of p mem R \<union> {t. fa_next fa \<le> t}" "fa_next fa \<le> fa_next fa1"
    using us_descend_reaches [OF inv r root(2) _ root(1), of "[0, 1, 2]" va] by (auto simp: va_path_def)
  show thesis
  proof (cases res)
    case (Inl e)
    have "us_map_page p r va pa attrs fa mem = Inr (Inl e, fa1, mem1)"
      unfolding us_map_page_def run by (simp add: Inl)
    with d(1-4) tb show thesis by (intro fail)
  next
    case (Inr t)
    note w = d(5) [OF Inr]
    have sp: "unshared (utbl_get mem1) (utbl_dest p) (ENTRIES p) 3 R" "\<forall>r \<in> R. utbl_ok p r"
      using d(1) by (simp_all add: us_inv_def spaces_ok_def)
    have "utbl_ok p t" using sp(2) r w by (blast intro: user_store.walk_ok)
    note ptr = unat_utbl_slot(2) [OF this index_lt [of p va 3]]
    have leaf: "user_leaf p mem r va = mem1 (utbl_slot t (index p va 3))"
      unfolding d(4) [OF r, symmetric] by (simp add: user_leaf_def translate_def w utbl_get_def)
    show thesis
    proof (cases "mem1 (utbl_slot t (index p va 3)) = 0")
      case False
      have "us_map_page p r va pa attrs fa mem = Inr (Inl Overlap, fa1, mem1)"
        unfolding us_map_page_def run using False by (simp add: Inr ptr)
      with d(1-4) tb show thesis by (intro fail)
    next
      case True
      let ?mem2 = "utbl_put mem1 t (index p va 3) (pa OR attrs)"
      note lw = user_store.leaf_write [OF sp r va_path_ok w index_lt [of p va 3]]
      have m: "us_map_page p r va pa attrs fa mem = Inr (Inr (), fa1, ?mem2)"
        unfolding us_map_page_def run using True by (simp add: Inr ptr utbl_put_def)
      have "inner_ok (utbl_get mem1) (utbl_dest p) (ENTRIES p) 3 R" using d(1) by (simp add: us_inv_def spaces_ok_def)
      note li = user_store.leaf_write_inner [OF sp r va_path_ok w index_lt [of p va 3] this]
      have "us_inv p fa1 ?mem2 R"
        using d(1) lw(1,2) li by (simp add: us_inv_def spaces_ok_def tables_of_def)
      moreover have "user_leaf p ?mem2 r' va' =
          (if r' = r \<and> page_no p va' = page_no p va then pa OR attrs else user_leaf p mem r' va')"
        if "r' \<in> R" for r' va'
        using lw(3) [OF that va_path_ok [of p va'] index_lt [of p va' 3]] indices_page_no [of p va' va]
          d(4) [OF that, of va'] by (auto simp: user_leaf_def)
      moreover have "tables_of p ?mem2 R = tables_of p mem1 R" using lw(2) by (simp add: tables_of_def)
      ultimately show thesis
        using True leaf d(2,3) tb by (intro mapped [OF m]) auto
    qed
  qed
qed

lemma us_map_range_loop_correct:
  assumes "us_inv p fa mem R" "r \<in> R" "spaces_safe p mem R"
    "unat va + unat len \<le> 18446744073709551616" "unat pa + unat len \<le> 18446744073709551616"
    "aligned (GRANULE p) pa" "aligned (GRANULE p) len" "aligned (GRANULE p) off"
  shows "\<exists>res fa' mem'. us_map_range_loop p r va pa len (user_attrs pm) off fa mem = Inr (res, fa', mem') \<and>
     us_inv p fa' mem' R \<and> fa_end fa' = fa_end fa \<and> fa_start fa' = fa_start fa \<and> spaces_safe p mem' R \<and>
     (\<forall>u. res = Inr u \<longrightarrow> range_mapped p R r va pa len (user_attrs pm) off (user_leaf p mem) (user_leaf p mem'))"
  using assms
proof (induction p r va pa len "user_attrs pm" off fa mem rule: us_map_range_loop.induct)
  case (1 p r va pa len off fa mem)
  note step = us_map_range_loop.simps [of p r va pa len "user_attrs pm" off fa mem]
  show ?case
  proof (cases "off < len")
    case True
    then have lt: "unat off < unat len" by (simp add: word_order_unat)
    have va: "add_pn va off = Inr (va + off)" and pa: "add_pn pa off = Inr (pa + off)"
      using lt "1.prems"(4,5) by (auto intro!: add_pn_ok)
    have "unat (GRANULE p) dvd unat len - unat off"
      using "1.prems"(7,8) by (simp add: aligned_dvd)
    then have "unat off + unat (GRANULE p) \<le> unat len"
      using lt dvd_imp_le [of "unat (GRANULE p)" "unat len - unat off"] by simp
    then have g: "unat off + unat (GRANULE p) < 18446744073709551616"
      using unat_lt_64 [of len] by linarith
    note og = add_pn_ok [OF g] unat_add_64 [OF g]
    have al: "aligned (GRANULE p) (off + GRANULE p)"
      using "1.prems"(8) g by (intro aligned_add) (simp_all add: aligned_dvd)
    from "1.prems"(1,2) show ?thesis
    proof (cases rule: us_map_page_cases [where va = "va + off" and pa = "pa + off" and attrs = "user_attrs pm"])
      case (fail e fa' mem')
      with True va pa "1.prems"(3) show ?thesis by (simp add: step spaces_safe_def)
    next
      case (mapped fa1 mem1)
      have "spaces_safe p mem1 R"
        using "1.prems"(2,3) mapped(6) user_leaf_safe(1) by (simp add: spaces_safe_def)
      then obtain res fa' mem' where
          run: "us_map_range_loop p r va pa len (user_attrs pm) (off + GRANULE p) fa1 mem1 = Inr (res, fa', mem')"
          and post: "us_inv p fa' mem' R" "fa_end fa' = fa_end fa1" "fa_start fa' = fa_start fa1" "spaces_safe p mem' R"
          "\<And>u. res = Inr u \<Longrightarrow> range_mapped p R r va pa len (user_attrs pm) (off + GRANULE p) (user_leaf p mem1) (user_leaf p mem')"
        using "1.hyps" [OF True va pa mapped(1) refl refl refl og(1) mapped(2) "1.prems"(2) _ "1.prems"(4-7) al]
        by blast
      have "range_mapped p R r va pa len (user_attrs pm) off (user_leaf p mem) (user_leaf p mem')" if "res = Inr u" for u
        using range_mapped_step [OF mapped(6,5) user_leaf_safe(2) "1.prems"(2) lt _ og(2) post(5) [OF that]] "1.prems"(8)
        by (simp add: aligned_dvd)
      with run post mapped(1,3,4) True va pa og(1) show ?thesis by (simp add: step)
    qed
  next
    case False
    then have "\<not> page_offset p off len k" for k
      by (auto simp: page_offset_def word_order_unat)
    with False "1.prems" show ?thesis by (simp add: step range_mapped_def)
  qed
qed

text \<open>Cleared memory: every root is an empty address space.\<close>

lemma empty_spaces:
  assumes "\<forall>r \<in> R. utbl_ok p r"
  shows "spaces_ok p (\<lambda>_. 0) R" "tables_of p (\<lambda>_. 0) R = R" "spaces_safe p (\<lambda>_. 0) R"
proof -
  have w: "walk (utbl_get (\<lambda>_. 0)) (utbl_dest p) r q = (if q = [] then Some r else None)" for r q
    by (cases q) (simp_all add: utbl_get_def user_store.dest_zero)
  show "spaces_ok p (\<lambda>_. 0) R" "tables_of p (\<lambda>_. 0) R = R"
    unfolding spaces_ok_def tables_of_def unshared_def reachable_def inner_ok_def w
    using assms by (auto simp: path_ok_def utbl_get_def intro: exI [of _ "[]"] split: if_split_asm)
  show "spaces_safe p (\<lambda>_. 0) R"
    by (simp add: spaces_safe_def user_leaf_def translate_def w user_safe_def utbl_get_def split: option.split)
qed

section \<open>Properties\<close>

text \<open>
  C11. Mapping a frame is exact. For any set of address spaces whose tables form a forest,
  \<^verbatim>\<open>user_map_frame\<close> does not panic and finds no corrupt table; when it fails memory is untouched, and when it succeeds the page
  was free, lies above the null guard and below 2^48, now translates to the requested frame and
  permission, every other translation of every address space is unchanged, and no table was added.
\<close>

theorem user_map_frame_exact:
  assumes "spaces_ok p mem R" "root \<in> R"
  shows "\<exists>res mem'. user_map_frame p root va pa pm mem = Inr (res, mem') \<and>
    (case res of
       Inl e \<Rightarrow> mem' = mem \<and> e \<noteq> BadTable
     | Inr _ \<Rightarrow> spaces_ok p mem' R \<and> tables_of p mem' R = tables_of p mem R \<and> GRANULE p \<le> va \<and>
         unat va + unat (GRANULE p) \<le> 2 ^ 48 \<and> user_leaf p mem root va = 0 \<and>
         (\<forall>r \<in> R. \<forall>va'. user_leaf p mem' r va' =
            (if r = root \<and> page_no p va' = page_no p va then pa OR user_attrs pm else user_leaf p mem r va')))"
  using assms
proof (cases rule: user_map_frame_cases [where va = va and pa = pa and pm = pm])
  case (mapped mem')
  then show ?thesis by auto
qed auto

theorem user_map_frame_exact_witness:
  "\<exists>res mem'. user_map_frame Virt 0x40000000 0x200000 0x50000000 RwUser (\<lambda>_. 0) = Inr (res, mem')"
proof -
  have "spaces_ok Virt (\<lambda>_. 0) {0x40000000}"
    by (rule empty_spaces) (simp add: utbl_ok_def aligned_def GRANULE_def)
  from user_map_frame_exact [OF this] show ?thesis by blast
qed

text \<open>
  C12. Installing a table is neutral. Linking a cleared frame that no address space uses changes no
  translation of any address space, keeps the forest and adds exactly that table; a failing call
  writes nothing and does not report a corrupt table.
\<close>

theorem user_install_table_neutral:
  assumes "spaces_ok p mem R" "root \<in> R" "utbl_ok p tpa" "tpa \<notin> tables_of p mem R"
    "\<forall>k < ENTRIES p. utbl_get mem tpa k = 0"
  shows "\<exists>res mem'. user_install_table p root va tpa mem = Inr (res, mem') \<and>
    (case res of
       Inl e \<Rightarrow> mem' = mem \<and> e \<noteq> BadTable
     | Inr l \<Rightarrow> l \<le> 2 \<and> spaces_ok p mem' R \<and> tables_of p mem' R = insert tpa (tables_of p mem R) \<and>
         (\<forall>r \<in> R. \<forall>va'. user_leaf p mem' r va' = user_leaf p mem r va'))"
  using assms
proof (cases rule: user_install_table_cases [where va = va])
  case (linked l mem')
  then show ?thesis by (auto simp: linked_def)
qed auto

theorem user_install_table_neutral_witness:
  "\<exists>mem'. user_install_table Virt 0x40000000 0x200000 0x40001000 (\<lambda>_. 0) = Inr (Inr 0, mem') \<and>
     tables_of Virt mem' {0x40000000} = {0x40000000, 0x40001000}"
proof -
  have ok: "\<forall>r \<in> {0x40000000}. utbl_ok Virt r" "utbl_ok Virt 0x40001000"
    by (simp_all add: utbl_ok_def aligned_def GRANULE_def)
  note e = empty_spaces [OF ok(1)]
  have run: "\<exists>mem'. user_install_table Virt 0x40000000 0x200000 0x40001000 (\<lambda>_. 0) = Inr (Inr 0, mem')"
    using ok unat_utbl_slot(2) [of Virt "0x40000000" "index Virt 0x200000 0"] index_lt
    by (simp add: user_install_table_def aligned_def GRANULE_def utbl_ok_def)
  show ?thesis
    using user_install_table_neutral [OF e(1) _ ok(2), of "0x40000000" "0x200000"] run e(2)
    by (auto simp: utbl_get_def)
qed

text \<open>
  C13. The boot builder maps what it is asked to, W^X. While the tables come from a bump allocator
  over a window below 2^48, mapping a range does not panic, keeps the forest inside the frames
  handed out, never creates a writable and executable mapping nor one the kernel may execute, and
  on success the pages of the range, and only those, are mapped to consecutive frames.
\<close>

theorem us_map_range_exact:
  assumes "us_inv p fa mem R" "root \<in> R" "spaces_safe p mem R" "unat pa + unat len \<le> 2 ^ 64"
  shows "\<exists>res fa' mem'. us_map_range p root va pa len pm fa mem = Inr (res, fa', mem') \<and>
    us_inv p fa' mem' R \<and> spaces_safe p mem' R \<and>
    (case res of
       Inl e \<Rightarrow> True
     | Inr _ \<Rightarrow> GRANULE p \<le> va \<and> unat va + unat len \<le> 2 ^ 48 \<and>
         range_mapped p R root va pa len (user_attrs pm) 0 (user_leaf p mem) (user_leaf p mem'))"
proof (cases "aligned (GRANULE p) va \<and> aligned (GRANULE p) pa \<and> aligned (GRANULE p) len \<and> len \<noteq> 0 \<and>
    GRANULE p \<le> va \<and> unat va + unat len \<le> 281474976710656")
  case True
  then have c: "checked_add va len = Some (va + len)" "\<not> push_bit 48 1 < va + len" "\<not> va < GRANULE p"
    by (auto simp: checked_add_def word_order_unat unat_add_64)
  have "aligned (GRANULE p) 0" by (simp add: aligned_def)
  with True assms obtain res fa' mem' where
      "us_map_range_loop p root va pa len (user_attrs pm) 0 fa mem = Inr (res, fa', mem')"
      "us_inv p fa' mem' R" "spaces_safe p mem' R"
      "\<And>u. res = Inr u \<Longrightarrow> range_mapped p R root va pa len (user_attrs pm) 0 (user_leaf p mem) (user_leaf p mem')"
    using us_map_range_loop_correct [OF assms(1-3), of va len pa 0 pm] by fastforce
  with True c show ?thesis by (auto simp: us_map_range_def split: sum.split)
next
  case False
  then have "\<exists>e. us_map_range p root va pa len pm fa mem = Inr (Inl e, fa, mem)"
    by (auto simp: us_map_range_def checked_add_def word_order_unat unat_add_64 not_le)
  with assms show ?thesis by auto
qed

theorem us_map_range_exact_witness:
  "\<exists>res fa' mem'. us_map_range Virt 0x40000000 0x200000 0x50000000 0x2000 TextUser
       \<lparr>fa_start = 0x40000000, fa_next = 0x40001000, fa_end = 0x40200000\<rparr> (\<lambda>_. 0) = Inr (res, fa', mem') \<and>
     spaces_safe Virt mem' {0x40000000}"
proof -
  have ok: "\<forall>r \<in> {0x40000000}. utbl_ok Virt r"
    by (simp add: utbl_ok_def aligned_def GRANULE_def)
  note e = empty_spaces [OF ok]
  have "us_inv Virt \<lparr>fa_start = 0x40000000, fa_next = 0x40001000, fa_end = 0x40200000\<rparr> (\<lambda>_. 0) {0x40000000}"
    using e by (simp add: us_inv_def fa_ok_def aligned_def GRANULE_def)
  from us_map_range_exact [OF this _ e(3), of "0x40000000" "0x50000000" "0x2000" "0x200000" TextUser]
  show ?thesis by simp blast
qed

end
