(* ===== verification/Cap.thy ===== *)
theory Cap
  imports Abi
begin

text \<open>
  The capability system (\<^verbatim>\<open>crates/k0-cap/src/lib.rs\<close>): the root CNode, the bootstrap that turns the
  physical memory map minus the reserved ranges into untyped capabilities, and \<^verbatim>\<open>retype\<close>, which
  carves kernel objects out of untyped memory. The crate is pure bookkeeping; the memory
  preparation of \<^verbatim>\<open>retype\<close> is its callback \<open>prep\<close>, which here acts on an arbitrary machine state.
\<close>

section \<open>Data\<close>

definition CNODE_SLOTS :: nat where "CNODE_SLOTS = 32"

record phys_region =
  pr_base :: u64
  pr_size :: u64

definition pr_end :: "phys_region \<Rightarrow> halt + u64" where
  "pr_end r = add_pn (pr_base r) (pr_size r)"

datatype cap =
    CapEmpty
  | CapRootTcb
  | CapAddrSpace u64
  | CapConsole
  | CapTcb u64
  | CapUntyped u64 u64 u64
  | CapFrame u64 bool
  | CapPageTable u64 bool
  | CapEndpoint u64

datatype obj_kind = ObjFrame | ObjPageTable | ObjTcb | ObjEndpoint

datatype cap_error = CapOutOfSlots | CapBadRegion

datatype retype_error = RtBadSlot | RtNotUntyped | RtExhausted | RtOutOfSlots | RtPrepFailed

record cnode =
  slots :: "cap list"
  used :: nat

text \<open>The static \<^verbatim>\<open>ROOT_CNODE\<close> before the bootstrap.\<close>

definition ROOT_CNODE :: cnode where
  "ROOT_CNODE = \<lparr>slots = replicate CNODE_SLOTS CapEmpty, used = 0\<rparr>"

section \<open>Slot access\<close>

definition cnode_slots :: "cnode \<Rightarrow> cap list" where
  "cnode_slots cn = take (used cn) (slots cn)"

definition cnode_cap :: "cnode \<Rightarrow> u64 \<Rightarrow> cap option" where
  "cnode_cap cn slot =
     (if unat slot < length (cnode_slots cn) then Some (cnode_slots cn ! unat slot) else None)"

text \<open>
  \<^verbatim>\<open>cap_mut\<close> hands out a mutable reference: the capability and the way to write it back.
\<close>

definition cap_mut :: "cnode \<Rightarrow> u64 \<Rightarrow> (cap \<times> (cap \<Rightarrow> cnode)) option" where
  "cap_mut cn slot =
     (if used cn \<le> unat slot then None
      else Some (slots cn ! unat slot, \<lambda>c. cn\<lparr>slots := (slots cn)[unat slot := c]\<rparr>))"

definition cnode_push :: "cap \<Rightarrow> cnode \<Rightarrow> cap_error + cnode" where
  "cnode_push c cn =
     (if used cn = CNODE_SLOTS then Inl CapOutOfSlots
      else Inr (cn\<lparr>slots := (slots cn)[used cn := c], used := used cn + 1\<rparr>))"

section \<open>Retype\<close>

definition new_cap :: "obj_kind \<Rightarrow> u64 \<Rightarrow> cap" where
  "new_cap kind carve =
     (case kind of
        ObjFrame \<Rightarrow> CapFrame carve False
      | ObjPageTable \<Rightarrow> CapPageTable carve False
      | ObjTcb \<Rightarrow> CapTcb carve
      | ObjEndpoint \<Rightarrow> CapEndpoint carve)"

text \<open>The place to carve: the watermark rounded up to the granule, and its end.\<close>

definition carve_place :: "u64 \<Rightarrow> u64 \<Rightarrow> u64 \<Rightarrow> (u64 \<times> u64) option" where
  "carve_place base us granule =
     (case checked_add base us of None \<Rightarrow> None
      | Some mark \<Rightarrow>
          (case checked_add mark (granule - 1) of None \<Rightarrow> None
           | Some up \<Rightarrow>
               (let carve = up AND NOT (granule - 1)
                in case checked_add carve granule of None \<Rightarrow> None
                   | Some carve_end \<Rightarrow> Some (carve, carve_end))))"

definition retype ::
  "u64 \<Rightarrow> obj_kind \<Rightarrow> u64 \<Rightarrow> (u64 \<Rightarrow> 's \<Rightarrow> halt + (bool \<times> 's)) \<Rightarrow> cnode \<Rightarrow> 's
     \<Rightarrow> halt + ((retype_error + u64) \<times> cnode \<times> 's)" where
  "retype slot kind granule prep cn s =
     (if used cn \<le> unat slot then Inr (Inl RtBadSlot, cn, s)
      else case slots cn ! unat slot of
        CapUntyped base sz us \<Rightarrow>
          if used cn = CNODE_SLOTS then Inr (Inl RtOutOfSlots, cn, s)
          else (case carve_place base us granule of
             None \<Rightarrow> Inr (Inl RtExhausted, cn, s)
           | Some (carve, carve_end) \<Rightarrow>
               and_then (add_pn base sz) (\<lambda>limit.
                 if limit < carve_end then Inr (Inl RtExhausted, cn, s)
                 else and_then (prep carve s) (\<lambda>(ok, s').
                   if \<not> ok then Inr (Inl RtPrepFailed, cn, s')
                   else
                     let cn1 = cn\<lparr>slots := (slots cn)[unat slot := CapUntyped base sz (carve_end - base)]\<rparr>;
                         new_slot = used cn1
                     in case cnode_push (new_cap kind carve) cn1 of
                          Inl _ \<Rightarrow> Inr (Inl RtOutOfSlots, cn1, s')
                        | Inr cn2 \<Rightarrow> Inr (Inr (of_nat new_slot), cn2, s'))))
      | _ \<Rightarrow> Inr (Inl RtNotUntyped, cn, s))"

section \<open>Bootstrap\<close>

text \<open>\<^verbatim>\<open>memory[..i].iter().any(|o| o.base < m.end() && m.base < o.end())\<close>\<close>

fun any_overlap :: "phys_region \<Rightarrow> phys_region list \<Rightarrow> halt + bool" where
  "any_overlap m [] = Inr False"
| "any_overlap m (r # rs) =
     and_then (pr_end m) (\<lambda>m_end.
       if pr_base r < m_end
       then and_then (pr_end r) (\<lambda>r_end.
              if pr_base m < r_end then Inr True else any_overlap m rs)
       else any_overlap m rs)"

fun check_memory :: "phys_region list \<Rightarrow> phys_region list \<Rightarrow> halt + (cap_error + unit)" where
  "check_memory seen [] = Inr (Inr ())"
| "check_memory seen (m # ms) =
     (if pr_size m = 0 \<or> checked_add (pr_base m) (pr_size m) = None then Inr (Inl CapBadRegion)
      else and_then (any_overlap m seen) (\<lambda>hit.
        if hit then Inr (Inl CapBadRegion) else check_memory (seen @ [m]) ms))"

text \<open>The lowest reserved range that ends after the cursor and starts before the region's end.\<close>

definition lower_region :: "phys_region option \<Rightarrow> phys_region \<Rightarrow> phys_region option" where
  "lower_region nxt r =
     (case nxt of
        Some n \<Rightarrow> if pr_base n \<le> pr_base r then nxt else Some r
      | None \<Rightarrow> Some r)"

fun next_reserved ::
  "u64 \<Rightarrow> u64 \<Rightarrow> phys_region list \<Rightarrow> phys_region option \<Rightarrow> cap_error + phys_region option" where
  "next_reserved cursor m_end [] nxt = Inr nxt"
| "next_reserved cursor m_end (r # rs) nxt =
     (if pr_size r = 0 then Inl CapBadRegion
      else case checked_add (pr_base r) (pr_size r) of
        None \<Rightarrow> Inl CapBadRegion
      | Some r_end \<Rightarrow>
          if cursor < r_end \<and> pr_base r < m_end
          then next_reserved cursor m_end rs (lower_region nxt r)
          else next_reserved cursor m_end rs nxt)"

lemma next_reserved_Cons:
  "next_reserved cursor m_end (q # rs) nxt = Inr res \<longleftrightarrow>
     pr_size q \<noteq> 0 \<and> unat (pr_base q) + unat (pr_size q) < 18446744073709551616 \<and>
     next_reserved cursor m_end rs
       (if cursor < pr_base q + pr_size q \<and> pr_base q < m_end then lower_region nxt q else nxt) = Inr res"
  by (simp add: checked_add_def)

lemma lower_region_cases:
  "lower_region nxt q = Some q \<or> lower_region nxt q = nxt"
  by (simp add: lower_region_def split: option.splits)

text \<open>What \<open>next_reserved\<close> returns is a listed range that passes its test.\<close>

lemma next_reserved_mem:
  assumes "next_reserved cursor m_end rs nxt = Inr (Some r)"
  shows "nxt = Some r \<or> (r \<in> set rs \<and> cursor < pr_base r + pr_size r \<and> pr_base r < m_end)"
  using assms
proof (induction rs arbitrary: nxt)
  case (Cons q rs)
  let ?n = "if cursor < pr_base q + pr_size q \<and> pr_base q < m_end then lower_region nxt q else nxt"
  have "?n = Some r \<or> (r \<in> set rs \<and> cursor < pr_base r + pr_size r \<and> pr_base r < m_end)"
    using Cons.IH Cons.prems unfolding next_reserved_Cons by blast
  then show ?case
    using lower_region_cases [of nxt q] by (auto split: if_split_asm)
qed simp

lemma cursor_advances:
  assumes "next_reserved cursor m_end rs None = Inr (Some r)" "pr_end r = Inr r_end" "\<not> m_end \<le> r_end"
  shows "unat m_end - unat (max r_end cursor) < unat m_end - unat cursor"
  using assms next_reserved_mem [OF assms(1)]
  by (auto simp: pr_end_def add_pn_Inr unat_simps max_def)

function untyped_loop ::
  "phys_region list \<Rightarrow> u64 \<Rightarrow> u64 \<Rightarrow> cnode \<Rightarrow> halt + (cap_error + cnode)" where
  "untyped_loop reserved m_end cursor cn =
     (case next_reserved cursor m_end reserved None of
        Inl e \<Rightarrow> Inr (Inl e)
      | Inr None \<Rightarrow>
          Inr (if cursor < m_end then cnode_push (CapUntyped cursor (m_end - cursor) 0) cn
               else Inr cn)
      | Inr (Some r) \<Rightarrow>
          and_then (pr_end r) (\<lambda>r_end.
            case (if cursor < pr_base r
                  then cnode_push (CapUntyped cursor (min (pr_base r) m_end - cursor) 0) cn
                  else Inr cn) of
              Inl e \<Rightarrow> Inr (Inl e)
            | Inr cn' \<Rightarrow>
                if m_end \<le> r_end then Inr (Inr cn')
                else untyped_loop reserved m_end (max r_end cursor) cn'))"
  by pat_completeness auto
termination
  by (relation "measure (\<lambda>(reserved, m_end, cursor, cn). unat m_end - unat cursor)")
    (auto intro: cursor_advances)

declare untyped_loop.simps [simp del]

definition push_untypeds ::
  "cnode \<Rightarrow> phys_region \<Rightarrow> phys_region list \<Rightarrow> halt + (cap_error + cnode)" where
  "push_untypeds cn m reserved =
     and_then (pr_end m) (\<lambda>m_end. untyped_loop reserved m_end (pr_base m) cn)"

fun push_all_untypeds ::
  "cnode \<Rightarrow> phys_region list \<Rightarrow> phys_region list \<Rightarrow> halt + (cap_error + cnode)" where
  "push_all_untypeds cn [] reserved = Inr (Inr cn)"
| "push_all_untypeds cn (m # ms) reserved =
     and_then (push_untypeds cn m reserved) (\<lambda>res.
       case res of Inl e \<Rightarrow> Inr (Inl e) | Inr cn' \<Rightarrow> push_all_untypeds cn' ms reserved)"

definition populate ::
  "cnode \<Rightarrow> phys_region list \<Rightarrow> phys_region list \<Rightarrow> u64 \<Rightarrow> halt + (cap_error + cnode)" where
  "populate cn memory reserved addr_space_root =
     and_then (check_memory [] memory) (\<lambda>ok.
       case and_then ok (\<lambda>_. and_then (cnode_push CapEmpty cn) (\<lambda>c1.
              and_then (cnode_push CapRootTcb c1) (\<lambda>c2.
              and_then (cnode_push (CapAddrSpace addr_space_root) c2) (\<lambda>c3.
                cnode_push CapConsole c3)))) of
         Inl e \<Rightarrow> Inr (Inl e)
       | Inr c4 \<Rightarrow> push_all_untypeds c4 memory reserved)"

definition bootstrap ::
  "phys_region list \<Rightarrow> phys_region list \<Rightarrow> u64 \<Rightarrow> halt + (cap_error + cnode)" where
  "bootstrap memory reserved addr_space_root = populate ROOT_CNODE memory reserved addr_space_root"

section \<open>Well-formed CNodes\<close>

definition cnode_ok :: "cnode \<Rightarrow> bool" where
  "cnode_ok cn \<longleftrightarrow> length (slots cn) = CNODE_SLOTS \<and> used cn \<le> CNODE_SLOTS"

lemma ROOT_CNODE_ok [simp]: "cnode_ok ROOT_CNODE" "cnode_slots ROOT_CNODE = []"
  by (simp_all add: cnode_ok_def ROOT_CNODE_def cnode_slots_def)

lemma length_cnode_slots [simp]: "cnode_ok cn \<Longrightarrow> length (cnode_slots cn) = used cn"
  by (simp add: cnode_ok_def cnode_slots_def)

lemma nth_cnode_slots: "i < used cn \<Longrightarrow> cnode_slots cn ! i = slots cn ! i"
  by (simp add: cnode_slots_def)

lemma cnode_push_Inr:
  assumes "cnode_push c cn = Inr cn'" "cnode_ok cn"
  shows "cnode_ok cn' \<and> cnode_slots cn' = cnode_slots cn @ [c] \<and> used cn < CNODE_SLOTS"
  using assms
  by (auto simp: cnode_push_def cnode_ok_def cnode_slots_def take_Suc_conv_app_nth split: if_splits)

lemma cnode_push_ok:
  "cnode_ok cn \<Longrightarrow> used cn < CNODE_SLOTS \<Longrightarrow> \<exists>cn'. cnode_push c cn = Inr cn'"
  by (simp add: cnode_push_def)

lemma cnode_slots_update:
  "i < used cn \<Longrightarrow> cnode_slots (cn\<lparr>slots := (slots cn)[i := c]\<rparr>) = (cnode_slots cn)[i := c]"
  by (simp add: cnode_slots_def take_update_swap)

lemma cnode_ok_update [simp]:
  "cnode_ok (cn\<lparr>slots := (slots cn)[i := c]\<rparr>) = cnode_ok cn"
  by (simp add: cnode_ok_def)

section \<open>The memory a capability owns\<close>

text \<open>
  An object owns its granule; an untyped capability owns what lies above its watermark; the
  boot-time capabilities own no retypeable memory.
\<close>

definition cap_bytes :: "u64 \<Rightarrow> cap \<Rightarrow> nat set" where
  "cap_bytes g c =
     (case c of
        CapUntyped b n u \<Rightarrow> {unat b + unat u ..< unat b + unat n}
      | CapFrame b _ \<Rightarrow> span b g
      | CapPageTable b _ \<Rightarrow> span b g
      | CapTcb b \<Rightarrow> span b g
      | CapEndpoint b \<Rightarrow> span b g
      | _ \<Rightarrow> {})"

definition owned_bytes :: "u64 \<Rightarrow> cnode \<Rightarrow> nat set" where
  "owned_bytes g cn = (\<Union>c \<in> set (cnode_slots cn). cap_bytes g c)"

text \<open>No two entries of a list of sets share an element.\<close>

definition disj_list :: "nat set list \<Rightarrow> bool" where
  "disj_list xs \<longleftrightarrow> sorted_wrt (\<lambda>A B. A \<inter> B = {}) xs"

lemma disj_list_Nil [simp]: "disj_list []"
  by (simp add: disj_list_def)

lemma disj_list_append:
  "disj_list (xs @ ys) \<longleftrightarrow> disj_list xs \<and> disj_list ys \<and> (\<forall>A \<in> set xs. \<forall>B \<in> set ys. A \<inter> B = {})"
  by (simp add: disj_list_def sorted_wrt_append)

lemma disj_list_snoc:
  "disj_list (xs @ [A]) \<longleftrightarrow> disj_list xs \<and> (\<forall>B \<in> set xs. B \<inter> A = {})"
  by (simp add: disj_list_def sorted_wrt_append)

lemma disj_list_nth:
  "disj_list xs \<longleftrightarrow> (\<forall>i < length xs. \<forall>j < length xs. i \<noteq> j \<longrightarrow> xs ! i \<inter> xs ! j = {})"
  unfolding disj_list_def sorted_wrt_iff_nth_less
proof (intro iffI allI impI)
  fix i j
  assume *: "\<forall>i j. i < j \<longrightarrow> j < length xs \<longrightarrow> xs ! i \<inter> xs ! j = {}"
    and "i < length xs" "j < length xs" "i \<noteq> j"
  then consider "i < j" | "j < i" by linarith
  then show "xs ! i \<inter> xs ! j = {}"
    using * \<open>i < length xs\<close> \<open>j < length xs\<close> by cases (auto simp: Int_commute)
qed simp

lemma disj_list_shrink_entry:
  assumes "disj_list xs" "A \<subseteq> xs ! i"
  shows "disj_list (xs[i := A])"
  unfolding disj_list_nth
proof (intro allI impI)
  fix j k
  assume "j < length (xs[i := A])" "k < length (xs[i := A])" "j \<noteq> k"
  moreover from this have "xs ! j \<inter> xs ! k = {}"
    using assms(1) by (simp add: disj_list_nth)
  ultimately show "xs[i := A] ! j \<inter> xs[i := A] ! k = {}"
    using assms(2) by (cases "j = i"; cases "k = i") auto
qed

lemma disj_list_split_entry:
  assumes d: "disj_list xs" and i: "i < length xs"
    and A: "A \<subseteq> xs ! i" and B: "B \<subseteq> xs ! i" and AB: "A \<inter> B = {}"
  shows "disj_list (xs[i := A] @ [B])"
proof -
  have "C \<inter> B = {}" if "C \<in> set (xs[i := A])" for C
  proof -
    from that obtain j where j: "j < length xs" and C: "C = xs[i := A] ! j"
      by (auto simp: in_set_conv_nth)
    have "j \<noteq> i \<Longrightarrow> xs ! j \<inter> xs ! i = {}"
      using d i j by (simp add: disj_list_nth)
    with C j B AB show ?thesis
      by (cases "j = i") auto
  qed
  then show ?thesis
    using disj_list_shrink_entry [OF d A] by (simp add: disj_list_snoc)
qed

section \<open>The bootstrap\<close>

definition region_bytes :: "phys_region \<Rightarrow> nat set" where
  "region_bytes r = span (pr_base r) (pr_size r)"

definition valid_region :: "phys_region \<Rightarrow> bool" where
  "valid_region r \<longleftrightarrow> pr_size r \<noteq> 0 \<and> unat (pr_base r) + unat (pr_size r) < 18446744073709551616"

lemma pr_end_valid: "valid_region r \<Longrightarrow> pr_end r = Inr (pr_base r + pr_size r)"
  by (simp add: valid_region_def pr_end_def add_pn_ok)

lemma unat_region_end:
  "valid_region r \<Longrightarrow> unat (pr_base r + pr_size r) = unat (pr_base r) + unat (pr_size r)"
  by (simp add: valid_region_def unat_add_64)

text \<open>The interesting reserved ranges: those that reach past the cursor and start in the region.\<close>

abbreviation relevant :: "u64 \<Rightarrow> u64 \<Rightarrow> phys_region \<Rightarrow> bool" where
  "relevant cursor m_end r \<equiv> cursor < pr_base r + pr_size r \<and> pr_base r < m_end"

lemma next_reserved_valid:
  "next_reserved cursor m_end rs nxt = Inr res \<Longrightarrow> \<forall>r \<in> set rs. valid_region r"
proof (induction rs arbitrary: nxt)
  case (Cons q rs)
  then show ?case
    unfolding next_reserved_Cons by (auto simp: valid_region_def)
qed simp

lemma next_reserved_None:
  "next_reserved cursor m_end rs nxt = Inr None \<Longrightarrow>
     nxt = None \<and> (\<forall>r \<in> set rs. \<not> relevant cursor m_end r)"
proof (induction rs arbitrary: nxt)
  case (Cons q rs)
  have "lower_region nxt q \<noteq> None"
    by (simp add: lower_region_def split: option.split)
  with Cons show ?case
    unfolding next_reserved_Cons by (fastforce split: if_split_asm)
qed simp

lemma next_reserved_least:
  "next_reserved cursor m_end rs nxt = Inr (Some r) \<Longrightarrow>
     (\<forall>n. nxt = Some n \<longrightarrow> pr_base r \<le> pr_base n) \<and>
     (\<forall>q \<in> set rs. relevant cursor m_end q \<longrightarrow> pr_base r \<le> pr_base q)"
proof (induction rs arbitrary: nxt)
  case (Cons q rs)
  let ?n = "if relevant cursor m_end q then lower_region nxt q else nxt"
  have IH: "(\<forall>n. ?n = Some n \<longrightarrow> pr_base r \<le> pr_base n)"
    "\<forall>q \<in> set rs. relevant cursor m_end q \<longrightarrow> pr_base r \<le> pr_base q"
    using Cons.IH Cons.prems unfolding next_reserved_Cons by blast+
  show ?case
  proof (cases "relevant cursor m_end q")
    case True
    have "\<exists>n. lower_region nxt q = Some n \<and> pr_base n \<le> pr_base q \<and>
        (\<forall>k. nxt = Some k \<longrightarrow> pr_base n \<le> pr_base k)"
      by (cases nxt) (auto simp: lower_region_def)
    then obtain n where n: "lower_region nxt q = Some n" "pr_base n \<le> pr_base q"
        "\<forall>k. nxt = Some k \<longrightarrow> pr_base n \<le> pr_base k"
      by blast
    then have "pr_base r \<le> pr_base n"
      using IH(1) True by simp
    with n IH(2) show ?thesis by (auto intro: order_trans)
  next
    case False
    with IH show ?thesis by auto
  qed
qed simp

lemma next_reserved_ok:
  "\<forall>r \<in> set rs. valid_region r \<Longrightarrow> \<exists>res. next_reserved cursor m_end rs nxt = Inr res"
proof (induction rs arbitrary: nxt)
  case (Cons q rs)
  then show ?case
    unfolding next_reserved_Cons by (auto simp: valid_region_def)
qed simp

text \<open>The untyped capabilities \<open>us\<close> cover exactly the bytes of \<open>[lo, hi)\<close> outside \<open>R\<close>.\<close>

definition gaps :: "u64 \<Rightarrow> cap list \<Rightarrow> nat \<Rightarrow> nat \<Rightarrow> nat set \<Rightarrow> bool" where
  "gaps g us lo hi R \<longleftrightarrow>
     (\<forall>c \<in> set us. \<exists>b n. c = CapUntyped b n 0 \<and> unat b + unat n < 18446744073709551616) \<and>
     disj_list (map (cap_bytes g) us) \<and>
     (\<Union>c \<in> set us. cap_bytes g c) = {lo ..< hi} - R"

lemma gaps_single:
  assumes "unat a \<le> unat b" "{unat a ..< unat b} \<inter> R = {}"
  shows "gaps g [CapUntyped a (b - a) 0] (unat a) (unat b) R"
proof -
  have "unat a + unat (b - a) = unat b"
    using assms(1) by (simp add: unat_sub_64)
  then show ?thesis
    using assms(2) by (auto simp: gaps_def cap_bytes_def disj_list_def)
qed

lemma gaps_Nil: "{lo ..< hi} \<subseteq> R \<Longrightarrow> gaps g [] lo hi R"
  by (auto simp: gaps_def)

lemma gaps_append:
  assumes "gaps g us lo mid R" "gaps g vs mid' hi R" "mid \<le> mid'" "{mid ..< mid'} \<subseteq> R"
    "lo \<le> mid" "mid' \<le> hi"
  shows "gaps g (us @ vs) lo hi R"
proof -
  have "cap_bytes g c \<inter> cap_bytes g d = {}" if "c \<in> set us" "d \<in> set vs" for c d
  proof -
    have "cap_bytes g c \<subseteq> {lo ..< mid}" "cap_bytes g d \<subseteq> {mid' ..< hi}"
      using assms(1,2) that by (auto simp: gaps_def)
    then show ?thesis using assms(3) by fastforce
  qed
  moreover have "{lo ..< hi} - R = ({lo ..< mid} - R) \<union> ({mid' ..< hi} - R)"
    using assms(3-6) by (auto simp: subset_iff) (metis leI)
  ultimately show ?thesis
    using assms(1,2) by (auto simp: gaps_def disj_list_append)
qed

text \<open>One pass of the cursor: nothing reserved lies between the cursor and the range it finds.\<close>

abbreviation regions_bytes :: "phys_region list \<Rightarrow> nat set" where
  "regions_bytes rs \<equiv> (\<Union>r \<in> set rs. region_bytes r)"

lemma region_bytes_valid:
  "valid_region r \<Longrightarrow> region_bytes r = {unat (pr_base r) ..< unat (pr_base r + pr_size r)}"
  by (simp add: region_bytes_def span_def unat_region_end)

lemma nothing_relevant_free:
  assumes "\<forall>r \<in> set rs. valid_region r" "\<forall>r \<in> set rs. \<not> relevant cursor m_end r"
  shows "{unat cursor ..< unat m_end} \<inter> regions_bytes rs = {}"
proof -
  have "{unat cursor ..< unat m_end} \<inter> region_bytes r = {}" if "r \<in> set rs" for r
    using assms that by (auto simp: region_bytes_valid word_order_unat)
  then show ?thesis by blast
qed

lemma before_next_free:
  assumes "next_reserved cursor m_end rs None = Inr (Some r)"
  shows "{unat cursor ..< unat (pr_base r)} \<inter> regions_bytes rs = {}"
proof (rule nothing_relevant_free)
  show "\<forall>q \<in> set rs. valid_region q"
    using assms by (rule next_reserved_valid)
  show "\<forall>q \<in> set rs. \<not> relevant cursor (pr_base r) q"
    using next_reserved_least [OF assms] next_reserved_mem [OF assms] by fastforce
qed

text \<open>The piece of \<open>[cursor, m_end)\<close> that the found range cuts off.\<close>

lemma gap_before_next:
  assumes nr: "next_reserved cursor m_end rs None = Inr (Some r)" and cm: "cursor \<le> m_end"
    and push: "(if cursor < pr_base r
                then cnode_push (CapUntyped cursor (min (pr_base r) m_end - cursor) 0) cn
                else Inr cn) = Inr cn'"
    and ok: "cnode_ok cn"
  shows "\<exists>us. cnode_ok cn' \<and> cnode_slots cn' = cnode_slots cn @ us \<and>
           gaps g us (unat cursor) (max (unat cursor) (unat (pr_base r))) (regions_bytes rs)"
proof (cases "cursor < pr_base r")
  case True
  have "pr_base r < m_end"
    using next_reserved_mem [OF nr] by auto
  then have "min (pr_base r) m_end = pr_base r"
    by simp
  with True push have "cnode_push (CapUntyped cursor (pr_base r - cursor) 0) cn = Inr cn'"
    by simp
  then have "cnode_ok cn'"
    "cnode_slots cn' = cnode_slots cn @ [CapUntyped cursor (pr_base r - cursor) 0]"
    using cnode_push_Inr ok by blast+
  moreover have "gaps g [CapUntyped cursor (pr_base r - cursor) 0] (unat cursor) (unat (pr_base r))
      (regions_bytes rs)"
    using True before_next_free [OF nr] by (intro gaps_single) (auto simp: unat_simps)
  ultimately show ?thesis
    using True by (auto simp: unat_simps max_def)
next
  case False
  with push ok show ?thesis
    by (intro exI [of _ "[]"]) (auto simp: gaps_def unat_simps max_def)
qed

text \<open>The piece after the last reserved range.\<close>

lemma gap_after_last:
  assumes nr: "next_reserved cursor m_end rs None = Inr None" and cm: "cursor \<le> m_end"
    and push: "(if cursor < m_end then cnode_push (CapUntyped cursor (m_end - cursor) 0) cn
                else Inr cn) = Inr cn'"
    and ok: "cnode_ok cn"
  shows "\<exists>us. cnode_ok cn' \<and> cnode_slots cn' = cnode_slots cn @ us \<and>
           gaps g us (unat cursor) (unat m_end) (regions_bytes rs)"
proof (cases "cursor < m_end")
  case True
  have "{unat cursor ..< unat m_end} \<inter> regions_bytes rs = {}"
    using nothing_relevant_free [OF next_reserved_valid [OF nr]] next_reserved_None [OF nr] by blast
  with True have "gaps g [CapUntyped cursor (m_end - cursor) 0] (unat cursor) (unat m_end)
      (regions_bytes rs)"
    by (intro gaps_single) (auto simp: word_order_unat)
  moreover have "cnode_ok cn' \<and> cnode_slots cn' = cnode_slots cn @ [CapUntyped cursor (m_end - cursor) 0]"
    using cnode_push_Inr [OF _ ok] push True by auto
  ultimately show ?thesis by blast
next
  case False
  with push ok show ?thesis
    by (intro exI [of _ "[]"]) (auto simp: word_order_unat intro!: gaps_Nil)
qed

text \<open>Two runs of the cursor that meet at a reserved range cover the whole region.\<close>

lemma gaps_around_reserved:
  assumes nr: "next_reserved cursor m_end rs None = Inr (Some r)" and cm: "cursor \<le> m_end"
    and us: "gaps g us (unat cursor) (max (unat cursor) (unat (pr_base r))) (regions_bytes rs)"
    and vs: "gaps g vs (min (unat m_end) (unat (pr_base r + pr_size r))) (unat m_end) (regions_bytes rs)"
  shows "gaps g (us @ vs) (unat cursor) (unat m_end) (regions_bytes rs)"
proof (rule gaps_append [OF us vs])
  have r: "r \<in> set rs" "valid_region r" "cursor < pr_base r + pr_size r" "pr_base r < m_end"
    using next_reserved_mem [OF nr] next_reserved_valid [OF nr] by auto
  then have "region_bytes r \<subseteq> regions_bytes rs" by blast
  then show "{max (unat cursor) (unat (pr_base r)) ..< min (unat m_end) (unat (pr_base r + pr_size r))}
      \<subseteq> regions_bytes rs"
    using r(2) by (auto simp: region_bytes_valid)
  show "max (unat cursor) (unat (pr_base r)) \<le> min (unat m_end) (unat (pr_base r + pr_size r))"
    using r cm by (auto simp: word_order_unat unat_region_end)
qed auto

lemma untyped_loop_gaps:
  assumes "untyped_loop rs m_end cursor cn = Inr (Inr cn')" "cnode_ok cn" "cursor \<le> m_end"
  shows "\<exists>us. cnode_ok cn' \<and> cnode_slots cn' = cnode_slots cn @ us \<and>
           gaps g us (unat cursor) (unat m_end) (regions_bytes rs)"
  using assms
proof (induction rs m_end cursor cn rule: untyped_loop.induct)
  case (1 rs m_end cursor cn)
  note step = untyped_loop.simps [of rs m_end cursor cn]
  from "1.prems"(1) obtain opt where nr: "next_reserved cursor m_end rs None = Inr opt"
    by (cases "next_reserved cursor m_end rs None") (auto simp: step)
  show ?case
  proof (cases opt)
    case None
    with nr "1.prems" show ?thesis
      by (intro gap_after_last) (auto simp: step)
  next
    case (Some r)
    with nr have nr': "next_reserved cursor m_end rs None = Inr (Some r)" by simp
    define r_end where "r_end = pr_base r + pr_size r"
    have r: "cursor < r_end" "valid_region r"
      using next_reserved_mem [OF nr'] next_reserved_valid [OF nr'] by (auto simp: r_end_def)
    then have pe: "pr_end r = Inr r_end" and mx: "max r_end cursor = r_end"
      by (simp_all add: pr_end_valid r_end_def)
    let ?push = "if cursor < pr_base r
        then cnode_push (CapUntyped cursor (min (pr_base r) m_end - cursor) 0) cn else Inr cn"
    from "1.prems"(1) obtain cn1 where push: "?push = Inr cn1"
      by (cases ?push) (simp_all add: step nr' pe)
    obtain us where us: "cnode_ok cn1" "cnode_slots cn1 = cnode_slots cn @ us"
        "gaps g us (unat cursor) (max (unat cursor) (unat (pr_base r))) (regions_bytes rs)"
      using gap_before_next [OF nr' "1.prems"(3) push "1.prems"(2)] by blast
    note around = gaps_around_reserved [OF nr' "1.prems"(3) us(3)]
    show ?thesis
    proof (cases "m_end \<le> r_end")
      case True
      then have "cn' = cn1"
        using "1.prems"(1) by (simp add: step nr' pe push)
      moreover have "gaps g (us @ []) (unat cursor) (unat m_end) (regions_bytes rs)"
        using True by (intro around gaps_Nil) (simp add: r_end_def word_order_unat)
      ultimately show ?thesis using us(1,2) by auto
    next
      case False
      then have le: "r_end \<le> m_end" by simp
      have "untyped_loop rs m_end r_end cn1 = Inr (Inr cn')"
        using False "1.prems"(1) by (simp add: step nr' pe push mx)
      then obtain vs where vs: "cnode_ok cn'" "cnode_slots cn' = cnode_slots cn1 @ vs"
          "gaps g vs (unat r_end) (unat m_end) (regions_bytes rs)"
        using "1.IH" [OF nr' refl pe push False] mx us(1) le by auto
      have "gaps g (us @ vs) (unat cursor) (unat m_end) (regions_bytes rs)"
        using vs(3) False by (intro around) (simp add: r_end_def word_order_unat)
      with us(1,2) vs(1,2) show ?thesis by auto
    qed
  qed
qed

text \<open>The bootstrap never panics, whatever ranges it is given.\<close>

lemma untyped_loop_no_halt: "untyped_loop rs m_end cursor cn \<noteq> Inl h"
proof (induction rs m_end cursor cn rule: untyped_loop.induct)
  case (1 rs m_end cursor cn)
  show ?case
  proof (cases "next_reserved cursor m_end rs None")
    case (Inr opt)
    show ?thesis
    proof (cases opt)
      case (Some r)
      with Inr have nr: "next_reserved cursor m_end rs None = Inr (Some r)" by simp
      then have "valid_region r"
        using next_reserved_mem next_reserved_valid by blast
      then have "pr_end r = Inr (pr_base r + pr_size r)"
        by (rule pr_end_valid)
      with nr "1.IH" [OF Inr Some this] show ?thesis
        by (auto simp: untyped_loop.simps [of rs m_end cursor cn] split: sum.splits)
    qed (use Inr in \<open>simp add: untyped_loop.simps [of rs m_end cursor cn]\<close>)
  qed (simp add: untyped_loop.simps [of rs m_end cursor cn])
qed

lemma any_overlap_valid:
  assumes "valid_region m" "\<forall>r \<in> set rs. valid_region r"
  shows "any_overlap m rs = Inr (\<exists>r \<in> set rs. region_bytes r \<inter> region_bytes m \<noteq> {})"
  using assms(2)
proof (induction rs)
  case (Cons r rs)
  have "region_bytes r \<inter> region_bytes m \<noteq> {} \<longleftrightarrow>
      pr_base r < pr_base m + pr_size m \<and> pr_base m < pr_base r + pr_size r"
    using Cons.prems assms(1)
    by (auto simp: region_bytes_def span_disjoint_iff valid_region_def unat_simps unat_add_64)
  with Cons assms(1) show ?case
    by (auto simp: pr_end_valid)
qed simp

definition memory_ok :: "phys_region list \<Rightarrow> bool" where
  "memory_ok ms \<longleftrightarrow> (\<forall>m \<in> set ms. valid_region m) \<and> disj_list (map region_bytes ms)"

lemma check_memory_valid:
  assumes "memory_ok seen"
  shows "check_memory seen ms = Inr (if memory_ok (seen @ ms) then Inr () else Inl CapBadRegion)"
  using assms
proof (induction seen ms rule: check_memory.induct)
  case (2 seen m ms)
  show ?case
  proof (cases "valid_region m")
    case True
    then have step: "any_overlap m seen = Inr (\<exists>r \<in> set seen. region_bytes r \<inter> region_bytes m \<noteq> {})"
      using "2.prems" by (simp add: any_overlap_valid memory_ok_def)
    from True have guard: "\<not> (pr_size m = 0 \<or> checked_add (pr_base m) (pr_size m) = None)"
      by (auto simp: valid_region_def checked_add_None)
    show ?thesis
    proof (cases "\<exists>r \<in> set seen. region_bytes r \<inter> region_bytes m \<noteq> {}")
      case True
      with step guard show ?thesis
        by (auto simp: memory_ok_def disj_list_append)
    next
      case False
      with True "2.prems" have "memory_ok (seen @ [m])"
        by (auto simp: memory_ok_def disj_list_snoc)
      with "2.IH" [OF guard, of False] False step guard show ?thesis
        by simp
    qed
  next
    case False
    then show ?thesis
      by (auto simp: memory_ok_def valid_region_def checked_add_None)
  qed
qed simp

lemma push_all_untypeds_gaps:
  assumes "push_all_untypeds cn ms rs = Inr (Inr cn')" "cnode_ok cn" "memory_ok ms"
  shows "\<exists>us. cnode_ok cn' \<and> cnode_slots cn' = cnode_slots cn @ us \<and>
           (\<forall>c \<in> set us. \<exists>b n. c = CapUntyped b n 0 \<and> unat b + unat n < 18446744073709551616) \<and>
           disj_list (map (cap_bytes g) us) \<and>
           (\<Union>c \<in> set us. cap_bytes g c) = regions_bytes ms - regions_bytes rs"
  using assms
proof (induction cn ms rs rule: push_all_untypeds.induct)
  case (1 cn rs)
  then show ?case by (intro exI [of _ "[]"]) simp
next
  case (2 cn m ms rs)
  from "2.prems"(3) have m: "valid_region m" and ms: "memory_ok ms"
    and sep: "\<forall>n \<in> set ms. region_bytes m \<inter> region_bytes n = {}"
    using disj_list_append [of "[region_bytes m]" "map region_bytes ms"]
    by (auto simp: memory_ok_def)
  from "2.prems"(1) obtain c1 where c1: "push_untypeds cn m rs = Inr (Inr c1)"
      and rest: "push_all_untypeds c1 ms rs = Inr (Inr cn')"
    by (auto simp: and_then_Inr result_case_Inr)
  have "pr_base m \<le> pr_base m + pr_size m"
    using m by (simp add: unat_simps unat_region_end)
  with c1 m "2.prems"(2) obtain us where us: "cnode_ok c1" "cnode_slots c1 = cnode_slots cn @ us"
      "gaps g us (unat (pr_base m)) (unat (pr_base m + pr_size m)) (regions_bytes rs)"
    using untyped_loop_gaps [where g = g] by (fastforce simp: push_untypeds_def pr_end_valid)
  from us(3) have ub: "(\<Union>c \<in> set us. cap_bytes g c) = region_bytes m - regions_bytes rs"
    using m by (simp add: gaps_def region_bytes_valid)
  obtain vs where vs: "cnode_ok cn'" "cnode_slots cn' = cnode_slots c1 @ vs"
      "\<forall>c \<in> set vs. \<exists>b n. c = CapUntyped b n 0 \<and> unat b + unat n < 18446744073709551616"
      "disj_list (map (cap_bytes g) vs)"
      "(\<Union>c \<in> set vs. cap_bytes g c) = regions_bytes ms - regions_bytes rs"
    using "2.IH" [OF c1 refl rest us(1) ms] by blast
  have "cap_bytes g c \<inter> cap_bytes g d = {}" if "c \<in> set us" "d \<in> set vs" for c d
    using that ub vs(5) sep by blast
  then have "disj_list (map (cap_bytes g) (us @ vs))"
    using us(3) vs(4) by (auto simp: gaps_def disj_list_append)
  moreover have "(\<Union>c \<in> set (us @ vs). cap_bytes g c) =
      regions_bytes (m # ms) - regions_bytes rs"
    using ub vs(5) by auto
  ultimately show ?case
    using us vs by (intro exI [of _ "us @ vs"]) (auto simp: gaps_def)
qed

section \<open>The capability invariant\<close>

definition cap_ok :: "u64 \<Rightarrow> cap \<Rightarrow> bool" where
  "cap_ok g c =
     (case c of
        CapUntyped b n u \<Rightarrow> unat b + unat n < 18446744073709551616 \<and> u \<le> n
      | CapFrame b _ \<Rightarrow> aligned g b \<and> unat b + unat g < 18446744073709551616
      | CapPageTable b _ \<Rightarrow> aligned g b \<and> unat b + unat g < 18446744073709551616
      | CapTcb b \<Rightarrow> aligned g b \<and> unat b + unat g < 18446744073709551616
      | CapEndpoint b \<Rightarrow> aligned g b \<and> unat b + unat g < 18446744073709551616
      | _ \<Rightarrow> True)"

text \<open>
  Every slot in use holds a sound capability, and no byte of memory belongs to two of them:
  neither to two objects, nor to an object and the free part of an untyped capability.
\<close>

definition cap_inv :: "u64 \<Rightarrow> cnode \<Rightarrow> bool" where
  "cap_inv g cn \<longleftrightarrow>
     cnode_ok cn \<and> (\<forall>c \<in> set (cnode_slots cn). cap_ok g c) \<and>
     disj_list (map (cap_bytes g) (cnode_slots cn))"

lemma cap_inv_nth:
  assumes "cap_inv g cn" "i < used cn" "j < used cn" "i \<noteq> j"
  shows "cap_bytes g (slots cn ! i) \<inter> cap_bytes g (slots cn ! j) = {}"
proof -
  have "length (cnode_slots cn) = used cn"
    using assms(1) by (simp add: cap_inv_def)
  with assms show ?thesis
    by (simp add: cap_inv_def disj_list_nth nth_cnode_slots)
qed

lemma cap_inv_ok_nth: "cap_inv g cn \<Longrightarrow> i < used cn \<Longrightarrow> cap_ok g (slots cn ! i)"
  by (metis cap_inv_def length_cnode_slots nth_cnode_slots nth_mem)

lemma carve_place_align_up:
  "carve_place base us (GRANULE p) = Some (carve, ce) \<longleftrightarrow>
     (\<exists>m. checked_add base us = Some m \<and> align_up p m = Some carve \<and>
          checked_add carve (GRANULE p) = Some ce)"
  by (auto simp: carve_place_def align_up_def Let_def split: option.splits)

lemma carve_place_SomeD:
  assumes "carve_place base us (GRANULE p) = Some (carve, ce)"
  shows "unat base + unat us \<le> unat carve" "unat ce = unat carve + unat (GRANULE p)"
    "aligned (GRANULE p) carve" "unat carve < unat base + unat us + unat (GRANULE p)"
proof -
  from assms obtain m where m: "checked_add base us = Some m" "align_up p m = Some carve"
      and ce: "checked_add carve (GRANULE p) = Some ce"
    by (auto simp: carve_place_align_up)
  note um = checked_add_SomeD [OF m(1)]
  show "unat ce = unat carve + unat (GRANULE p)"
    using ce by (rule checked_add_SomeD)
  show "unat base + unat us \<le> unat carve" "aligned (GRANULE p) carve"
    "unat carve < unat base + unat us + unat (GRANULE p)"
    using align_up_SomeD [OF m(2)] um by simp_all
qed

text \<open>Every way \<open>retype\<close> can return a slot.\<close>

lemma retype_success:
  assumes "retype slot kind g prep cn s = Inr (Inr v, cn', s')"
  obtains base sz us carve ce where
    "unat slot < used cn" "slots cn ! unat slot = CapUntyped base sz us" "used cn \<noteq> CNODE_SLOTS"
    "carve_place base us g = Some (carve, ce)" "unat base + unat sz < 18446744073709551616"
    "ce \<le> base + sz" "prep carve s = Inr (True, s')" "v = of_nat (used cn)"
    "cn' = cn\<lparr>slots := (slots cn)[unat slot := CapUntyped base sz (ce - base), used cn := new_cap kind carve],
              used := used cn + 1\<rparr>"
proof -
  from assms have slot: "unat slot < used cn"
    by (auto simp: retype_def split: if_split_asm)
  from assms slot obtain base sz us where u: "slots cn ! unat slot = CapUntyped base sz us"
    by (cases "slots cn ! unat slot") (simp_all add: retype_def)
  from assms slot u have room: "used cn \<noteq> CNODE_SLOTS"
    by (auto simp: retype_def)
  from assms slot u room obtain carve ce where c: "carve_place base us g = Some (carve, ce)"
    by (cases "carve_place base us g") (auto simp: retype_def)
  from assms slot u room c have lim: "unat base + unat sz < 18446744073709551616" "ce \<le> base + sz"
    by (auto simp: retype_def and_then_Inr add_pn_Inr split: if_split_asm)
  with assms slot u room c obtain ok where "prep carve s = Inr (ok, s')"
    by (auto simp: retype_def and_then_Inr add_pn_ok Let_def split: if_split_asm sum.split_asm)
  with assms slot u room c lim show thesis
    by (intro that [OF slot u room c lim])
      (auto simp: retype_def add_pn_ok cnode_push_def Let_def split: if_split_asm)
qed

lemma retype_error_unchanged:
  assumes "retype slot kind g prep cn s = Inr (Inl e, cn', s')"
  shows "cn' = cn"
  using assms unfolding retype_def
  by (auto simp: and_then_Inr cnode_push_def Let_def
      split: if_split_asm cap.split_asm option.split_asm prod.split_asm)

text \<open>What carving does to the memory of the untyped capability.\<close>

lemma carve_bytes:
  assumes "carve_place base us (GRANULE p) = Some (carve, ce)"
    "unat base + unat sz < 18446744073709551616" "ce \<le> base + sz"
  shows "cap_bytes (GRANULE p) (CapUntyped base sz (ce - base)) \<subseteq> cap_bytes (GRANULE p) (CapUntyped base sz us)"
    "cap_bytes (GRANULE p) (new_cap kind carve) \<subseteq> cap_bytes (GRANULE p) (CapUntyped base sz us)"
    "cap_bytes (GRANULE p) (CapUntyped base sz (ce - base)) \<inter> cap_bytes (GRANULE p) (new_cap kind carve) = {}"
    "cap_ok (GRANULE p) (CapUntyped base sz (ce - base))" "cap_ok (GRANULE p) (new_cap kind carve)"
proof -
  note c = carve_place_SomeD [OF assms(1)]
  have le: "unat ce \<le> unat base + unat sz"
    using assms(2,3) by (simp add: word_order_unat unat_add_64)
  have w: "unat (ce - base) = unat ce - unat base"
    using c by (intro unat_sub_64) linarith
  have nb: "cap_bytes (GRANULE p) (new_cap kind carve) = {unat carve ..< unat ce}"
    using c(2) by (cases kind) (simp_all add: new_cap_def cap_bytes_def span_def)
  have ub: "cap_bytes (GRANULE p) (CapUntyped base sz (ce - base)) = {unat ce ..< unat base + unat sz}"
    using c w by (simp add: cap_bytes_def)
  show "cap_bytes (GRANULE p) (CapUntyped base sz (ce - base)) \<subseteq> cap_bytes (GRANULE p) (CapUntyped base sz us)"
    "cap_bytes (GRANULE p) (new_cap kind carve) \<subseteq> cap_bytes (GRANULE p) (CapUntyped base sz us)"
    using c le unfolding ub nb by (auto simp: cap_bytes_def)
  show "cap_bytes (GRANULE p) (CapUntyped base sz (ce - base)) \<inter> cap_bytes (GRANULE p) (new_cap kind carve) = {}"
    unfolding ub nb by auto
  show "cap_ok (GRANULE p) (CapUntyped base sz (ce - base))"
    using assms(2) c le w by (simp add: cap_ok_def word_order_unat)
  show "cap_ok (GRANULE p) (new_cap kind carve)"
    using c(2,3) unat_lt_64 [of ce] by (cases kind) (simp_all add: new_cap_def cap_ok_def)
qed

lemma retype_success_slots:
  assumes "cnode_ok cn" "i < used cn" "used cn \<noteq> CNODE_SLOTS"
    "cn' = cn\<lparr>slots := (slots cn)[i := c, used cn := d], used := used cn + 1\<rparr>"
  shows "cnode_ok cn'" "cnode_slots cn' = (cnode_slots cn)[i := c] @ [d]"
proof -
  have "used cn < length ((slots cn)[i := c])"
    using assms(1,3) by (simp add: cnode_ok_def)
  then have "take (Suc (used cn)) ((slots cn)[i := c, used cn := d]) = take (used cn) ((slots cn)[i := c]) @ [d]"
    by (simp add: take_Suc_conv_app_nth)
  then show "cnode_slots cn' = (cnode_slots cn)[i := c] @ [d]"
    using assms(4) by (simp add: cnode_slots_def take_update_swap)
qed (use assms in \<open>simp add: cnode_ok_def\<close>)

lemma retype_inv:
  assumes inv: "cap_inv (GRANULE p) cn"
    and run: "retype slot kind (GRANULE p) prep cn s = Inr (res, cn', s')"
  shows "cap_inv (GRANULE p) cn'"
proof (cases res)
  case (Inl e)
  with run inv show ?thesis by (auto dest: retype_error_unchanged)
next
  case (Inr v)
  with run obtain base sz us carve ce where r:
    "unat slot < used cn" "slots cn ! unat slot = CapUntyped base sz us" "used cn \<noteq> CNODE_SLOTS"
    and c: "carve_place base us (GRANULE p) = Some (carve, ce)"
    "unat base + unat sz < 18446744073709551616" "ce \<le> base + sz"
    and cn': "cn' = cn\<lparr>slots := (slots cn)[unat slot := CapUntyped base sz (ce - base), used cn := new_cap kind carve],
              used := used cn + 1\<rparr>"
    by (auto elim: retype_success)
  have ok: "cnode_ok cn" using inv by (simp add: cap_inv_def)
  note sl = retype_success_slots [OF ok r(1,3) cn']
  have at: "map (cap_bytes (GRANULE p)) (cnode_slots cn) ! unat slot =
      cap_bytes (GRANULE p) (CapUntyped base sz us)"
    using r ok by (simp add: nth_cnode_slots)
  have "disj_list (map (cap_bytes (GRANULE p)) (cnode_slots cn'))"
    unfolding sl map_append map_update list.map
    using inv r(1) ok carve_bytes(1) [OF c] carve_bytes(2,3) [OF c, of kind] unfolding at [symmetric]
    by (intro disj_list_split_entry) (simp_all add: cap_inv_def)
  moreover have "\<forall>x \<in> set (cnode_slots cn'). cap_ok (GRANULE p) x"
    using inv carve_bytes(4,5) [OF c] set_update_subset_insert unfolding sl cap_inv_def by fastforce
  ultimately show ?thesis
    using sl(1) by (simp add: cap_inv_def)
qed

section \<open>The bootstrap, as a whole\<close>

lemma untyped_loop_not_bad:
  assumes "\<forall>r \<in> set rs. valid_region r"
  shows "untyped_loop rs m_end cursor cn \<noteq> Inr (Inl CapBadRegion)"
  using assms
proof (induction rs m_end cursor cn rule: untyped_loop.induct)
  case (1 rs m_end cursor cn)
  note step = untyped_loop.simps [of rs m_end cursor cn]
  obtain opt where nr: "next_reserved cursor m_end rs None = Inr opt"
    using next_reserved_ok [OF "1.prems"] by blast
  show ?case
  proof (cases opt)
    case (Some r)
    with nr "1.prems" have pe: "pr_end r = Inr (pr_base r + pr_size r)"
      using next_reserved_mem [of cursor m_end rs None r] by (auto intro: pr_end_valid)
    show ?thesis
      using "1.IH" [OF nr Some pe] "1.prems"
      by (auto simp: step nr Some pe cnode_push_def)
  qed (auto simp: step nr cnode_push_def)
qed

lemma next_reserved_bad:
  "\<not> (\<forall>r \<in> set rs. valid_region r) \<Longrightarrow> next_reserved cursor m_end rs nxt = Inl CapBadRegion"
proof (induction rs arbitrary: nxt)
  case (Cons q rs)
  then show ?case
    by (cases "valid_region q") (auto simp: valid_region_def checked_add_def)
qed simp

lemma push_all_untypeds_total:
  assumes "\<forall>m \<in> set ms. valid_region m"
  shows "push_all_untypeds cn ms rs \<noteq> Inl h"
    and "push_all_untypeds cn ms rs = Inr (Inl CapBadRegion) \<longleftrightarrow>
           ms \<noteq> [] \<and> (\<exists>r \<in> set rs. \<not> valid_region r)"
proof -
  have 1: "push_untypeds cn m rs \<noteq> Inl h" if "valid_region m" for cn m
    using that untyped_loop_no_halt by (simp add: push_untypeds_def pr_end_valid)
  have 2: "push_untypeds cn m rs = Inr (Inl CapBadRegion) \<longleftrightarrow> (\<exists>r \<in> set rs. \<not> valid_region r)"
    if "valid_region m" for cn m
  proof (cases "\<forall>r \<in> set rs. valid_region r")
    case True
    with that show ?thesis
      using untyped_loop_not_bad [of rs] by (simp add: push_untypeds_def pr_end_valid)
  next
    case False
    with that show ?thesis
      using next_reserved_bad [of rs]
      by (simp add: push_untypeds_def pr_end_valid untyped_loop.simps [of rs _ "pr_base m" cn])
  qed
  have "push_all_untypeds cn ms rs \<noteq> Inl h \<and>
      (push_all_untypeds cn ms rs = Inr (Inl CapBadRegion) \<longleftrightarrow>
         ms \<noteq> [] \<and> (\<exists>r \<in> set rs. \<not> valid_region r))"
    using assms
  proof (induction ms arbitrary: cn)
    case (Cons m ms)
    then have m: "valid_region m" by simp
    obtain res where res: "push_untypeds cn m rs = Inr res"
      using 1 [OF m, of cn] by (cases "push_untypeds cn m rs") (auto simp: push_untypeds_def
          pr_end_valid [OF m] untyped_loop_no_halt)
    with Cons 2 [OF m, of cn] show ?case
      by (cases res) (auto simp: res)
  qed simp
  then show "push_all_untypeds cn ms rs \<noteq> Inl h"
    "push_all_untypeds cn ms rs = Inr (Inl CapBadRegion) \<longleftrightarrow>
       ms \<noteq> [] \<and> (\<exists>r \<in> set rs. \<not> valid_region r)"
    by blast+
qed

text \<open>The four boot capabilities always fit, so the bootstrap is the validation and the carving.\<close>

definition boot_caps :: "u64 \<Rightarrow> cnode" where
  "boot_caps root = \<lparr>slots = [CapEmpty, CapRootTcb, CapAddrSpace root, CapConsole] @ replicate 28 CapEmpty,
     used = 4\<rparr>"

lemma bootstrap_alt:
  "bootstrap ms rs root =
     (if memory_ok ms then push_all_untypeds (boot_caps root) ms rs else Inr (Inl CapBadRegion))"
proof -
  have "memory_ok []" by (simp add: memory_ok_def)
  note chk = check_memory_valid [OF this, of ms]
  have "and_then (cnode_push CapEmpty ROOT_CNODE) (\<lambda>c1. and_then (cnode_push CapRootTcb c1)
      (\<lambda>c2. and_then (cnode_push (CapAddrSpace root) c2) (cnode_push CapConsole))) = Inr (boot_caps root)"
    by (simp add: cnode_push_def ROOT_CNODE_def CNODE_SLOTS_def boot_caps_def numeral_eq_Suc)
  then show ?thesis
    unfolding bootstrap_def populate_def chk by simp
qed

lemma boot_caps_slots:
  "cnode_ok (boot_caps root)"
  "cnode_slots (boot_caps root) = [CapEmpty, CapRootTcb, CapAddrSpace root, CapConsole]"
  by (simp_all add: cnode_ok_def cnode_slots_def boot_caps_def CNODE_SLOTS_def)

lemma bootstrap_success:
  assumes "bootstrap ms rs root = Inr (Inr cn)"
  shows "\<exists>us. cnode_slots cn = [CapEmpty, CapRootTcb, CapAddrSpace root, CapConsole] @ us \<and>
           (\<forall>c \<in> set us. \<exists>b n. c = CapUntyped b n 0) \<and>
           (\<Union>c \<in> set us. cap_bytes g c) = regions_bytes ms - regions_bytes rs \<and> cap_inv g cn"
proof -
  from assms have ms: "memory_ok ms" and run: "push_all_untypeds (boot_caps root) ms rs = Inr (Inr cn)"
    by (auto simp: bootstrap_alt split: if_split_asm)
  obtain us where us: "cnode_ok cn" "cnode_slots cn = cnode_slots (boot_caps root) @ us"
      "\<forall>c \<in> set us. \<exists>b n. c = CapUntyped b n 0 \<and> unat b + unat n < 18446744073709551616"
      "disj_list (map (cap_bytes g) us)"
      "(\<Union>c \<in> set us. cap_bytes g c) = regions_bytes ms - regions_bytes rs"
    using push_all_untypeds_gaps [OF run boot_caps_slots(1) ms] by blast
  have "\<forall>c \<in> set us. cap_ok g c"
    using us(3) by (auto simp: cap_ok_def)
  with us have "cap_inv g cn"
    by (auto simp: cap_inv_def boot_caps_slots cap_ok_def disj_list_def cap_bytes_def)
  with us show ?thesis
    by (auto simp: boot_caps_slots)
qed

section \<open>Completeness of the carving\<close>

text \<open>\<open>fits g lo hi\<close>: an aligned granule lies in \<open>[lo, hi)\<close>.\<close>

definition fits :: "nat \<Rightarrow> nat \<Rightarrow> nat \<Rightarrow> bool" where
  "fits g lo hi \<longleftrightarrow> (\<exists>k. lo \<le> k * g \<and> k * g + g \<le> hi)"

lemma least_multiple:
  fixes c g lo k :: nat
  assumes "g dvd c" "c < lo + g" "lo \<le> k * g"
  shows "c \<le> k * g"
proof (rule ccontr)
  assume "\<not> c \<le> k * g"
  moreover from assms(1) obtain j where j: "c = j * g"
    by (metis dvd_div_mult_self)
  ultimately have "Suc k \<le> j"
    by (metis leI mult_le_mono1 not_less_eq_eq)
  then have "Suc k * g \<le> j * g" by (rule mult_le_mono1)
  with assms j show False by simp
qed

lemma carve_place_None:
  assumes none: "carve_place base us (GRANULE p) = None" and hi: "hi < 18446744073709551616"
  shows "\<not> fits (unat (GRANULE p)) (unat base + unat us) hi"
proof
  let ?g = "unat (GRANULE p)"
  assume "fits ?g (unat base + unat us) hi"
  then obtain k where k: "unat base + unat us \<le> k * ?g" "k * ?g + ?g \<le> hi"
    by (auto simp: fits_def)
  then obtain m where m: "checked_add base us = Some m"
    using hi GRANULE_bounds(1) [of p] by (cases "checked_add base us") (auto simp: checked_add_None)
  note um = checked_add_SomeD [OF m]
  have g1: "unat (GRANULE p - 1) = ?g - 1"
    using GRANULE_bounds(1) [of p] by (simp add: unat_sub_64)
  have "unat m + unat (GRANULE p - 1) < 18446744073709551616"
    unfolding g1 um using k hi by linarith
  then obtain c where c: "align_up p m = Some c"
    by (auto simp: align_up_def checked_add_def)
  have "unat c \<le> k * ?g"
    using align_up_SomeD(3) [OF c] align_up_SomeD(2) [OF c] k(1)
    unfolding aligned_dvd um [symmetric] by (rule least_multiple)
  then have "checked_add c (GRANULE p) = Some (c + GRANULE p)"
    using k(2) hi by (simp add: checked_add_def)
  with none m c show False
    by (metis carve_place_align_up not_None_eq surj_pair)
qed

lemma carve_place_beyond:
  assumes c: "carve_place base us (GRANULE p) = Some (carve, ce)" and "hi < unat ce"
  shows "\<not> fits (unat (GRANULE p)) (unat base + unat us) hi"
proof
  let ?g = "unat (GRANULE p)"
  assume "fits ?g (unat base + unat us) hi"
  then obtain k where k: "unat base + unat us \<le> k * ?g" "k * ?g + ?g \<le> hi"
    by (auto simp: fits_def)
  have "unat carve \<le> k * ?g"
    using carve_place_SomeD(3,4) [OF c] k(1) unfolding aligned_dvd by (rule least_multiple)
  with k(2) carve_place_SomeD(2) [OF c] assms(2) show False by linarith
qed

lemma retype_total:
  assumes "cap_inv (GRANULE p) cn"
    and "\<And>carve. span carve (GRANULE p) \<subseteq> owned_bytes (GRANULE p) cn \<Longrightarrow> \<exists>ok s'. prep carve s = Inr (ok, s')"
  shows "\<exists>res cn' s'. retype slot kind (GRANULE p) prep cn s = Inr (res, cn', s')"
proof (cases "unat slot < used cn")
  case slot: True
  show ?thesis
  proof (cases "slots cn ! unat slot")
    case (CapUntyped base sz us)
    have "cap_ok (GRANULE p) (CapUntyped base sz us)"
      using cap_inv_ok_nth [OF assms(1) slot] CapUntyped by simp
    then have lim: "unat base + unat sz < 18446744073709551616"
      by (simp add: cap_ok_def)
    show ?thesis
    proof (cases "carve_place base us (GRANULE p)")
      case (Some cc)
      obtain carve ce where c: "carve_place base us (GRANULE p) = Some (carve, ce)"
        using Some by (cases cc) auto
      show ?thesis
      proof (cases "base + sz < ce")
        case False
        have "CapUntyped base sz us \<in> set (cnode_slots cn)"
          using slot CapUntyped assms(1)
          by (metis cap_inv_def length_cnode_slots nth_cnode_slots nth_mem)
        moreover have "span carve (GRANULE p) = cap_bytes (GRANULE p) (new_cap ObjTcb carve)"
          by (simp add: new_cap_def cap_bytes_def)
        ultimately have "span carve (GRANULE p) \<subseteq> owned_bytes (GRANULE p) cn"
          using carve_bytes(2) [OF c lim leI [OF False], of ObjTcb] unfolding owned_bytes_def by blast
        then obtain ok s' where "prep carve s = Inr (ok, s')"
          using assms(2) by blast
        with slot CapUntyped c lim False show ?thesis
          by (simp add: retype_def add_pn_ok Let_def cnode_push_def)
      qed (use slot CapUntyped c lim in \<open>simp add: retype_def add_pn_ok\<close>)
    qed (use slot CapUntyped lim in \<open>simp add: retype_def\<close>)
  qed (use slot in \<open>simp_all add: retype_def\<close>)
qed (simp add: retype_def)

section \<open>Properties\<close>

text \<open>A failed retype leaves the caller's state alone, and no retype adds memory.\<close>

lemma retype_error_state:
  assumes inv: "cap_inv (GRANULE p) cn" and run: "retype slot kind (GRANULE p) prep cn s = Inr (Inl e, cn', s')"
    and prep: "\<And>carve s'. span carve (GRANULE p) \<subseteq> owned_bytes (GRANULE p) cn \<Longrightarrow> prep carve s = Inr (False, s') \<Longrightarrow> s' = s"
  shows "s' = s"
proof (cases "unat slot < used cn \<and> used cn \<noteq> CNODE_SLOTS \<and> (\<exists>b n u. slots cn ! unat slot = CapUntyped b n u)")
  case True
  then obtain b n u where slot: "unat slot < used cn" "used cn \<noteq> CNODE_SLOTS" "slots cn ! unat slot = CapUntyped b n u" by blast
  have lim: "unat b + unat n < 18446744073709551616"
    using cap_inv_ok_nth [OF inv slot(1)] slot(3) by (simp add: cap_ok_def)
  have mem: "CapUntyped b n u \<in> set (cnode_slots cn)"
    using slot inv by (metis cap_inv_def length_cnode_slots nth_cnode_slots nth_mem)
  show ?thesis
  proof (cases "carve_place b u (GRANULE p)")
    case (Some cc)
    obtain carve ce where c: "carve_place b u (GRANULE p) = Some (carve, ce)" using Some by (cases cc) auto
    have "span carve (GRANULE p) = cap_bytes (GRANULE p) (new_cap ObjTcb carve)"
      by (simp add: new_cap_def cap_bytes_def)
    then have sub: "span carve (GRANULE p) \<subseteq> owned_bytes (GRANULE p) cn" if "ce \<le> b + n"
      using carve_bytes(2) [OF c lim that, of ObjTcb] mem unfolding owned_bytes_def by blast
    have "prep carve s = Inr (False, x) \<Longrightarrow> \<not> b + n < ce \<Longrightarrow> x = s" for x
      using prep sub by (simp add: not_less)
    then show ?thesis
      using run slot c lim
      by (auto simp: retype_def add_pn_ok and_then_Inr cnode_push_def Let_def split: if_split_asm prod.split_asm)
  qed (use run slot in \<open>simp add: retype_def\<close>)
next
  case False
  then show ?thesis
    using run by (cases "slots cn ! unat slot") (auto simp: retype_def split: if_split_asm)
qed
lemma retype_owned:
  assumes inv: "cap_inv (GRANULE p) cn" and run: "retype slot kind (GRANULE p) prep cn s = Inr (res, cn', s')"
  shows "owned_bytes (GRANULE p) cn' \<subseteq> owned_bytes (GRANULE p) cn"
proof (cases res)
  case (Inl e)
  with run show ?thesis by (auto dest: retype_error_unchanged)
next
  case (Inr v)
  have ok: "cnode_ok cn" using inv by (simp add: cap_inv_def)
  from Inr run obtain base sz us carve ce where r:
    "unat slot < used cn" "slots cn ! unat slot = CapUntyped base sz us" "used cn \<noteq> CNODE_SLOTS"
    and c: "carve_place base us (GRANULE p) = Some (carve, ce)"
    "unat base + unat sz < 18446744073709551616" "ce \<le> base + sz"
    and cn': "cn' = cn\<lparr>slots := (slots cn)[unat slot := CapUntyped base sz (ce - base), used cn := new_cap kind carve],
              used := used cn + 1\<rparr>"
    by (auto elim: retype_success)
  have mem: "CapUntyped base sz us \<in> set (cnode_slots cn)"
    using r ok by (metis length_cnode_slots nth_cnode_slots nth_mem)
  have "set (cnode_slots cn') \<subseteq>
      insert (new_cap kind carve) (insert (CapUntyped base sz (ce - base)) (set (cnode_slots cn)))"
    using set_update_subset_insert unfolding retype_success_slots(2) [OF ok r(1,3) cn'] by fastforce
  then show ?thesis
    using carve_bytes(1) [OF c] carve_bytes(2) [OF c, of kind] mem unfolding owned_bytes_def by blast
qed

text \<open>
  C5. The bootstrap partitions memory: the root CNode it builds holds the four boot capabilities
  followed by fresh untyped capabilities, the bytes it owns are exactly the bytes of the memory map
  that no reserved range covers, and no byte belongs to two capabilities.
\<close>

theorem bootstrap_partitions_memory:
  assumes "bootstrap ms rs root = Inr (Inr cn)"
  shows "(\<exists>us. cnode_slots cn = [CapEmpty, CapRootTcb, CapAddrSpace root, CapConsole] @ us \<and>
            (\<forall>c \<in> set us. \<exists>b n. c = CapUntyped b n 0)) \<and>
         owned_bytes g cn = (\<Union>m \<in> set ms. region_bytes m) - (\<Union>r \<in> set rs. region_bytes r) \<and>
         cap_inv g cn"
proof -
  obtain us where us: "cnode_slots cn = [CapEmpty, CapRootTcb, CapAddrSpace root, CapConsole] @ us"
      "\<forall>c \<in> set us. \<exists>b n. c = CapUntyped b n 0"
      "(\<Union>c \<in> set us. cap_bytes g c) = regions_bytes ms - regions_bytes rs" "cap_inv g cn"
    using bootstrap_success [OF assms] by blast
  then have "owned_bytes g cn = regions_bytes ms - regions_bytes rs"
    by (auto simp: owned_bytes_def cap_bytes_def)
  with us show ?thesis by blast
qed

theorem bootstrap_partitions_memory_witness:
  "\<exists>cn. bootstrap [\<lparr>pr_base = 0x40000000, pr_size = 0x10000000\<rparr>]
          [\<lparr>pr_base = 0x40080000, pr_size = 0x20000\<rparr>] 0x48000000 = Inr (Inr cn) \<and>
        cnode_slots cn = [CapEmpty, CapRootTcb, CapAddrSpace 0x48000000, CapConsole,
          CapUntyped 0x40000000 0x80000 0, CapUntyped 0x400A0000 0xFF60000 0] \<and>
        owned_bytes 4096 cn = {0x40000000 ..< 0x50000000} - {0x40080000 ..< 0x400A0000}"
proof -
  let ?cn = "\<lparr>slots = [CapEmpty, CapRootTcb, CapAddrSpace 0x48000000, CapConsole,
      CapUntyped 0x40000000 0x80000 0, CapUntyped 0x400A0000 0xFF60000 0] @ replicate 26 CapEmpty, used = 6\<rparr>"
  have "replicate 28 CapEmpty = CapEmpty # CapEmpty # replicate 26 CapEmpty"
    by (simp add: numeral_eq_Suc)
  then have run: "bootstrap [\<lparr>pr_base = 0x40000000, pr_size = 0x10000000\<rparr>]
      [\<lparr>pr_base = 0x40080000, pr_size = 0x20000\<rparr>] 0x48000000 = Inr (Inr ?cn)"
    by (simp add: bootstrap_alt memory_ok_def valid_region_def disj_list_def boot_caps_def pr_end_def
        push_untypeds_def untyped_loop.simps cnode_push_def CNODE_SLOTS_def checked_add_def add_pn_def
        lower_region_def)
  have "owned_bytes 4096 ?cn = {0x40000000 ..< 0x50000000} - {0x40080000 ..< 0x400A0000}"
    using bootstrap_partitions_memory [OF run, of 4096] by (simp add: region_bytes_def span_def)
  then show ?thesis
    using run by (intro exI [of _ ?cn]) (simp add: cnode_slots_def)
qed

text \<open>
  C6. The bootstrap is total and its input validation is exact: it never panics, and it answers
  \<^verbatim>\<open>BadRegion\<close> exactly when a memory region is empty, leaves the 64-bit space or overlaps another,
  or a reserved range of a non-empty memory map is empty or leaves the 64-bit space.
\<close>

theorem bootstrap_total:
  "bootstrap ms rs root \<noteq> Inl h \<and>
   (bootstrap ms rs root = Inr (Inl CapBadRegion) \<longleftrightarrow>
      \<not> (memory_ok ms \<and> (ms = [] \<or> list_all valid_region rs)))"
  using push_all_untypeds_total [of ms]
  by (auto simp: bootstrap_alt memory_ok_def list_all_iff)

text \<open>
  C7. Carving keeps the capability invariant: after any \<^verbatim>\<open>retype\<close>, successful or not, no byte
  belongs to two capabilities, every watermark is inside its region and every object is aligned; the
  owned memory never grows; and on success the new object sits in the returned slot, inside the
  memory that was free in the source slot, while every other slot keeps its capability.
\<close>

theorem retype_keeps_disjointness:
  assumes "cap_inv (GRANULE p) cn" "retype slot kind (GRANULE p) prep cn s = Inr (res, cn', s')"
  shows "cap_inv (GRANULE p) cn' \<and> owned_bytes (GRANULE p) cn' \<subseteq> owned_bytes (GRANULE p) cn \<and>
    (case res of
       Inl _ \<Rightarrow> cn' = cn
     | Inr v \<Rightarrow> \<exists>carve. v = of_nat (used cn) \<and> used cn' = used cn + 1 \<and>
         slots cn' ! used cn = new_cap kind carve \<and> aligned (GRANULE p) carve \<and>
         span carve (GRANULE p) \<subseteq> cap_bytes (GRANULE p) (slots cn ! unat slot) \<and>
         span carve (GRANULE p) \<inter> cap_bytes (GRANULE p) (slots cn' ! unat slot) = {} \<and>
         (\<forall>i < used cn. i \<noteq> unat slot \<longrightarrow> slots cn' ! i = slots cn ! i))"
proof (cases res)
  case (Inl e)
  with assms show ?thesis by (auto dest: retype_error_unchanged)
next
  case (Inr v)
  have ok: "cnode_ok cn" using assms(1) by (simp add: cap_inv_def)
  from Inr assms(2) obtain base sz us carve ce where r:
    "unat slot < used cn" "slots cn ! unat slot = CapUntyped base sz us" "used cn \<noteq> CNODE_SLOTS"
    and c: "carve_place base us (GRANULE p) = Some (carve, ce)"
    "unat base + unat sz < 18446744073709551616" "ce \<le> base + sz" and v: "v = of_nat (used cn)"
    and cn': "cn' = cn\<lparr>slots := (slots cn)[unat slot := CapUntyped base sz (ce - base), used cn := new_cap kind carve],
              used := used cn + 1\<rparr>"
    by (auto elim: retype_success)
  have len: "used cn < length (slots cn)" using ok r(3) by (simp add: cnode_ok_def)
  have sp: "span carve (GRANULE p) = cap_bytes (GRANULE p) (new_cap kind carve)"
    by (cases kind) (simp_all add: new_cap_def cap_bytes_def)
  have mem: "CapUntyped base sz us \<in> set (cnode_slots cn)"
    using r ok by (metis length_cnode_slots nth_cnode_slots nth_mem)
  have "set (cnode_slots cn') \<subseteq>
      insert (new_cap kind carve) (insert (CapUntyped base sz (ce - base)) (set (cnode_slots cn)))"
    using set_update_subset_insert unfolding retype_success_slots(2) [OF ok r(1,3) cn'] by fastforce
  then have "owned_bytes (GRANULE p) cn' \<subseteq> owned_bytes (GRANULE p) cn"
    using carve_bytes(1) [OF c] carve_bytes(2) [OF c, of kind] mem unfolding owned_bytes_def by blast
  moreover have "aligned (GRANULE p) carve"
    by (rule carve_place_SomeD(3) [OF c(1)])
  ultimately show ?thesis
    using Inr r v cn' len sp carve_bytes(2,3) [OF c, of kind] retype_inv [OF assms]
    by (auto intro!: exI [of _ carve] simp: Int_commute)
qed

theorem retype_keeps_disjointness_witness:
  "\<exists>cn'. retype 0 ObjTcb (GRANULE Virt) (\<lambda>carve s. Inr (True, s))
            \<lparr>slots = CapUntyped 0x40000100 0x10000 0 # replicate 31 CapEmpty, used = 1\<rparr> ()
          = Inr (Inr 1, cn', ()) \<and>
         cnode_slots cn' = [CapUntyped 0x40000100 0x10000 0x1F00, CapTcb 0x40001000] \<and>
         cap_inv (GRANULE Virt) cn'"
proof -
  let ?cn = "\<lparr>slots = CapUntyped 0x40000100 0x10000 0 # replicate 31 CapEmpty, used = 1\<rparr>"
  let ?cn' = "\<lparr>slots = CapUntyped 0x40000100 0x10000 0x1F00 # CapTcb 0x40001000 # replicate 30 CapEmpty, used = 2\<rparr>"
  have r: "replicate 31 CapEmpty = CapEmpty # replicate 30 CapEmpty"
    by (simp add: numeral_eq_Suc)
  have inv: "cap_inv (GRANULE Virt) ?cn"
    by (simp add: cap_inv_def cnode_ok_def cnode_slots_def CNODE_SLOTS_def cap_ok_def disj_list_def)
  have run: "retype 0 ObjTcb (GRANULE Virt) (\<lambda>carve s. Inr (True, s)) ?cn () = Inr (Inr 1, ?cn', ())"
    unfolding r
    by (simp add: retype_def GRANULE_def CNODE_SLOTS_def carve_place_def checked_add_def add_pn_def
        cnode_push_def new_cap_def Let_def)
  show ?thesis
    using retype_keeps_disjointness [OF inv run] run
    by (intro exI [of _ ?cn']) (simp add: cnode_slots_def)
qed

text \<open>
  C8. A failing \<^verbatim>\<open>retype\<close> leaves the CNode as it was and names its reason: a slot that is not in
  use, a slot that holds no untyped capability, a full CNode, a failed preparation, or exhaustion,
  and exhaustion means that no aligned granule is left between the watermark and the end of the
  untyped region. Except for a failed preparation, the machine state is untouched too.
\<close>

theorem retype_errors:
  assumes "cap_inv (GRANULE p) cn" "retype slot kind (GRANULE p) prep cn s = Inr (Inl e, cn', s')"
  shows "cn' = cn \<and>
    (case e of
       RtBadSlot \<Rightarrow> s' = s \<and> used cn \<le> unat slot
     | RtNotUntyped \<Rightarrow> s' = s \<and> (\<forall>b n u. cnode_cap cn slot \<noteq> Some (CapUntyped b n u))
     | RtOutOfSlots \<Rightarrow> s' = s \<and> used cn = CNODE_SLOTS
     | RtExhausted \<Rightarrow> s' = s \<and> (\<exists>b n u. cnode_cap cn slot = Some (CapUntyped b n u) \<and>
         \<not> fits (unat (GRANULE p)) (unat b + unat u) (unat b + unat n))
     | RtPrepFailed \<Rightarrow> (\<exists>carve. prep carve s = Inr (False, s') \<and>
         span carve (GRANULE p) \<subseteq> owned_bytes (GRANULE p) cn))"
proof (cases "unat slot < used cn")
  case slot: True
  have ok: "cnode_ok cn" using assms(1) by (simp add: cap_inv_def)
  have at: "cnode_cap cn slot = Some (slots cn ! unat slot)"
    using slot ok by (simp add: cnode_cap_def nth_cnode_slots)
  show ?thesis
  proof (cases "slots cn ! unat slot")
    case (CapUntyped b n u)
    have lim: "unat b + unat n < 18446744073709551616"
      using cap_inv_ok_nth [OF assms(1) slot] CapUntyped by (simp add: cap_ok_def)
    have mem: "CapUntyped b n u \<in> set (cnode_slots cn)"
      using slot CapUntyped ok by (metis length_cnode_slots nth_cnode_slots nth_mem)
    show ?thesis
    proof (cases "carve_place b u (GRANULE p)")
      case None
      then show ?thesis
        using assms(2) slot CapUntyped at carve_place_None [OF None lim]
        by (auto simp: retype_def split: if_split_asm)
    next
      case (Some cc)
      obtain carve ce where c: "carve_place b u (GRANULE p) = Some (carve, ce)"
        using Some by (cases cc) auto
      have "span carve (GRANULE p) = cap_bytes (GRANULE p) (new_cap ObjTcb carve)"
        by (simp add: new_cap_def cap_bytes_def)
      then have sub: "span carve (GRANULE p) \<subseteq> owned_bytes (GRANULE p) cn" if "ce \<le> b + n"
        using carve_bytes(2) [OF c lim that, of ObjTcb] mem unfolding owned_bytes_def by blast
      have full: "b + n < ce \<Longrightarrow> \<not> fits (unat (GRANULE p)) (unat b + unat u) (unat b + unat n)"
        using lim by (intro carve_place_beyond [OF c]) (simp add: word_order_unat unat_add_64)
      have failed: "\<exists>x. prep x s = Inr (False, s') \<and> span x (GRANULE p) \<subseteq> owned_bytes (GRANULE p) cn"
        if "prep carve s = Inr (False, s')" "\<not> b + n < ce"
        using that sub by (intro exI [of _ carve]) simp
      show ?thesis
        using assms(2) slot CapUntyped at c lim failed full
        by (auto simp: retype_def add_pn_ok and_then_Inr cnode_push_def Let_def
            split: if_split_asm prod.split_asm)
    qed
  qed (use assms(2) slot at in \<open>auto simp: retype_def\<close>)
qed (use assms(2) in \<open>simp add: retype_def\<close>)

theorem retype_errors_witness:
  "retype 0 ObjTcb (GRANULE Virt) (\<lambda>carve s. Inr (True, s))
     \<lparr>slots = CapUntyped 0x40000100 0x1EFF 0 # replicate 31 CapEmpty, used = 1\<rparr> ()
   = Inr (Inl RtExhausted, \<lparr>slots = CapUntyped 0x40000100 0x1EFF 0 # replicate 31 CapEmpty, used = 1\<rparr>, ()) \<and>
   \<not> fits 4096 0x40000100 0x40001FFF"
proof -
  let ?cn = "\<lparr>slots = CapUntyped 0x40000100 0x1EFF 0 # replicate 31 CapEmpty, used = 1\<rparr>"
  have inv: "cap_inv (GRANULE Virt) ?cn"
    by (simp add: cap_inv_def cnode_ok_def cnode_slots_def CNODE_SLOTS_def cap_ok_def disj_list_def)
  have run: "retype 0 ObjTcb (GRANULE Virt) (\<lambda>carve s. Inr (True, s)) ?cn () = Inr (Inl RtExhausted, ?cn, ())"
    by (simp add: retype_def GRANULE_def CNODE_SLOTS_def carve_place_def checked_add_def add_pn_def)
  show ?thesis
    using retype_errors [OF inv run] run by (simp add: cnode_cap_def cnode_slots_def GRANULE_def)
qed

end
