(* ===== verification/Queue.thy ===== *)
theory Queue
  imports K0_Prelude
begin

text \<open>
  Intrusive singly linked queues. The ready queue of the scheduler and the wait queues of the
  endpoints are threaded through a link field of the queued objects; a queue is a head and a tail
  address, 0 being the null pointer. The interface \<open>linked_queue\<close> states what one push and one pop do
  to the head, the tail and the links; its client lemmas show that such a queue behaves as a list and
  leaves the queues of other objects alone.
\<close>

section \<open>The list a queue stands for\<close>

primrec qpath :: "(u64 \<Rightarrow> u64) \<Rightarrow> u64 \<Rightarrow> u64 list \<Rightarrow> bool" where
  "qpath n a [] \<longleftrightarrow> a = 0"
| "qpath n a (t # ts) \<longleftrightarrow> a = t \<and> t \<noteq> 0 \<and> qpath n (n t) ts"

definition q_rep :: "(u64 \<Rightarrow> u64) \<Rightarrow> u64 \<Rightarrow> u64 \<Rightarrow> u64 list \<Rightarrow> bool" where
  "q_rep n hd' tl' ts \<longleftrightarrow> qpath n hd' ts \<and> distinct ts \<and> tl' = (if ts = [] then 0 else last ts)"

lemma qpath_cong:
  "qpath n a ts \<Longrightarrow> (\<And>t. t \<in> set ts \<Longrightarrow> n' t = n t) \<Longrightarrow> qpath n' a ts"
  by (induction ts arbitrary: a) auto

lemma q_rep_cong:
  "q_rep n a b ts \<Longrightarrow> (\<And>t. t \<in> set ts \<Longrightarrow> n' t = n t) \<Longrightarrow> q_rep n' a b ts"
  using qpath_cong by (auto simp: q_rep_def)

lemma qpath_nonzero: "qpath n a ts \<Longrightarrow> 0 \<notin> set ts"
  by (induction ts arbitrary: a) auto

lemma q_rep_nonzero: "q_rep n a b ts \<Longrightarrow> 0 \<notin> set ts"
  by (auto simp: q_rep_def dest: qpath_nonzero)

lemma q_rep_distinct: "q_rep n a b ts \<Longrightarrow> distinct ts"
  by (simp add: q_rep_def)

lemma q_rep_empty [simp]: "q_rep n a b [] \<longleftrightarrow> a = 0 \<and> b = 0"
  by (simp add: q_rep_def)

lemma q_rep_head: "q_rep n a b ts \<Longrightarrow> a = (if ts = [] then 0 else hd ts)"
  by (cases ts) (auto simp: q_rep_def)

lemma q_rep_tail: "q_rep n a b ts \<Longrightarrow> b = (if ts = [] then 0 else last ts)"
  by (simp add: q_rep_def)

lemma q_rep_last:
  assumes r: "q_rep n a b ts" and ne: "ts \<noteq> []"
  shows "b = last ts" "last ts \<in> set ts" "last ts \<noteq> 0"
proof -
  show "b = last ts" using q_rep_tail [OF r] ne by simp
  show l: "last ts \<in> set ts" using ne by simp
  show "last ts \<noteq> 0" using l q_rep_nonzero [OF r] by metis
qed

lemma q_rep_unique:
  assumes "q_rep n a b ts" "q_rep n a b us"
  shows "ts = us"
proof -
  have "qpath n a ts \<Longrightarrow> qpath n a us \<Longrightarrow> ts = us"
  proof (induction ts arbitrary: a us)
    case Nil
    then show ?case by (cases us) auto
  next
    case (Cons t ts)
    then show ?case by (cases us) auto
  qed
  then show ?thesis
    using assms by (simp add: q_rep_def)
qed

lemma qpath_snoc:
  assumes "qpath n a ts" "distinct ts" "t \<notin> set ts" "t \<noteq> 0" "ts \<noteq> []"
  shows "qpath (n(t := 0, last ts := t)) a (ts @ [t])"
  using assms
proof (induction ts arbitrary: a)
  case Nil
  then show ?case by simp
next
  case (Cons u us)
  show ?case
  proof (cases us)
    case Nil
    then show ?thesis using Cons.prems by auto
  next
    case (Cons v vs)
    then have "u \<noteq> last us"
      using Cons.prems by (metis distinct.simps(2) last_in_set list.simps(3))
    then show ?thesis
      using Cons Cons.prems Cons.IH [of "n u"] by auto
  qed
qed

section \<open>Filling and draining\<close>

primrec push_all :: "(u64 \<Rightarrow> 'q \<Rightarrow> 'h \<Rightarrow> 'q \<times> 'h) \<Rightarrow> u64 list \<Rightarrow> 'q \<Rightarrow> 'h \<Rightarrow> 'q \<times> 'h" where
  "push_all push [] q h = (q, h)"
| "push_all push (t # ts) q h = (let (q1, h1) = push t q h in push_all push ts q1 h1)"

primrec pop_n :: "('q \<Rightarrow> 'h \<Rightarrow> u64 \<times> 'q \<times> 'h) \<Rightarrow> nat \<Rightarrow> 'q \<Rightarrow> 'h \<Rightarrow> u64 list \<times> 'q \<times> 'h" where
  "pop_n pop 0 q h = ([], q, h)"
| "pop_n pop (Suc k) q h =
     (let (t, q1, h1) = pop q h; (ts, q2, h2) = pop_n pop k q1 h1 in (t # ts, q2, h2))"

section \<open>The interface\<close>

locale linked_queue =
  fixes nxt :: "'h \<Rightarrow> u64 \<Rightarrow> u64"
    and qhd :: "'q \<Rightarrow> u64"
    and qtl :: "'q \<Rightarrow> u64"
    and push :: "u64 \<Rightarrow> 'q \<Rightarrow> 'h \<Rightarrow> 'q \<times> 'h"
    and pop :: "'q \<Rightarrow> 'h \<Rightarrow> u64 \<times> 'q \<times> 'h"
  assumes push_first:
      "qtl q = 0 \<Longrightarrow> push t q h = (q', h') \<Longrightarrow> qhd q' = t \<and> qtl q' = t \<and> nxt h' = (nxt h)(t := 0)"
    and push_next:
      "qtl q \<noteq> 0 \<Longrightarrow> push t q h = (q', h') \<Longrightarrow>
         qhd q' = qhd q \<and> qtl q' = t \<and> nxt h' = (nxt h)(t := 0, qtl q := t)"
    and pop_none: "qhd q = 0 \<Longrightarrow> pop q h = (0, q, h)"
    and pop_only:
      "qhd q \<noteq> 0 \<Longrightarrow> nxt h (qhd q) = 0 \<Longrightarrow> pop q h = (t, q', h') \<Longrightarrow>
         t = qhd q \<and> qhd q' = 0 \<and> qtl q' = 0 \<and> nxt h' = (nxt h)(t := 0)"
    and pop_more:
      "qhd q \<noteq> 0 \<Longrightarrow> nxt h (qhd q) \<noteq> 0 \<Longrightarrow> pop q h = (t, q', h') \<Longrightarrow>
         t = qhd q \<and> qhd q' = nxt h (qhd q) \<and> qtl q' = qtl q \<and> nxt h' = (nxt h)(t := 0)"
begin

lemma push_rep:
  assumes r: "q_rep (nxt h) (qhd q) (qtl q) ts" and t: "t \<notin> set ts" "t \<noteq> 0" and e: "push t q h = (q', h')"
  shows "q_rep (nxt h') (qhd q') (qtl q') (ts @ [t])"
proof (cases "ts = []")
  case True
  then show ?thesis
    using r t push_first [OF _ e] by (simp add: q_rep_def)
next
  case False
  note l = q_rep_last [OF r False]
  then show ?thesis
    using r t False push_next [OF _ e] qpath_snoc [of "nxt h" "qhd q" ts t] by (simp add: q_rep_def)
qed

lemma push_links:
  assumes r: "q_rep (nxt h) (qhd q) (qtl q) ts" and e: "push t q h = (q', h')" and u: "u \<notin> set ts" "u \<noteq> t"
  shows "nxt h' u = nxt h u"
proof (cases "ts = []")
  case True
  then show ?thesis
    using r u push_first [OF _ e] by (simp add: q_rep_def)
next
  case False
  note l = q_rep_last [OF r False]
  then show ?thesis
    using u push_next [OF _ e] by auto
qed

lemma pop_rep:
  assumes r: "q_rep (nxt h) (qhd q) (qtl q) (u # ts)" and e: "pop q h = (t, q', h')"
  shows "t = u \<and> q_rep (nxt h') (qhd q') (qtl q') ts \<and> nxt h' = (nxt h)(u := 0)"
proof -
  have hd: "qhd q = u" "u \<noteq> 0" and p: "qpath (nxt h) (nxt h u) ts" and d: "distinct ts" "u \<notin> set ts"
    and tl: "qtl q = last (u # ts)"
    using r by (auto simp: q_rep_def)
  have p': "qpath ((nxt h)(u := 0)) (nxt h u) ts"
    using qpath_cong [OF p] d by (metis fun_upd_other)
  show ?thesis
  proof (cases ts)
    case Nil
    then show ?thesis using pop_only [OF _ _ e] hd p by (simp add: q_rep_def)
  next
    case (Cons v vs)
    then show ?thesis using pop_more [OF _ _ e] hd p p' d tl by (auto simp: q_rep_def)
  qed
qed

lemma pop_rep_empty: "q_rep (nxt h) (qhd q) (qtl q) [] \<Longrightarrow> pop q h = (0, q, h)"
  by (simp add: pop_none)

lemma push_all_rep:
  assumes "q_rep (nxt h) (qhd q) (qtl q) us" "distinct (us @ ts)" "0 \<notin> set ts" "push_all push ts q h = (q', h')"
  shows "q_rep (nxt h') (qhd q') (qtl q') (us @ ts)"
  using assms
proof (induction ts arbitrary: us q h)
  case Nil
  then show ?case by simp
next
  case (Cons t ts)
  obtain q1 h1 where e: "push t q h = (q1, h1)" by (cases "push t q h")
  have "q_rep (nxt h1) (qhd q1) (qtl q1) (us @ [t])"
    using push_rep [OF Cons.prems(1) _ _ e] Cons.prems(2,3) by auto
  then show ?case
    using Cons.IH [of h1 q1 "us @ [t]"] Cons.prems e by auto
qed

lemma pop_n_rep:
  assumes "q_rep (nxt h) (qhd q) (qtl q) ts" "pop_n pop (length ts) q h = (us, q', h')"
  shows "us = ts \<and> q_rep (nxt h') (qhd q') (qtl q') []"
  using assms
proof (induction ts arbitrary: us q h q' h')
  case Nil
  then show ?case by simp
next
  case (Cons t ts)
  obtain u q1 h1 where e: "pop q h = (u, q1, h1)" by (metis prod_cases3)
  obtain vs q2 h2 where e2: "pop_n pop (length ts) q1 h1 = (vs, q2, h2)" by (metis prod_cases3)
  have p: "u = t" "q_rep (nxt h1) (qhd q1) (qtl q1) ts"
    using pop_rep [OF Cons.prems(1) e] by blast+
  show ?case
    using Cons.IH [OF p(2) e2] Cons.prems(2) p(1) e e2 by auto
qed

lemma fifo:
  assumes "q_rep (nxt h) (qhd q) (qtl q) []" "distinct ts" "0 \<notin> set ts"
  shows "fst (pop_n pop (length ts) (fst (push_all push ts q h)) (snd (push_all push ts q h))) = ts"
  using push_all_rep [of h q "[]" ts] pop_n_rep [of _ _ ts] assms
  by (metis append_Nil prod.collapse)

end

end
