(* ===== verification/Task.thy ===== *)
theory Task
  imports UserSpace Cap Queue
begin

text \<open>
  Tasks (\<^verbatim>\<open>crates/k0-task/src/lib.rs\<close>, and the register context of
  \<^verbatim>\<open>crates/k0-arch/src/usermode.rs\<close>): the task control block with its intrusive queue link, the
  endpoint with its wait queue, and the loader of the root task. Task control blocks live in kernel
  memory and are referred to by their kernel virtual address, 0 being the null pointer; the memory
  that holds them is a map from addresses to control blocks.
\<close>

section \<open>Register contexts\<close>

text \<open>\<open>c_x c i\<close> is \<^verbatim>\<open>ctx.x[i]\<close> for \<open>i < 31\<close>; every index the kernel uses is a constant below 9.\<close>

record reg_context =
  c_x :: "nat \<Rightarrow> u64"
  c_sp :: u64
  c_elr :: u64
  c_spsr :: u64
  c_tpidr :: u64
  c_tpidrro :: u64

definition context_zeroed :: reg_context where
  "context_zeroed = \<lparr>c_x = \<lambda>_. 0, c_sp = 0, c_elr = 0, c_spsr = 0, c_tpidr = 0, c_tpidrro = 0\<rparr>"

section \<open>Control blocks and endpoints\<close>

datatype task_state =
    Inactive
  | Stopped
  | Ready
  | Running
  | Dead
  | BlockedSend
  | BlockedRecv
  | BlockedReply
  | BlockedCall

record tcb =
  t_ctx :: reg_context
  t_ttbr0_pa :: u64
  t_state :: task_state
  t_next :: u64
  t_reply_to :: u64

text \<open>A cleared frame read as a control block: state 0 is \<open>Inactive\<close>.\<close>

definition tcb_zeroed :: tcb where
  "tcb_zeroed = \<lparr>t_ctx = context_zeroed, t_ttbr0_pa = 0, t_state = Inactive, t_next = 0, t_reply_to = 0\<rparr>"

record endpoint =
  e_head :: u64
  e_tail :: u64

type_synonym tcb_heap = "u64 \<Rightarrow> tcb"

definition set_next :: "u64 \<Rightarrow> u64 \<Rightarrow> tcb_heap \<Rightarrow> tcb_heap" where
  "set_next a n h = h(a := (h a)\<lparr>t_next := n\<rparr>)"

definition set_state :: "u64 \<Rightarrow> task_state \<Rightarrow> tcb_heap \<Rightarrow> tcb_heap" where
  "set_state a st h = h(a := (h a)\<lparr>t_state := st\<rparr>)"

definition endpoint_push :: "u64 \<Rightarrow> endpoint \<Rightarrow> tcb_heap \<Rightarrow> endpoint \<times> tcb_heap" where
  "endpoint_push t ep h =
     (let h1 = set_next t 0 h
      in if e_tail ep = 0 then (ep\<lparr>e_head := t, e_tail := t\<rparr>, h1)
         else (ep\<lparr>e_tail := t\<rparr>, set_next (e_tail ep) t h1))"

definition endpoint_pop :: "endpoint \<Rightarrow> tcb_heap \<Rightarrow> u64 \<times> endpoint \<times> tcb_heap" where
  "endpoint_pop ep h =
     (let head = e_head ep
      in if head = 0 then (0, ep, h)
         else let hd' = t_next (h head); h1 = set_next head 0 h
              in (head, if hd' = 0 then ep\<lparr>e_head := 0, e_tail := 0\<rparr> else ep\<lparr>e_head := hd'\<rparr>, h1))"

section \<open>The wait queue of an endpoint\<close>

text \<open>The links of the control blocks, and the control blocks without their links.\<close>

definition links :: "tcb_heap \<Rightarrow> u64 \<Rightarrow> u64" where
  "links h t = t_next (h t)"

definition core :: "tcb_heap \<Rightarrow> tcb_heap" where
  "core h t = (h t)\<lparr>t_next := 0\<rparr>"

lemma links_set_next [simp]: "links (set_next a n h) = (links h)(a := n)"
  by (auto simp: links_def set_next_def)

lemma links_set_state [simp]: "links (set_state a st h) = links h"
  by (auto simp: links_def set_state_def)

lemma core_set_next [simp]: "core (set_next a n h) = core h"
  by (auto simp: core_def set_next_def)

lemma core_set_state [simp]: "core (set_state a st h) = set_state a st (core h)"
  by (auto simp: core_def set_state_def)

lemma core_fields [simp]:
  "t_state (core h t) = t_state (h t)"
  "t_reply_to (core h t) = t_reply_to (h t)"
  "t_ctx (core h t) = t_ctx (h t)"
  "t_ttbr0_pa (core h t) = t_ttbr0_pa (h t)"
  by (simp_all add: core_def)

lemma links_upd [simp]: "t_next x = links h a \<Longrightarrow> links (h(a := x)) = links h"
  by (auto simp: links_def)

lemma core_upd: "core (h(a := x)) = (core h)(a := x\<lparr>t_next := 0\<rparr>)"
  by (auto simp: core_def)

interpretation epq: linked_queue links e_head e_tail endpoint_push endpoint_pop
  by unfold_locales (auto simp: endpoint_push_def endpoint_pop_def Let_def links_def [symmetric] split: if_splits)

lemma endpoint_push_core: "endpoint_push t ep h = (ep', h') \<Longrightarrow> core h' = core h"
  by (auto simp: endpoint_push_def Let_def split: if_splits)

lemma endpoint_pop_core: "endpoint_pop ep h = (t, ep', h') \<Longrightarrow> core h' = core h"
  by (auto simp: endpoint_pop_def Let_def split: if_splits)

section \<open>Loading the root task\<close>

definition USER_STACK_TOP :: u64 where "USER_STACK_TOP = 0x10000000"
definition USER_STACK_SIZE :: u64 where "USER_STACK_SIZE = 64 * 1024"

datatype seg_kind = SegText | SegRo | SegRw

record load_seg =
  ls_va :: u64
  ls_memsz :: u64
  ls_kind :: seg_kind

definition seg_perm :: "seg_kind \<Rightarrow> user_perm" where
  "seg_perm k = (case k of SegText \<Rightarrow> TextUser | SegRo \<Rightarrow> RoUser | SegRw \<Rightarrow> RwUser)"

datatype spawn_error = BadLayout | SpawnMmu mmu_error

text \<open>Eight bytes of a byte string as a little-endian word; bytes past the end read as 0.\<close>

definition le64 :: "u8 list \<Rightarrow> nat \<Rightarrow> u64" where
  "le64 bs off = (\<Sum>i < 8. if off + i < length bs then push_bit (8 * i) (ucast (bs ! (off + i))) else 0)"

text \<open>\<^verbatim>\<open>copy_nonoverlapping(image, va, len)\<close> for an 8-aligned destination\<close>

definition copy_bytes :: "u8 list \<Rightarrow> u64 \<Rightarrow> memory \<Rightarrow> memory" where
  "copy_bytes bs va mem =
     (\<lambda>a. if unat va \<le> unat a \<and> unat a < unat va + length bs then le64 bs (unat a - unat va) else mem a)"

fun map_segs ::
  "platform \<Rightarrow> u64 \<Rightarrow> u64 \<Rightarrow> u64 \<Rightarrow> u64 \<Rightarrow> u64 \<Rightarrow> load_seg list \<Rightarrow> frame_alloc \<Rightarrow> memory
     \<Rightarrow> halt + ((spawn_error + unit) \<times> frame_alloc \<times> memory)" where
  "map_segs p root base image_end entry frames [] fa mem = Inr (Inr (), fa, mem)"
| "map_segs p root base image_end entry frames (s # segs) fa mem =
     (case checked_add (ls_va s) (ls_memsz s) of
        None \<Rightarrow> Inr (Inl BadLayout, fa, mem)
      | Some seg_end \<Rightarrow>
          if ls_va s < base \<or> image_end < seg_end \<or> \<not> aligned (GRANULE p) (ls_va s) \<or> ls_memsz s = 0
          then Inr (Inl BadLayout, fa, mem)
          else and_then (round_up_pn p (ls_memsz s)) (\<lambda>mapped.
            and_then (add_pn frames (ls_va s - base)) (\<lambda>pa.
              and_then (us_map_range p root (ls_va s) pa mapped (seg_perm (ls_kind s)) fa mem) (\<lambda>(r, fa1, mem1).
                case r of
                  Inl e \<Rightarrow> Inr (Inl (SpawnMmu e), fa1, mem1)
                | Inr _ \<Rightarrow>
                    if ls_va s \<le> entry \<and> entry < seg_end \<and> ls_kind s \<noteq> SegText
                    then Inr (Inl BadLayout, fa1, mem1)
                    else map_segs p root base image_end entry frames segs fa1 mem1))))"

text \<open>
  \<^verbatim>\<open>spawn_root\<close>: the control block it fills is the static \<^verbatim>\<open>ROOT_TCB\<close>, here the returned record.
  The cache maintenance of \<^verbatim>\<open>sync_icache\<close> does not change memory.
\<close>

definition spawn_root ::
  "platform \<Rightarrow> u8 list \<Rightarrow> u64 \<Rightarrow> u64 \<Rightarrow> load_seg list \<Rightarrow> u64 \<Rightarrow> frame_alloc \<Rightarrow> memory \<Rightarrow> tcb
     \<Rightarrow> halt + ((spawn_error + tcb \<times> u64) \<times> frame_alloc \<times> memory)" where
  "spawn_root p img base entry segs bootinfo_pa fa mem root_tcb =
     (let g = GRANULE p; len = of_nat (length img) :: u64
      in if \<not> aligned g base \<or> \<not> aligned g len \<or> len = 0 \<or> segs = [] then Inr (Inl BadLayout, fa, mem)
         else case checked_add base len of
           None \<Rightarrow> Inr (Inl BadLayout, fa, mem)
         | Some image_end \<Rightarrow>
             and_then (alloc_contig p (len div g) fa mem) (\<lambda>(r1, fa1, mem1).
             case r1 of Inl e \<Rightarrow> Inr (Inl (SpawnMmu e), fa1, mem1) | Inr frames \<Rightarrow>
             and_then (add_pn frames KERNEL_VA_OFFSET) (\<lambda>dst.
             let mem2 = copy_bytes img dst mem1
             in and_then (user_space_new p fa1 mem2) (\<lambda>(r2, fa2, mem3).
             case r2 of Inl e \<Rightarrow> Inr (Inl (SpawnMmu e), fa2, mem3) | Inr root \<Rightarrow>
             and_then (map_segs p root base image_end entry frames segs fa2 mem3) (\<lambda>(r3, fa3, mem4).
             case r3 of Inl e \<Rightarrow> Inr (Inl e, fa3, mem4) | Inr _ \<Rightarrow>
             if \<not> (base \<le> entry \<and> entry < image_end) then Inr (Inl BadLayout, fa3, mem4)
             else let stack_base = USER_STACK_TOP - USER_STACK_SIZE
             in and_then (alloc_contig p (USER_STACK_SIZE div g) fa3 mem4) (\<lambda>(r4, fa4, mem5).
             case r4 of Inl e \<Rightarrow> Inr (Inl (SpawnMmu e), fa4, mem5) | Inr stack_frames \<Rightarrow>
             and_then (us_map_range p root stack_base stack_frames USER_STACK_SIZE RwUser fa4 mem5) (\<lambda>(r5, fa5, mem6).
             case r5 of Inl e \<Rightarrow> Inr (Inl (SpawnMmu e), fa5, mem6) | Inr _ \<Rightarrow>
             and_then (us_map_range p root BOOTINFO_VA bootinfo_pa g RoUser fa5 mem6) (\<lambda>(r6, fa6, mem7).
             case r6 of Inl e \<Rightarrow> Inr (Inl (SpawnMmu e), fa6, mem7) | Inr _ \<Rightarrow>
               Inr (Inr (root_tcb\<lparr>t_ctx := context_zeroed\<lparr>c_elr := entry, c_sp := USER_STACK_TOP, c_spsr := 0\<rparr>,
                                  t_ttbr0_pa := root\<rparr>, root), fa6, mem7)))))))))"

section \<open>Wait queues are first in, first out\<close>



end
