(* ===== verification/Sched.thy ===== *)
theory Sched
  imports Task
begin

text \<open>
  The state the kernel's functions share, and the round-robin scheduler
  (\<^verbatim>\<open>crates/k0-sched/src/lib.rs\<close>). The ready queue is threaded through the \<open>t_next\<close> links of the
  control blocks, as are the wait queues of the endpoints.
\<close>

section \<open>Kernel state\<close>

record sched =
  sc_current :: u64
  sc_head :: u64
  sc_tail :: u64

text \<open>What the kernel prints: bytes of DEBUG_PUTC, its own diagnostics and the lines of the boot log with their numbers.\<close>

datatype console_item =
    ConByte u8
  | TaskExited u64
  | UnknownSyscall u64
  | TaskFault string u64 u64 u64
  | Tick u64
  | BootLog string "u64 list"

text \<open>
  The statics \<^verbatim>\<open>ROOT_CNODE\<close>, \<^verbatim>\<open>POOL\<close> and \<^verbatim>\<open>SCHED\<close>; the memory behind the TTBR1 alias, seen as control
  blocks, as endpoints and as words; the translation registers; \<^verbatim>\<open>__current_context\<close>, as the address
  of the control block that contains the context; and the console output.
\<close>

record kstate =
  ks_cnode :: cnode
  ks_pool :: pool
  ks_sched :: sched
  ks_tcbs :: tcb_heap
  ks_eps :: "u64 \<Rightarrow> endpoint"
  ks_mem :: memory
  ks_regs :: mmu_regs
  ks_ctx :: u64
  ks_console :: "console_item list"

abbreviation reg :: "kstate \<Rightarrow> u64 \<Rightarrow> nat \<Rightarrow> u64" where
  "reg ks c i \<equiv> c_x (t_ctx (ks_tcbs ks c)) i"

definition upd_tcb :: "u64 \<Rightarrow> (tcb \<Rightarrow> tcb) \<Rightarrow> kstate \<Rightarrow> kstate" where
  "upd_tcb a f ks = ks\<lparr>ks_tcbs := (ks_tcbs ks)(a := f (ks_tcbs ks a))\<rparr>"

definition put_x :: "nat \<Rightarrow> u64 \<Rightarrow> tcb \<Rightarrow> tcb" where
  "put_x i v t = t\<lparr>t_ctx := (t_ctx t)\<lparr>c_x := (c_x (t_ctx t))(i := v)\<rparr>\<rparr>"

definition set_reg :: "u64 \<Rightarrow> nat \<Rightarrow> u64 \<Rightarrow> kstate \<Rightarrow> kstate" where
  "set_reg c i v = upd_tcb c (put_x i v)"

section \<open>The ready queue\<close>

definition sched_push :: "u64 \<Rightarrow> sched \<Rightarrow> tcb_heap \<Rightarrow> sched \<times> tcb_heap" where
  "sched_push t s h =
     (let h1 = set_next t 0 (set_state t Ready h)
      in if sc_tail s = 0 then (s\<lparr>sc_head := t, sc_tail := t\<rparr>, h1)
         else (s\<lparr>sc_tail := t\<rparr>, set_next (sc_tail s) t h1))"

definition sched_pop :: "sched \<Rightarrow> tcb_heap \<Rightarrow> u64 \<times> sched \<times> tcb_heap" where
  "sched_pop s h =
     (let head = sc_head s
      in if head = 0 then (0, s, h)
         else let hd' = t_next (h head); h1 = set_next head 0 h
              in (head, if hd' = 0 then s\<lparr>sc_head := 0, sc_tail := 0\<rparr> else s\<lparr>sc_head := hd'\<rparr>, h1))"

interpretation rdq: linked_queue links sc_head sc_tail sched_push sched_pop
  by unfold_locales (auto simp: sched_push_def sched_pop_def Let_def links_def [symmetric] split: if_splits)

lemma sched_push_core:
  "sched_push t s h = (s', h') \<Longrightarrow> core h' = set_state t Ready (core h) \<and> sc_current s' = sc_current s"
  by (auto simp: sched_push_def Let_def split: if_splits)

lemma sched_pop_core:
  "sched_pop s h = (t, s', h') \<Longrightarrow> core h' = core h \<and> sc_current s' = sc_current s"
  by (auto simp: sched_pop_def Let_def split: if_splits)

section \<open>Switching\<close>

definition switch_to :: "u64 \<Rightarrow> kstate \<Rightarrow> kstate" where
  "switch_to nxt ks =
     (let ks1 = ks\<lparr>ks_tcbs := set_state nxt Running (ks_tcbs ks),
                   ks_sched := (ks_sched ks)\<lparr>sc_current := nxt\<rparr>, ks_ctx := nxt\<rparr>;
          root = t_ttbr0_pa (ks_tcbs ks1 nxt)
      in if root \<noteq> current_user_root (ks_regs ks1)
         then ks1\<lparr>ks_regs := install_user_ttbr0 root (ks_regs ks1)\<rparr> else ks1)"

definition handoff :: "u64 \<Rightarrow> kstate \<Rightarrow> kstate" where
  "handoff t ks =
     ks\<lparr>ks_tcbs := set_state t Running (ks_tcbs ks), ks_sched := (ks_sched ks)\<lparr>sc_current := t\<rparr>, ks_ctx := t\<rparr>"

definition enqueue :: "u64 \<Rightarrow> kstate \<Rightarrow> kstate" where
  "enqueue t ks =
     (let (s, h) = sched_push t (ks_sched ks) (ks_tcbs ks) in ks\<lparr>ks_sched := s, ks_tcbs := h\<rparr>)"

definition rotate :: "kstate \<Rightarrow> kstate" where
  "rotate ks =
     (let (nxt, s, h) = sched_pop (ks_sched ks) (ks_tcbs ks); ks1 = ks\<lparr>ks_sched := s, ks_tcbs := h\<rparr>
      in if nxt = 0 then ks1
         else let cur = sc_current (ks_sched ks1) in switch_to nxt (enqueue cur ks1))"

definition current :: "kstate \<Rightarrow> u64" where
  "current ks = sc_current (ks_sched ks)"

definition block_and_switch :: "kstate \<Rightarrow> bool \<times> kstate" where
  "block_and_switch ks =
     (let (nxt, s, h) = sched_pop (ks_sched ks) (ks_tcbs ks); ks1 = ks\<lparr>ks_sched := s, ks_tcbs := h\<rparr>
      in if nxt = 0 then (False, ks1) else (True, switch_to nxt ks1))"

definition exit_current :: "kstate \<Rightarrow> bool \<times> kstate" where
  "exit_current ks =
     (let ks0 = ks\<lparr>ks_tcbs := set_state (sc_current (ks_sched ks)) Dead (ks_tcbs ks)\<rparr>;
          (nxt, s, h) = sched_pop (ks_sched ks0) (ks_tcbs ks0); ks1 = ks0\<lparr>ks_sched := s, ks_tcbs := h\<rparr>
      in if nxt = 0 then (False, ks1) else (True, switch_to nxt ks1))"

end
