(* ===== verification/Ipc.thy ===== *)
theory Ipc
  imports Sched
begin

text \<open>
  Synchronous rendezvous IPC (\<^verbatim>\<open>crates/k0-ipc/src/lib.rs\<close>). A system call handler receives the
  caller's saved context; here it is the address \<open>ctx\<close> of the control block that contains it. The
  Boolean result is the handler's: False reports that every task is blocked.
\<close>

definition ep_of :: "u64 \<Rightarrow> cnode \<Rightarrow> halt + (i64 + u64)" where
  "ep_of slot cn =
     (case cnode_cap cn slot of
        Some (CapEndpoint base) \<Rightarrow> and_then (add_pn base KERNEL_VA_OFFSET) (\<lambda>va. Inr (Inr va))
      | Some _ \<Rightarrow> Inr (Inl BAD_CAP)
      | None \<Rightarrow> Inr (Inl BAD_SLOT))"

text \<open>\<^verbatim>\<open>deliver(src, dst)\<close>: only MR0-MR3 (x2-x5) travel; x0 and x1 are cleared.\<close>

definition deliver :: "reg_context \<Rightarrow> reg_context \<Rightarrow> reg_context" where
  "deliver src dst =
     dst\<lparr>c_x := (c_x dst)(2 := c_x src 2, 3 := c_x src 3, 4 := c_x src 4, 5 := c_x src 5, 0 := 0, 1 := 0)\<rparr>"

definition deliver_to :: "u64 \<Rightarrow> u64 \<Rightarrow> kstate \<Rightarrow> kstate" where
  "deliver_to src dst ks =
     upd_tcb dst (\<lambda>t. t\<lparr>t_ctx := deliver (t_ctx (ks_tcbs ks src)) (t_ctx t)\<rparr>) ks"

definition ks_ep_push :: "u64 \<Rightarrow> u64 \<Rightarrow> kstate \<Rightarrow> kstate" where
  "ks_ep_push ep t ks =
     (let (e, h) = endpoint_push t (ks_eps ks ep) (ks_tcbs ks)
      in ks\<lparr>ks_eps := (ks_eps ks)(ep := e), ks_tcbs := h\<rparr>)"

definition ks_ep_pop :: "u64 \<Rightarrow> kstate \<Rightarrow> u64 \<times> kstate" where
  "ks_ep_pop ep ks =
     (let (t, e, h) = endpoint_pop (ks_eps ks ep) (ks_tcbs ks)
      in (t, ks\<lparr>ks_eps := (ks_eps ks)(ep := e), ks_tcbs := h\<rparr>))"

definition abort_reply :: "u64 \<Rightarrow> kstate \<Rightarrow> kstate" where
  "abort_reply holder ks =
     (let caller = t_reply_to (ks_tcbs ks holder);
          ks1 = upd_tcb holder (\<lambda>t. t\<lparr>t_reply_to := 0\<rparr>) ks
      in if caller = 0 then ks1 else enqueue caller (set_reg caller 0 NO_REPLY ks1))"

definition nonblock :: "u64 \<Rightarrow> bool" where
  "nonblock flags \<longleftrightarrow> flags AND NONBLOCK \<noteq> 0"

definition sys_send :: "u64 \<Rightarrow> kstate \<Rightarrow> halt + (bool \<times> kstate)" where
  "sys_send ctx ks =
     and_then (ep_of (reg ks ctx 0) (ks_cnode ks)) (\<lambda>r.
       case r of
         Inl e \<Rightarrow> Inr (True, set_reg ctx 0 e ks)
       | Inr ep \<Rightarrow>
           let nb = nonblock (reg ks ctx 1); head = e_head (ks_eps ks ep)
           in if head \<noteq> 0 \<and> t_state (ks_tcbs ks head) = BlockedRecv then
                let (rcv, ks1) = ks_ep_pop ep ks
                in Inr (True, set_reg ctx 0 0 (enqueue rcv (deliver_to ctx rcv ks1)))
              else if nb then Inr (True, set_reg ctx 0 WOULD_BLOCK ks)
              else let cur = current ks;
                       ks1 = upd_tcb cur (\<lambda>t. t\<lparr>t_state := BlockedSend\<rparr>) ks
                   in Inr (block_and_switch (ks_ep_push ep cur ks1)))"

definition recv_inner :: "u64 \<Rightarrow> u64 \<Rightarrow> bool \<Rightarrow> kstate \<Rightarrow> bool \<times> kstate" where
  "recv_inner ctx ep nb ks =
     (let head = e_head (ks_eps ks ep)
      in if head \<noteq> 0 \<and> t_state (ks_tcbs ks head) \<noteq> BlockedRecv then
           let (snd, ks1) = ks_ep_pop ep ks; ks2 = deliver_to snd ctx ks1
           in if t_state (ks_tcbs ks2 snd) = BlockedCall then
                let cur = current ks2;
                    ks3 = abort_reply cur ks2;
                    ks4 = upd_tcb snd (\<lambda>t. t\<lparr>t_state := BlockedReply\<rparr>) ks3
                in (True, upd_tcb cur (\<lambda>t. t\<lparr>t_reply_to := snd\<rparr>) ks4)
              else (True, enqueue snd (set_reg snd 0 0 ks2))
         else if nb then (True, set_reg ctx 0 WOULD_BLOCK ks)
         else let cur = current ks;
                  ks1 = upd_tcb cur (\<lambda>t. t\<lparr>t_state := BlockedRecv\<rparr>) ks
              in block_and_switch (ks_ep_push ep cur ks1))"

definition sys_recv :: "u64 \<Rightarrow> kstate \<Rightarrow> halt + (bool \<times> kstate)" where
  "sys_recv ctx ks =
     and_then (ep_of (reg ks ctx 0) (ks_cnode ks)) (\<lambda>r.
       case r of
         Inl e \<Rightarrow> Inr (True, set_reg ctx 0 e ks)
       | Inr ep \<Rightarrow> Inr (recv_inner ctx ep (nonblock (reg ks ctx 1)) ks))"

definition sys_call :: "u64 \<Rightarrow> kstate \<Rightarrow> halt + (bool \<times> kstate)" where
  "sys_call ctx ks =
     and_then (ep_of (reg ks ctx 0) (ks_cnode ks)) (\<lambda>r.
       case r of
         Inl e \<Rightarrow> Inr (True, set_reg ctx 0 e ks)
       | Inr ep \<Rightarrow>
           let nb = nonblock (reg ks ctx 1); cur = current ks; head = e_head (ks_eps ks ep)
           in if head \<noteq> 0 \<and> t_state (ks_tcbs ks head) = BlockedRecv then
                let (rcv, ks1) = ks_ep_pop ep ks;
                    ks2 = abort_reply rcv (deliver_to ctx rcv ks1);
                    ks3 = upd_tcb rcv (\<lambda>t. t\<lparr>t_reply_to := cur\<rparr>) ks2;
                    ks4 = upd_tcb cur (\<lambda>t. t\<lparr>t_state := BlockedReply\<rparr>) ks3
                in Inr (block_and_switch (enqueue rcv ks4))
              else if nb then Inr (True, set_reg ctx 0 WOULD_BLOCK ks)
              else let ks1 = upd_tcb cur (\<lambda>t. t\<lparr>t_state := BlockedCall\<rparr>) ks
                   in Inr (block_and_switch (ks_ep_push ep cur ks1)))"

definition sys_reply_recv :: "u64 \<Rightarrow> kstate \<Rightarrow> halt + (bool \<times> kstate)" where
  "sys_reply_recv ctx ks =
     and_then (ep_of (reg ks ctx 0) (ks_cnode ks)) (\<lambda>r.
       case r of
         Inl e \<Rightarrow> Inr (True, set_reg ctx 0 e ks)
       | Inr ep \<Rightarrow>
           let nb = nonblock (reg ks ctx 1); cur = current ks; caller = t_reply_to (ks_tcbs ks cur);
               ks1 = (if caller \<noteq> 0
                      then enqueue caller (deliver_to ctx caller (upd_tcb cur (\<lambda>t. t\<lparr>t_reply_to := 0\<rparr>) ks))
                      else ks)
           in Inr (recv_inner ctx ep nb ks1))"

end
