(* ===== verification/IpcSpec.thy ===== *)
theory IpcSpec
  imports Ipc
begin

text \<open>
  What the scheduler and the IPC calls promise, over lists instead of linked queues: an abstract
  kernel with the running task, the list of ready tasks, one list of waiting tasks per endpoint, and
  the control blocks without their links. What the operations leave alone (capabilities, tables,
  memory, console) is one component of the state. The invariant says which task may be where; it is kept by
  every operation.
\<close>

section \<open>The abstract kernel\<close>

record akernel =
  a_cur :: u64
  a_ready :: "u64 list"
  a_wait :: "u64 \<Rightarrow> u64 list"
  a_tcb :: tcb_heap
  a_regs :: mmu_regs
  a_other :: "cnode \<times> pool \<times> memory \<times> console_item list"

abbreviation st :: "akernel \<Rightarrow> u64 \<Rightarrow> task_state" where
  "st a t \<equiv> t_state (a_tcb a t)"

abbreviation rp :: "akernel \<Rightarrow> u64 \<Rightarrow> u64" where
  "rp a t \<equiv> t_reply_to (a_tcb a t)"

abbreviation a_x :: "akernel \<Rightarrow> nat \<Rightarrow> u64" where
  "a_x a i \<equiv> c_x (t_ctx (a_tcb a (a_cur a))) i"

definition a_upd :: "u64 \<Rightarrow> (tcb \<Rightarrow> tcb) \<Rightarrow> akernel \<Rightarrow> akernel" where
  "a_upd t f a = a\<lparr>a_tcb := (a_tcb a)(t := f (a_tcb a t))\<rparr>"

definition a_enqueue :: "u64 \<Rightarrow> akernel \<Rightarrow> akernel" where
  "a_enqueue t a = a\<lparr>a_ready := a_ready a @ [t], a_tcb := set_state t Ready (a_tcb a)\<rparr>"

definition a_switch :: "u64 \<Rightarrow> akernel \<Rightarrow> akernel" where
  "a_switch t a =
     a\<lparr>a_cur := t, a_tcb := set_state t Running (a_tcb a),
       a_regs := (if t_ttbr0_pa (a_tcb a t) \<noteq> current_user_root (a_regs a)
                  then install_user_ttbr0 (t_ttbr0_pa (a_tcb a t)) (a_regs a) else a_regs a)\<rparr>"

definition a_rotate :: "akernel \<Rightarrow> akernel" where
  "a_rotate a =
     (case a_ready a of
        [] \<Rightarrow> a
      | t # ts \<Rightarrow> a_switch t (a_enqueue (a_cur a) (a\<lparr>a_ready := ts\<rparr>)))"

definition a_block :: "akernel \<Rightarrow> bool \<times> akernel" where
  "a_block a =
     (case a_ready a of
        [] \<Rightarrow> (False, a)
      | t # ts \<Rightarrow> (True, a_switch t (a\<lparr>a_ready := ts\<rparr>)))"

definition a_exit :: "akernel \<Rightarrow> bool \<times> akernel" where
  "a_exit a = a_block (a_upd (a_cur a) (\<lambda>t. t\<lparr>t_state := Dead\<rparr>) a)"

definition a_push :: "u64 \<Rightarrow> u64 \<Rightarrow> akernel \<Rightarrow> akernel" where
  "a_push ep t a = a\<lparr>a_wait := (a_wait a)(ep := a_wait a ep @ [t])\<rparr>"

definition a_pop :: "u64 \<Rightarrow> akernel \<Rightarrow> akernel" where
  "a_pop ep a = a\<lparr>a_wait := (a_wait a)(ep := tl (a_wait a ep))\<rparr>"

definition a_deliver :: "u64 \<Rightarrow> u64 \<Rightarrow> akernel \<Rightarrow> akernel" where
  "a_deliver src dst a = a_upd dst (\<lambda>t. t\<lparr>t_ctx := deliver (t_ctx (a_tcb a src)) (t_ctx t)\<rparr>) a"

definition a_abort :: "u64 \<Rightarrow> akernel \<Rightarrow> akernel" where
  "a_abort holder a =
     (let caller = rp a holder; a1 = a_upd holder (\<lambda>t. t\<lparr>t_reply_to := 0\<rparr>) a
      in if caller = 0 then a1 else a_enqueue caller (a_upd caller (put_x 0 NO_REPLY) a1))"

definition a_wait_or_fail :: "bool \<Rightarrow> task_state \<Rightarrow> u64 \<Rightarrow> akernel \<Rightarrow> bool \<times> akernel" where
  "a_wait_or_fail nb s ep a =
     (if nb then (True, a_upd (a_cur a) (put_x 0 WOULD_BLOCK) a)
      else a_block (a_push ep (a_cur a) (a_upd (a_cur a) (\<lambda>t. t\<lparr>t_state := s\<rparr>) a)))"

definition a_send :: "bool \<Rightarrow> u64 \<Rightarrow> akernel \<Rightarrow> bool \<times> akernel" where
  "a_send nb ep a =
     (if a_wait a ep \<noteq> [] \<and> st a (hd (a_wait a ep)) = BlockedRecv then
        let r = hd (a_wait a ep)
        in (True, a_upd (a_cur a) (put_x 0 0) (a_enqueue r (a_deliver (a_cur a) r (a_pop ep a))))
      else a_wait_or_fail nb BlockedSend ep a)"

definition a_recv :: "bool \<Rightarrow> u64 \<Rightarrow> akernel \<Rightarrow> bool \<times> akernel" where
  "a_recv nb ep a =
     (if a_wait a ep \<noteq> [] \<and> st a (hd (a_wait a ep)) \<noteq> BlockedRecv then
        let s = hd (a_wait a ep); c = a_cur a; a1 = a_deliver s c (a_pop ep a)
        in if st a s = BlockedCall
           then (True, a_upd c (\<lambda>t. t\<lparr>t_reply_to := s\<rparr>) (a_upd s (\<lambda>t. t\<lparr>t_state := BlockedReply\<rparr>) (a_abort c a1)))
           else (True, a_enqueue s (a_upd s (put_x 0 0) a1))
      else a_wait_or_fail nb BlockedRecv ep a)"

definition a_call :: "bool \<Rightarrow> u64 \<Rightarrow> akernel \<Rightarrow> bool \<times> akernel" where
  "a_call nb ep a =
     (if a_wait a ep \<noteq> [] \<and> st a (hd (a_wait a ep)) = BlockedRecv then
        let r = hd (a_wait a ep); c = a_cur a; a1 = a_abort r (a_deliver c r (a_pop ep a))
        in a_block (a_enqueue r (a_upd c (\<lambda>t. t\<lparr>t_state := BlockedReply\<rparr>) (a_upd r (\<lambda>t. t\<lparr>t_reply_to := c\<rparr>) a1)))
      else a_wait_or_fail nb BlockedCall ep a)"

definition a_reply_recv :: "bool \<Rightarrow> u64 \<Rightarrow> akernel \<Rightarrow> bool \<times> akernel" where
  "a_reply_recv nb ep a =
     (let c = a_cur a; caller = rp a c;
          a1 = (if caller \<noteq> 0
                then a_enqueue caller (a_deliver c caller (a_upd c (\<lambda>t. t\<lparr>t_reply_to := 0\<rparr>) a))
                else a)
      in a_recv nb ep a1)"

text \<open>A system call resolves its endpoint capability and reads its flags before it acts.\<close>

definition a_ipc :: "(bool \<Rightarrow> u64 \<Rightarrow> akernel \<Rightarrow> bool \<times> akernel) \<Rightarrow> akernel \<Rightarrow> halt + (bool \<times> akernel)" where
  "a_ipc op a =
     and_then (ep_of (a_x a 0) (fst (a_other a))) (\<lambda>r.
       case r of
         Inl e \<Rightarrow> Inr (True, a_upd (a_cur a) (put_x 0 e) a)
       | Inr ep \<Rightarrow> Inr (op (nonblock (a_x a 1)) ep a))"

section \<open>The invariant\<close>

definition ipc_blocked :: "task_state \<Rightarrow> bool" where
  "ipc_blocked s \<longleftrightarrow> s = BlockedSend \<or> s = BlockedRecv \<or> s = BlockedCall"

text \<open>
  \<open>T\<close> are the task control blocks, \<open>E\<close> the endpoints, and \<open>X\<close> the tasks that are in no queue because
  the kernel is working on them; between two operations \<open>X\<close> is the running task alone.
\<close>

definition queues_ok :: "u64 set \<Rightarrow> u64 set \<Rightarrow> u64 set \<Rightarrow> akernel \<Rightarrow> bool" where
  "queues_ok T E X a \<longleftrightarrow>
     0 \<notin> T \<and> X \<subseteq> T \<and>
     (\<forall>t\<in>T - X. st a t \<noteq> Running) \<and>
     distinct (a_ready a) \<and> set (a_ready a) = {t \<in> T - X. st a t = Ready} \<and>
     (\<forall>ep\<in>E. distinct (a_wait a ep) \<and> (\<forall>t\<in>set (a_wait a ep). t \<in> T - X \<and> ipc_blocked (st a t))) \<and>
     (\<forall>t\<in>T - X. ipc_blocked (st a t) \<longrightarrow> (\<exists>ep\<in>E. t \<in> set (a_wait a ep))) \<and>
     (\<forall>ep\<in>E. \<forall>ep'\<in>E. ep \<noteq> ep' \<longrightarrow> set (a_wait a ep) \<inter> set (a_wait a ep') = {}) \<and>
     (\<forall>ep\<in>E. \<forall>t\<in>set (a_wait a ep). \<forall>u\<in>set (a_wait a ep). st a t = BlockedRecv \<longleftrightarrow> st a u = BlockedRecv)"

text \<open>
  A caller that waits for its reply is owed it by exactly one task, and that task is alive.
\<close>

definition replies_ok :: "u64 set \<Rightarrow> u64 set \<Rightarrow> akernel \<Rightarrow> bool" where
  "replies_ok T X a \<longleftrightarrow>
     (\<forall>t\<in>T. rp a t \<noteq> 0 \<longrightarrow> rp a t \<in> T - X \<and> st a (rp a t) = BlockedReply) \<and>
     (\<forall>t\<in>T. \<forall>u\<in>T. rp a t = rp a u \<and> rp a t \<noteq> 0 \<longrightarrow> t = u) \<and>
     (\<forall>t\<in>T - X. st a t = BlockedReply \<longrightarrow> (\<exists>h\<in>T. rp a h = t)) \<and>
     (\<forall>t\<in>T - X. rp a t \<noteq> 0 \<longrightarrow> st a t \<notin> {Inactive, Stopped, Dead})"

text \<open>
  A task that can run has an address space, one of the roots \<open>R\<close>; a root fits the address field of
  TTBR0.
\<close>

abbreviation sp :: "akernel \<Rightarrow> u64 \<Rightarrow> u64" where
  "sp a t \<equiv> t_ttbr0_pa (a_tcb a t)"

definition roots_ok :: "u64 set \<Rightarrow> u64 set \<Rightarrow> u64 set \<Rightarrow> akernel \<Rightarrow> bool" where
  "roots_ok R T X a \<longleftrightarrow>
     (\<forall>r\<in>R. r AND 0x0000FFFFFFFFFFFE = r) \<and> (\<forall>t\<in>T. t \<in> X \<or> st a t \<noteq> Inactive \<longrightarrow> sp a t \<in> R)"

definition a_ok :: "u64 set \<Rightarrow> u64 set \<Rightarrow> u64 set \<Rightarrow> u64 set \<Rightarrow> akernel \<Rightarrow> bool" where
  "a_ok R T E X a \<longleftrightarrow> queues_ok T E X a \<and> replies_ok T X a \<and> roots_ok R T X a"

text \<open>Between two operations the installed address space is the running task's.\<close>

definition a_inv :: "u64 set \<Rightarrow> u64 set \<Rightarrow> u64 set \<Rightarrow> akernel \<Rightarrow> bool" where
  "a_inv R T E a \<longleftrightarrow> a_ok R T E {a_cur a} a \<and> st a (a_cur a) = Running \<and>
     current_user_root (a_regs a) = sp a (a_cur a)"

section \<open>The operations' building blocks keep the invariant\<close>

lemma queues_okI:
  assumes "0 \<notin> T" "X \<subseteq> T"
    and "\<And>t. t \<in> T \<Longrightarrow> t \<notin> X \<Longrightarrow> st a t \<noteq> Running"
    and "distinct (a_ready a)"
    and "\<And>t. t \<in> set (a_ready a) \<longleftrightarrow> t \<in> T \<and> t \<notin> X \<and> st a t = Ready"
    and "\<And>ep. ep \<in> E \<Longrightarrow> distinct (a_wait a ep)"
    and "\<And>ep t. ep \<in> E \<Longrightarrow> t \<in> set (a_wait a ep) \<Longrightarrow> t \<in> T \<and> t \<notin> X \<and> ipc_blocked (st a t)"
    and "\<And>t. t \<in> T \<Longrightarrow> t \<notin> X \<Longrightarrow> ipc_blocked (st a t) \<Longrightarrow> \<exists>ep\<in>E. t \<in> set (a_wait a ep)"
    and "\<And>ep ep' t. ep \<in> E \<Longrightarrow> ep' \<in> E \<Longrightarrow> t \<in> set (a_wait a ep) \<Longrightarrow> t \<in> set (a_wait a ep') \<Longrightarrow> ep = ep'"
    and "\<And>ep t u. ep \<in> E \<Longrightarrow> t \<in> set (a_wait a ep) \<Longrightarrow> u \<in> set (a_wait a ep) \<Longrightarrow>
           st a t = BlockedRecv \<Longrightarrow> st a u = BlockedRecv"
  shows "queues_ok T E X a"
  unfolding queues_ok_def
proof (intro conjI ballI impI)
  show "set (a_ready a) = {t \<in> T - X. st a t = Ready}" using assms(5) by auto
  fix ep ep' assume "ep \<in> E" "ep' \<in> E" "ep \<noteq> ep'"
  then show "set (a_wait a ep) \<inter> set (a_wait a ep') = {}" using assms(9) by blast
next
  fix ep t u assume "ep \<in> E" "t \<in> set (a_wait a ep)" "u \<in> set (a_wait a ep)"
  then show "(st a t = BlockedRecv) = (st a u = BlockedRecv)" using assms(10) by blast
qed (use assms in auto)

lemma queues_okD:
  assumes "queues_ok T E X a"
  shows "0 \<notin> T" "X \<subseteq> T"
    "\<And>t. t \<in> T \<Longrightarrow> t \<notin> X \<Longrightarrow> st a t \<noteq> Running"
    "distinct (a_ready a)"
    "\<And>t. t \<in> set (a_ready a) \<longleftrightarrow> t \<in> T \<and> t \<notin> X \<and> st a t = Ready"
    "\<And>ep. ep \<in> E \<Longrightarrow> distinct (a_wait a ep)"
    "\<And>ep t. ep \<in> E \<Longrightarrow> t \<in> set (a_wait a ep) \<Longrightarrow> t \<in> T \<and> t \<notin> X \<and> ipc_blocked (st a t)"
    "\<And>t. t \<in> T \<Longrightarrow> t \<notin> X \<Longrightarrow> ipc_blocked (st a t) \<Longrightarrow> \<exists>ep\<in>E. t \<in> set (a_wait a ep)"
    "\<And>ep ep' t. ep \<in> E \<Longrightarrow> ep' \<in> E \<Longrightarrow> t \<in> set (a_wait a ep) \<Longrightarrow> t \<in> set (a_wait a ep') \<Longrightarrow> ep = ep'"
    "\<And>ep t u. ep \<in> E \<Longrightarrow> t \<in> set (a_wait a ep) \<Longrightarrow> u \<in> set (a_wait a ep) \<Longrightarrow>
       st a t = BlockedRecv \<Longrightarrow> st a u = BlockedRecv"
  using assms unfolding queues_ok_def by blast+

lemma replies_okD:
  assumes "replies_ok T X a"
  shows "\<And>t. t \<in> T \<Longrightarrow> rp a t \<noteq> 0 \<Longrightarrow> rp a t \<in> T \<and> rp a t \<notin> X \<and> st a (rp a t) = BlockedReply"
    "\<And>t u. t \<in> T \<Longrightarrow> u \<in> T \<Longrightarrow> rp a t = rp a u \<Longrightarrow> rp a t \<noteq> 0 \<Longrightarrow> t = u"
    "\<And>t. t \<in> T \<Longrightarrow> t \<notin> X \<Longrightarrow> st a t = BlockedReply \<Longrightarrow> \<exists>h\<in>T. rp a h = t"
    "\<And>t. t \<in> T \<Longrightarrow> t \<notin> X \<Longrightarrow> rp a t \<noteq> 0 \<Longrightarrow> st a t \<notin> {Inactive, Stopped, Dead}"
  using assms unfolding replies_ok_def by blast+

lemma replies_okI:
  assumes "\<And>t. t \<in> T \<Longrightarrow> rp a t \<noteq> 0 \<Longrightarrow> rp a t \<in> T \<and> rp a t \<notin> X \<and> st a (rp a t) = BlockedReply"
    and "\<And>t u. t \<in> T \<Longrightarrow> u \<in> T \<Longrightarrow> rp a t = rp a u \<Longrightarrow> rp a t \<noteq> 0 \<Longrightarrow> t = u"
    and "\<And>t. t \<in> T \<Longrightarrow> t \<notin> X \<Longrightarrow> st a t = BlockedReply \<Longrightarrow> \<exists>h\<in>T. rp a h = t"
    and "\<And>t. t \<in> T \<Longrightarrow> t \<notin> X \<Longrightarrow> rp a t \<noteq> 0 \<Longrightarrow> st a t \<notin> {Inactive, Stopped, Dead}"
  shows "replies_ok T X a"
  using assms unfolding replies_ok_def by auto

lemma roots_cong:
  assumes "roots_ok R T X a" "\<And>t. t \<in> T \<Longrightarrow> sp a' t = sp a t"
    "\<And>t. t \<in> T \<Longrightarrow> t \<in> X' \<or> st a' t \<noteq> Inactive \<Longrightarrow> t \<in> X \<or> st a t \<noteq> Inactive"
  shows "roots_ok R T X' a'"
  using assms unfolding roots_ok_def by metis

lemma a_upd_sel [simp]:
  "a_cur (a_upd t f a) = a_cur a" "a_ready (a_upd t f a) = a_ready a"
  "a_wait (a_upd t f a) = a_wait a" "a_tcb (a_upd t f a) = (a_tcb a)(t := f (a_tcb a t))"
  "a_regs (a_upd t f a) = a_regs a" "a_other (a_upd t f a) = a_other a"
  by (simp_all add: a_upd_def)

lemma a_enqueue_sel [simp]:
  "a_cur (a_enqueue t a) = a_cur a" "a_ready (a_enqueue t a) = a_ready a @ [t]"
  "a_wait (a_enqueue t a) = a_wait a" "a_tcb (a_enqueue t a) = set_state t Ready (a_tcb a)"
  "a_regs (a_enqueue t a) = a_regs a"
  by (simp_all add: a_enqueue_def)

lemma set_state_sel [simp]:
  "t_state (set_state t s h u) = (if u = t then s else t_state (h u))"
  "t_reply_to (set_state t s h u) = t_reply_to (h u)"
  "t_ctx (set_state t s h u) = t_ctx (h u)"
  "t_ttbr0_pa (set_state t s h u) = t_ttbr0_pa (h u)"
  by (simp_all add: set_state_def)

lemma put_x_sel [simp]:
  "t_state (put_x i v t) = t_state t" "t_reply_to (put_x i v t) = t_reply_to t"
  "t_ttbr0_pa (put_x i v t) = t_ttbr0_pa t" "t_next (put_x i v t) = t_next t"
  by (simp_all add: put_x_def)

lemma ok_free:
  assumes "a_ok R T E X a" "t \<in> X"
  shows "t \<noteq> 0" "t \<in> T" "t \<notin> set (a_ready a)" "ep \<in> E \<Longrightarrow> t \<notin> set (a_wait a ep)"
  using assms by (auto simp: a_ok_def queues_ok_def)

lemma ok_enqueue:
  assumes ok: "a_ok R T E (insert t X) a" and t: "t \<notin> X"
  shows "a_ok R T E X (a_enqueue t a)"
proof -
  have q: "queues_ok T E (insert t X) a" and r: "replies_ok T (insert t X) a" and rt: "roots_ok R T (insert t X) a"
    using ok by (auto simp: a_ok_def)
  note Q = queues_okD [OF q] and R = replies_okD [OF r]
  have s: "st (a_enqueue t a) u = (if u = t then Ready else st a u)" "rp (a_enqueue t a) u = rp a u" for u
    by simp_all
  have "queues_ok T E X (a_enqueue t a)"
  proof (rule queues_okI, unfold s a_enqueue_sel(1-3))
    show "distinct (a_ready a @ [t])" using Q(4) Q(5) [of t] by auto
    show "u \<in> set (a_ready a @ [t]) \<longleftrightarrow> u \<in> T \<and> u \<notin> X \<and> (if u = t then Ready else st a u) = Ready" for u
      using Q(2) Q(5) [of u] t by auto
    show "u \<in> T \<and> u \<notin> X \<and> ipc_blocked (if u = t then Ready else st a u)"
      if "ep \<in> E" "u \<in> set (a_wait a ep)" for ep u
      using Q(7) [OF that] by auto
    show "\<exists>ep\<in>E. u \<in> set (a_wait a ep)"
      if "u \<in> T" "u \<notin> X" "ipc_blocked (if u = t then Ready else st a u)" for u
      using Q(8) [of u] that by (auto simp: ipc_blocked_def split: if_splits)
    show "(if v = t then Ready else st a v) = BlockedRecv" if "ep \<in> E" "u \<in> set (a_wait a ep)" "v \<in> set (a_wait a ep)"
        "(if u = t then Ready else st a u) = BlockedRecv" for ep u v
      using Q(7) [OF that(1,3)] Q(10) [OF that(1-3)] that(4) by (auto split: if_splits)
  qed (use Q in auto)
  moreover have "replies_ok T X (a_enqueue t a)"
  proof (rule replies_okI, unfold s)
    show "rp a u \<in> T \<and> rp a u \<notin> X \<and> (if rp a u = t then Ready else st a (rp a u)) = BlockedReply"
      if "u \<in> T" "rp a u \<noteq> 0" for u
      using R(1) [OF that] by auto
    show "\<exists>h\<in>T. rp a h = u" if "u \<in> T" "u \<notin> X" "(if u = t then Ready else st a u) = BlockedReply" for u
      using R(3) [of u] that by (auto split: if_splits)
    show "(if u = t then Ready else st a u) \<notin> {Inactive, Stopped, Dead}" if "u \<in> T" "u \<notin> X" "rp a u \<noteq> 0" for u
      using R(4) [of u] that by auto
  qed (use R in auto)
  moreover have "roots_ok R T X (a_enqueue t a)"
    by (rule roots_cong [OF rt]) (auto split: if_splits)
  ultimately show ?thesis
    by (simp add: a_ok_def)
qed

text \<open>Working on a task in transit: its state and registers may change, its reply duty may not.\<close>

lemma ok_transit:
  assumes ok: "a_ok R T E X a" and rd: "a_ready a' = a_ready a" and w: "a_wait a' = a_wait a"
    and s: "\<And>u. u \<notin> X \<Longrightarrow> st a' u = st a u" and d: "\<And>u. rp a' u = rp a u" and p: "\<And>u. sp a' u = sp a u"
  shows "a_ok R T E X a'"
proof -
  have q: "queues_ok T E X a" and r: "replies_ok T X a" and rt: "roots_ok R T X a"
    using ok by (auto simp: a_ok_def)
  note Q = queues_okD [OF q] and R = replies_okD [OF r]
  have "queues_ok T E X a'"
  proof (rule queues_okI, unfold rd w)
    show "u \<in> set (a_ready a) \<longleftrightarrow> u \<in> T \<and> u \<notin> X \<and> st a' u = Ready" for u
      using Q(5) [of u] s by auto
    show "st a' v = BlockedRecv" if "ep \<in> E" "u \<in> set (a_wait a ep)" "v \<in> set (a_wait a ep)"
        "st a' u = BlockedRecv" for ep u v
      using Q(7) [OF that(1,2)] Q(7) [OF that(1,3)] Q(10) [OF that(1-3)] that(4) s by simp
    show "u \<in> T \<and> u \<notin> X \<and> ipc_blocked (st a' u)" if "ep \<in> E" "u \<in> set (a_wait a ep)" for ep u
      using Q(7) [OF that] s by simp
  qed (use Q s in simp_all)
  moreover have "replies_ok T X a'"
  proof (rule replies_okI, unfold d)
    show "rp a u \<in> T \<and> rp a u \<notin> X \<and> st a' (rp a u) = BlockedReply" if "u \<in> T" "rp a u \<noteq> 0" for u
      using R(1) [OF that] s by simp
    show "st a' u \<notin> {Inactive, Stopped, Dead}" if "u \<in> T" "u \<notin> X" "rp a u \<noteq> 0" for u
      using R(4) [OF that] s [OF that(2)] by simp
  qed (use R(2,3) s in simp_all)
  moreover have "roots_ok R T X a'"
    by (rule roots_cong [OF rt]) (use s p in auto)
  ultimately show ?thesis
    by (simp add: a_ok_def)
qed

lemma ok_upd:
  assumes "a_ok R T E X a" "t \<in> X" "t_reply_to (f (a_tcb a t)) = rp a t" "t_ttbr0_pa (f (a_tcb a t)) = sp a t"
  shows "a_ok R T E X (a_upd t f a)"
  by (rule ok_transit [OF assms(1)]) (use assms(2-4) in auto)

lemma replies_insert:
  assumes r: "replies_ok T X a" and t: "st a t \<noteq> BlockedReply" and e: "a_tcb a' = a_tcb a"
  shows "replies_ok T (insert t X) a'"
proof -
  note R = replies_okD [OF r]
  show ?thesis
  proof (rule replies_okI, unfold e)
    show "rp a u \<in> T \<and> rp a u \<notin> insert t X \<and> st a (rp a u) = BlockedReply" if "u \<in> T" "rp a u \<noteq> 0" for u
      using R(1) [OF that] t by auto
    show "st a u \<notin> {Inactive, Stopped, Dead}" if "u \<in> T" "u \<notin> insert t X" "rp a u \<noteq> 0" for u
      using R(4) [of u] that by simp
  qed (use R(2,3) in simp_all)
qed

lemma replies_remove:
  assumes r: "replies_ok T X a" and t: "st a t \<notin> {BlockedReply, Inactive, Stopped, Dead}" and e: "a_tcb a' = a_tcb a"
  shows "replies_ok T (X - {t}) a'"
proof -
  note R = replies_okD [OF r]
  show ?thesis
  proof (rule replies_okI, unfold e)
    show "rp a u \<in> T \<and> rp a u \<notin> X - {t} \<and> st a (rp a u) = BlockedReply" if "u \<in> T" "rp a u \<noteq> 0" for u
      using R(1) [OF that] by simp
    show "\<exists>h\<in>T. rp a h = u" if "u \<in> T" "u \<notin> X - {t}" "st a u = BlockedReply" for u
      using R(3) [of u] that t by auto
    show "st a u \<notin> {Inactive, Stopped, Dead}" if "u \<in> T" "u \<notin> X - {t}" "rp a u \<noteq> 0" for u
      using R(4) [of u] that t by (cases "u = t") auto
  qed (use R(2) in simp)
qed

lemma ok_pop:
  assumes ok: "a_ok R T E X a" and ep: "ep \<in> E" and w: "a_wait a ep = t # ts"
  shows "a_ok R T E (insert t X) (a_pop ep a)" "t \<in> T" "t \<notin> X"
proof -
  have q: "queues_ok T E X a" and r: "replies_ok T X a" and rt: "roots_ok R T X a"
    using ok by (auto simp: a_ok_def)
  note Q = queues_okD [OF q]
  have d: "t \<notin> set ts" "distinct ts" using Q(6) [OF ep] w by auto
  have t: "t \<in> T" "t \<notin> X" "ipc_blocked (st a t)" using Q(7) [OF ep] w by auto
  then show "t \<in> T" "t \<notin> X" by auto
  have w': "a_wait (a_pop ep a) e = (if e = ep then ts else a_wait a e)" for e
    using w by (simp add: a_pop_def)
  have s': "a_tcb (a_pop ep a) = a_tcb a" "a_ready (a_pop ep a) = a_ready a"
    by (auto simp: a_pop_def)
  have sub: "u \<in> set (a_wait (a_pop ep a) e) \<Longrightarrow> u \<in> set (a_wait a e)" for u e
    using w by (auto simp: w' split: if_splits)
  have "queues_ok T E (insert t X) (a_pop ep a)"
  proof (rule queues_okI, unfold s')
    show "u \<in> set (a_ready a) \<longleftrightarrow> u \<in> T \<and> u \<notin> insert t X \<and> st a u = Ready" for u
      using Q(5) [of u] t by (auto simp: ipc_blocked_def)
    show "distinct (a_wait (a_pop ep a) e)" if "e \<in> E" for e
      using that Q(6) d by (auto simp: w')
    show "u \<in> T \<and> u \<notin> insert t X \<and> ipc_blocked (st a u)"
      if e: "e \<in> E" and u: "u \<in> set (a_wait (a_pop ep a) e)" for e u
      using Q(7) [OF e sub [OF u]] Q(9) [OF e ep sub [OF u]] u d w by (auto simp: w' split: if_splits)
    show "\<exists>e\<in>E. u \<in> set (a_wait (a_pop ep a) e)" if u: "u \<in> T" "u \<notin> insert t X" "ipc_blocked (st a u)" for u
    proof -
      obtain e where "e \<in> E" "u \<in> set (a_wait a e)" using Q(8) u by auto
      then show ?thesis using u w by (intro bexI [of _ e]) (auto simp: w')
    qed
    show "e = e'" if "e \<in> E" "e' \<in> E" "u \<in> set (a_wait (a_pop ep a) e)" "u \<in> set (a_wait (a_pop ep a) e')" for e e' u
      using Q(9) that sub by blast
    show "st a v = BlockedRecv" if "e \<in> E" "u \<in> set (a_wait (a_pop ep a) e)" "v \<in> set (a_wait (a_pop ep a) e)"
        "st a u = BlockedRecv" for e u v
      using Q(10) that sub by blast
  qed (use Q(1-4) t in auto)
  moreover have "replies_ok T (insert t X) (a_pop ep a)"
    using replies_insert [OF r _ s'(1)] t(3) by (auto simp: ipc_blocked_def)
  moreover have "roots_ok R T (insert t X) (a_pop ep a)"
    by (rule roots_cong [OF rt]) (use s' t in \<open>auto simp: ipc_blocked_def\<close>)
  ultimately show "a_ok R T E (insert t X) (a_pop ep a)"
    by (simp add: a_ok_def)
qed

lemma ok_push:
  assumes ok: "a_ok R T E X a" and ep: "ep \<in> E" and t: "t \<in> X" "ipc_blocked (st a t)"
    and hom: "\<And>u. u \<in> set (a_wait a ep) \<Longrightarrow> st a u = BlockedRecv \<longleftrightarrow> st a t = BlockedRecv"
  shows "a_ok R T E (X - {t}) (a_push ep t a)"
proof -
  have q: "queues_ok T E X a" and r: "replies_ok T X a" and rt: "roots_ok R T X a"
    using ok by (auto simp: a_ok_def)
  note Q = queues_okD [OF q]
  have tf: "t \<in> T" "e \<in> E \<Longrightarrow> t \<notin> set (a_wait a e)" for e
    using t Q(2,7) by blast+
  have w': "a_wait (a_push ep t a) e = (if e = ep then a_wait a ep @ [t] else a_wait a e)" for e
    by (simp add: a_push_def)
  have s': "a_tcb (a_push ep t a) = a_tcb a" "a_ready (a_push ep t a) = a_ready a"
    by (auto simp: a_push_def)
  have mem: "u \<in> set (a_wait (a_push ep t a) e) \<longleftrightarrow> u \<in> set (a_wait a e) \<or> e = ep \<and> u = t" for u e
    by (auto simp: w')
  have "queues_ok T E (X - {t}) (a_push ep t a)"
  proof (rule queues_okI, unfold s' mem)
    show "u \<in> set (a_ready a) \<longleftrightarrow> u \<in> T \<and> u \<notin> X - {t} \<and> st a u = Ready" for u
      using Q(5) [of u] t by (auto simp: ipc_blocked_def)
    show "distinct (a_wait (a_push ep t a) e)" if "e \<in> E" for e
      using that Q(6) tf by (auto simp: w')
    show "u \<in> T \<and> u \<notin> X - {t} \<and> ipc_blocked (st a u)"
      if "e \<in> E" "u \<in> set (a_wait a e) \<or> e = ep \<and> u = t" for e u
      using Q(7) that t tf by blast
    show "\<exists>e\<in>E. u \<in> set (a_wait a e) \<or> e = ep \<and> u = t"
      if "u \<in> T" "u \<notin> X - {t}" "ipc_blocked (st a u)" for u
      using Q(8) that ep by blast
    show "e = e'" if "e \<in> E" "e' \<in> E" "u \<in> set (a_wait a e) \<or> e = ep \<and> u = t"
        "u \<in> set (a_wait a e') \<or> e' = ep \<and> u = t" for e e' u
      using Q(9) that tf by blast
    show "st a v = BlockedRecv" if "e \<in> E" "u \<in> set (a_wait a e) \<or> e = ep \<and> u = t"
        "v \<in> set (a_wait a e) \<or> e = ep \<and> v = t" "st a u = BlockedRecv" for e u v
      using Q(10) that hom by blast
    show "st a u \<noteq> Running" if "u \<in> T" "u \<notin> X - {t}" for u
      using that t Q(3) by (auto simp: ipc_blocked_def)
  qed (use Q(1-4) in auto)
  moreover have "replies_ok T (X - {t}) (a_push ep t a)"
    using replies_remove [OF r _ s'(1)] t(2) by (auto simp: ipc_blocked_def)
  moreover have "roots_ok R T (X - {t}) (a_push ep t a)"
    by (rule roots_cong [OF rt]) (use s' in auto)
  ultimately show ?thesis
    by (simp add: a_ok_def)
qed

lemma ok_next:
  assumes ok: "a_ok R T E X a" and rd: "a_ready a = t # ts"
  shows "a_ok R T E (insert t X) (a\<lparr>a_ready := ts\<rparr>)" "t \<in> T" "t \<notin> X" "st a t = Ready"
proof -
  have q: "queues_ok T E X a" and r: "replies_ok T X a" and rt: "roots_ok R T X a"
    using ok by (auto simp: a_ok_def)
  note Q = queues_okD [OF q]
  have t: "t \<in> T" "t \<notin> X" "st a t = Ready" and d: "t \<notin> set ts" "distinct ts"
    using Q(4) Q(5) [of t] rd by auto
  then show "t \<in> T" "t \<notin> X" "st a t = Ready" by auto
  have "queues_ok T E (insert t X) (a\<lparr>a_ready := ts\<rparr>)"
  proof (rule queues_okI)
    show "u \<in> set (a_ready (a\<lparr>a_ready := ts\<rparr>)) \<longleftrightarrow>
        u \<in> T \<and> u \<notin> insert t X \<and> st (a\<lparr>a_ready := ts\<rparr>) u = Ready" for u
      using Q(5) [of u] t d rd by auto
    show "u \<in> T \<and> u \<notin> insert t X \<and> ipc_blocked (st (a\<lparr>a_ready := ts\<rparr>) u)"
      if "e \<in> E" "u \<in> set (a_wait (a\<lparr>a_ready := ts\<rparr>) e)" for e u
      using Q(7) [of e u] that t by (auto simp: ipc_blocked_def)
    show "e = e'" if "e \<in> E" "e' \<in> E" "u \<in> set (a_wait (a\<lparr>a_ready := ts\<rparr>) e)"
        "u \<in> set (a_wait (a\<lparr>a_ready := ts\<rparr>) e')" for e e' u
      using Q(9) [of e e' u] that by simp
    show "st (a\<lparr>a_ready := ts\<rparr>) v = BlockedRecv" if "e \<in> E" "u \<in> set (a_wait (a\<lparr>a_ready := ts\<rparr>) e)"
        "v \<in> set (a_wait (a\<lparr>a_ready := ts\<rparr>) e)" "st (a\<lparr>a_ready := ts\<rparr>) u = BlockedRecv" for e u v
      using Q(10) [of e u v] that by simp
  qed (use Q(1-4,6,8) t d in simp_all)
  moreover have "replies_ok T (insert t X) (a\<lparr>a_ready := ts\<rparr>)"
    by (rule replies_insert [OF r]) (simp_all add: t)
  moreover have "roots_ok R T (insert t X) (a\<lparr>a_ready := ts\<rparr>)"
    by (rule roots_cong [OF rt]) (use t in auto)
  ultimately show "a_ok R T E (insert t X) (a\<lparr>a_ready := ts\<rparr>)"
    by (simp add: a_ok_def)
qed

lemma ok_take:
  assumes ok: "a_ok R T E X a" and h: "h \<in> T" and c: "rp a h = c" "c \<noteq> 0"
  shows "a_ok R T E (insert c X) (a_upd h (\<lambda>t. t\<lparr>t_reply_to := 0\<rparr>) a)" "c \<in> T" "c \<notin> X" "st a c = BlockedReply"
proof -
  define a' where "a' = a_upd h (\<lambda>t. t\<lparr>t_reply_to := 0\<rparr>) a"
  have sel: "a_ready a' = a_ready a" "a_wait a' = a_wait a" "st a' u = st a u"
      "rp a' u = (if u = h then 0 else rp a u)" for u
    by (simp_all add: a'_def)
  have q: "queues_ok T E X a" and r: "replies_ok T X a" and rt: "roots_ok R T X a"
    using ok by (auto simp: a_ok_def)
  note Q = queues_okD [OF q] and R = replies_okD [OF r]
  have cs: "c \<in> T" "c \<notin> X" "st a c = BlockedReply" using R(1) [OF h] c by auto
  then show "c \<in> T" "c \<notin> X" "st a c = BlockedReply" by auto
  have "queues_ok T E (insert c X) a'"
  proof (rule queues_okI, unfold sel)
    show "u \<in> set (a_ready a) \<longleftrightarrow> u \<in> T \<and> u \<notin> insert c X \<and> st a u = Ready" for u
      using Q(5) [of u] cs by auto
    show "u \<in> T \<and> u \<notin> insert c X \<and> ipc_blocked (st a u)" if "ep \<in> E" "u \<in> set (a_wait a ep)" for ep u
      using Q(7) [OF that] cs by (auto simp: ipc_blocked_def)
    show "st a v = BlockedRecv" if "ep \<in> E" "u \<in> set (a_wait a ep)" "v \<in> set (a_wait a ep)" "st a u = BlockedRecv" for ep u v
      using Q(10) [OF that] .
    show "ep = ep'" if "ep \<in> E" "ep' \<in> E" "u \<in> set (a_wait a ep)" "u \<in> set (a_wait a ep')" for ep ep' u
      using Q(9) [OF that] .
  qed (use Q(1-4,6,8) cs in simp_all)
  moreover have "replies_ok T (insert c X) a'"
  proof (rule replies_okI, unfold sel)
    fix u assume u: "u \<in> T" "(if u = h then 0 else rp a u) \<noteq> 0"
    have "u \<noteq> h" "rp a u \<noteq> 0" using u(2) by (simp_all split: if_splits)
    moreover have "rp a u \<noteq> c"
    proof
      assume "rp a u = c"
      then have "rp a h = rp a u" "rp a h \<noteq> 0" using c by simp_all
      then show False using R(2) [OF h u(1)] \<open>u \<noteq> h\<close> by simp
    qed
    ultimately show "(if u = h then 0 else rp a u) \<in> T \<and> (if u = h then 0 else rp a u) \<notin> insert c X \<and>
        st a (if u = h then 0 else rp a u) = BlockedReply"
      using R(1) [OF u(1)] by simp
  next
    fix u assume u: "u \<in> T" "u \<notin> insert c X" "st a u = BlockedReply"
    then obtain k where "k \<in> T" "rp a k = u" using R(3) [of u] by auto
    then show "\<exists>k\<in>T. (if k = h then 0 else rp a k) = u"
      using u c by (intro bexI [of _ k]) auto
  next
    fix u v assume "u \<in> T" "v \<in> T" "(if u = h then 0 else rp a u) = (if v = h then 0 else rp a v)"
      "(if u = h then 0 else rp a u) \<noteq> 0"
    then show "u = v" using R(2) [of u v] by (auto split: if_splits)
  next
    fix u assume "u \<in> T" "u \<notin> insert c X" "(if u = h then 0 else rp a u) \<noteq> 0"
    then show "st a u \<notin> {Inactive, Stopped, Dead}" using R(4) [of u] by (auto split: if_splits)
  qed
  moreover have "roots_ok R T (insert c X) a'"
    by (rule roots_cong [OF rt]) (use cs in \<open>auto simp: a'_def split: if_splits\<close>)
  ultimately show "a_ok R T E (insert c X) (a_upd h (\<lambda>t. t\<lparr>t_reply_to := 0\<rparr>) a)"
    by (simp add: a_ok_def a'_def)
qed

text \<open>A task in transit becomes a caller that waits for the reply of \<open>h\<close>.\<close>

lemma ok_give:
  assumes ok: "a_ok R T E X a" and h: "h \<in> X" "rp a h = 0" "h \<noteq> c" and c: "c \<in> X"
    and a': "a_ready a' = a_ready a" "a_wait a' = a_wait a"
      "\<And>u. st a' u = (if u = c then BlockedReply else st a u)" "\<And>u. rp a' u = (if u = h then c else rp a u)"
      "\<And>u. sp a' u = sp a u"
  shows "a_ok R T E (X - {c}) a'"
proof -
  have q: "queues_ok T E X a" and r: "replies_ok T X a" and rt: "roots_ok R T X a"
    using ok by (auto simp: a_ok_def)
  note Q = queues_okD [OF q] and R = replies_okD [OF r]
  have cT: "c \<in> T" "h \<in> T" using c h Q(2) by auto
  have "queues_ok T E (X - {c}) a'"
  proof (rule queues_okI, unfold a')
    show "u \<in> set (a_ready a) \<longleftrightarrow> u \<in> T \<and> u \<notin> X - {c} \<and> (if u = c then BlockedReply else st a u) = Ready" for u
      using Q(5) [of u] c by auto
    show "u \<in> T \<and> u \<notin> X - {c} \<and> ipc_blocked (if u = c then BlockedReply else st a u)"
      if "ep \<in> E" "u \<in> set (a_wait a ep)" for ep u
      using Q(7) [OF that] c by (cases "u = c") auto
    show "(if v = c then BlockedReply else st a v) = BlockedRecv"
      if "ep \<in> E" "u \<in> set (a_wait a ep)" "v \<in> set (a_wait a ep)" "(if u = c then BlockedReply else st a u) = BlockedRecv"
      for ep u v
      using Q(7) [OF that(1,3)] Q(10) [OF that(1-3)] that(4) c by (auto split: if_splits)
    show "\<exists>ep\<in>E. u \<in> set (a_wait a ep)"
      if "u \<in> T" "u \<notin> X - {c}" "ipc_blocked (if u = c then BlockedReply else st a u)" for u
      using Q(8) [of u] that by (auto simp: ipc_blocked_def split: if_splits)
    show "ep = ep'" if "ep \<in> E" "ep' \<in> E" "u \<in> set (a_wait a ep)" "u \<in> set (a_wait a ep')" for ep ep' u
      using Q(9) [OF that] .
    show "(if u = c then BlockedReply else st a u) \<noteq> Running" if "u \<in> T" "u \<notin> X - {c}" for u
      using Q(3) [of u] that by auto
  qed (use Q(1,2,4,6) in auto)
  moreover have "replies_ok T (X - {c}) a'"
  proof (rule replies_okI, unfold a')
    fix u assume "u \<in> T" "(if u = h then c else rp a u) \<noteq> 0"
    then show "(if u = h then c else rp a u) \<in> T \<and> (if u = h then c else rp a u) \<notin> X - {c} \<and>
        (if (if u = h then c else rp a u) = c then BlockedReply else st a (if u = h then c else rp a u)) = BlockedReply"
      using R(1) [of u] cT by auto
  next
    fix u v assume "u \<in> T" "v \<in> T" "(if u = h then c else rp a u) = (if v = h then c else rp a v)"
      "(if u = h then c else rp a u) \<noteq> 0"
    then show "u = v" using R(1) [of u] R(1) [of v] R(2) [of u v] c by (auto split: if_splits)
  next
    fix u assume u: "u \<in> T" "u \<notin> X - {c}" "(if u = c then BlockedReply else st a u) = BlockedReply"
    show "\<exists>k\<in>T. (if k = h then c else rp a k) = u"
    proof (cases "u = c")
      case True then show ?thesis using cT by auto
    next
      case False
      then obtain k where "k \<in> T" "rp a k = u" using R(3) [of u] u by auto
      then show ?thesis using h Q(1) u by (intro bexI [of _ k]) auto
    qed
  next
    fix u assume "u \<in> T" "u \<notin> X - {c}" "(if u = h then c else rp a u) \<noteq> 0"
    then show "(if u = c then BlockedReply else st a u) \<notin> {Inactive, Stopped, Dead}"
      using R(4) [of u] h by (auto split: if_splits)
  qed
  moreover have "roots_ok R T (X - {c}) a'"
    by (rule roots_cong [OF rt]) (use a' c in \<open>auto split: if_splits\<close>)
  ultimately show ?thesis
    by (simp add: a_ok_def)
qed

text \<open>A task that is not scheduled may leave the kernel's hands without being queued, and be taken up again.\<close>

lemma ok_idle:
  assumes ok: "a_ok R T E X a" and t: "t \<in> X" "st a t \<in> {Inactive, Stopped, Dead}" "rp a t = 0"
  shows "a_ok R T E (X - {t}) a"
proof -
  have q: "queues_ok T E X a" and r: "replies_ok T X a" and rt: "roots_ok R T X a"
    using ok by (auto simp: a_ok_def)
  note Q = queues_okD [OF q] and R = replies_okD [OF r]
  have "queues_ok T E (X - {t}) a"
  proof (rule queues_okI)
    show "u \<in> set (a_ready a) \<longleftrightarrow> u \<in> T \<and> u \<notin> X - {t} \<and> st a u = Ready" for u
      using Q(5) [of u] t by auto
    show "u \<in> T \<and> u \<notin> X - {t} \<and> ipc_blocked (st a u)" if "ep \<in> E" "u \<in> set (a_wait a ep)" for ep u
      using Q(7) [OF that] by simp
    show "\<exists>ep\<in>E. u \<in> set (a_wait a ep)" if "u \<in> T" "u \<notin> X - {t}" "ipc_blocked (st a u)" for u
      using Q(8) [of u] that t by (auto simp: ipc_blocked_def)
    show "ep = ep'" if "ep \<in> E" "ep' \<in> E" "u \<in> set (a_wait a ep)" "u \<in> set (a_wait a ep')" for ep ep' u
      using Q(9) [OF that] .
    show "st a v = BlockedRecv" if "ep \<in> E" "u \<in> set (a_wait a ep)" "v \<in> set (a_wait a ep)" "st a u = BlockedRecv" for ep u v
      using Q(10) [OF that] .
    show "st a u \<noteq> Running" if "u \<in> T" "u \<notin> X - {t}" for u
      using Q(3) [of u] that t by auto
  qed (use Q(1,2,4,6) in auto)
  moreover have "replies_ok T (X - {t}) a"
  proof (rule replies_okI)
    show "rp a u \<in> T \<and> rp a u \<notin> X - {t} \<and> st a (rp a u) = BlockedReply" if "u \<in> T" "rp a u \<noteq> 0" for u
      using R(1) [OF that] by simp
    show "\<exists>h\<in>T. rp a h = u" if "u \<in> T" "u \<notin> X - {t}" "st a u = BlockedReply" for u
      using R(3) [of u] that t by auto
    show "st a u \<notin> {Inactive, Stopped, Dead}" if "u \<in> T" "u \<notin> X - {t}" "rp a u \<noteq> 0" for u
      using R(4) [of u] that t by (cases "u = t") auto
  qed (use R(2) in simp)
  moreover have "roots_ok R T (X - {t}) a"
    by (rule roots_cong [OF rt]) auto
  ultimately show ?thesis
    by (simp add: a_ok_def)
qed

lemma ok_take_idle:
  assumes ok: "a_ok R T E X a" and t: "t \<in> T" "t \<notin> X" "st a t = Stopped"
  shows "a_ok R T E (insert t X) a" "rp a t = 0"
proof -
  have q: "queues_ok T E X a" and r: "replies_ok T X a" and rt: "roots_ok R T X a"
    using ok by (auto simp: a_ok_def)
  note Q = queues_okD [OF q]
  show "rp a t = 0" using replies_okD(4) [OF r t(1,2)] t(3) by auto
  have "queues_ok T E (insert t X) a"
  proof (rule queues_okI)
    show "u \<in> set (a_ready a) \<longleftrightarrow> u \<in> T \<and> u \<notin> insert t X \<and> st a u = Ready" for u
      using Q(5) [of u] t by auto
    show "u \<in> T \<and> u \<notin> insert t X \<and> ipc_blocked (st a u)" if "ep \<in> E" "u \<in> set (a_wait a ep)" for ep u
      using Q(7) [OF that] t by (auto simp: ipc_blocked_def)
    show "\<exists>ep\<in>E. u \<in> set (a_wait a ep)" if "u \<in> T" "u \<notin> insert t X" "ipc_blocked (st a u)" for u
      using Q(8) [of u] that by simp
    show "ep = ep'" if "ep \<in> E" "ep' \<in> E" "u \<in> set (a_wait a ep)" "u \<in> set (a_wait a ep')" for ep ep' u
      using Q(9) [OF that] .
    show "st a v = BlockedRecv" if "ep \<in> E" "u \<in> set (a_wait a ep)" "v \<in> set (a_wait a ep)" "st a u = BlockedRecv" for ep u v
      using Q(10) [OF that] .
    show "st a u \<noteq> Running" if "u \<in> T" "u \<notin> insert t X" for u
      using Q(3) [of u] that by simp
  qed (use Q(1,2,4,6) t in auto)
  moreover have "replies_ok T (insert t X) a"
    by (rule replies_insert [OF r]) (use t(3) in auto)
  moreover have "roots_ok R T (insert t X) a"
    by (rule roots_cong [OF rt]) (use t in auto)
  ultimately show "a_ok R T E (insert t X) a"
    by (simp add: a_ok_def)
qed

lemma ok_configure:
  assumes ok: "a_ok R T E X a" and t: "t \<in> T" "t \<notin> X" "st a t = Inactive"
    and a': "a_ready a' = a_ready a" "a_wait a' = a_wait a" "\<And>u. st a' u = (if u = t then Stopped else st a u)"
      "\<And>u. rp a' u = rp a u" "\<And>u. u \<noteq> t \<Longrightarrow> sp a' u = sp a u" "sp a' t \<in> R"
  shows "a_ok R T E X a'"
proof -
  have q: "queues_ok T E X a" and r: "replies_ok T X a" and rt: "roots_ok R T X a"
    using ok by (auto simp: a_ok_def)
  note Q = queues_okD [OF q] and R = replies_okD [OF r]
  have w: "u \<noteq> t" if "ep \<in> E" "u \<in> set (a_wait a ep)" for ep u
    using Q(7) [OF that] t by (auto simp: ipc_blocked_def)
  have "queues_ok T E X a'"
  proof (rule queues_okI, unfold a'(1,2))
    show "u \<in> set (a_ready a) \<longleftrightarrow> u \<in> T \<and> u \<notin> X \<and> st a' u = Ready" for u
      using Q(5) [of u] t a'(3) by auto
    show "u \<in> T \<and> u \<notin> X \<and> ipc_blocked (st a' u)" if "ep \<in> E" "u \<in> set (a_wait a ep)" for ep u
      using Q(7) [OF that] w [OF that] a'(3) by simp
    show "\<exists>ep\<in>E. u \<in> set (a_wait a ep)" if "u \<in> T" "u \<notin> X" "ipc_blocked (st a' u)" for u
      using Q(8) [of u] that a'(3) by (auto simp: ipc_blocked_def split: if_splits)
    show "ep = ep'" if "ep \<in> E" "ep' \<in> E" "u \<in> set (a_wait a ep)" "u \<in> set (a_wait a ep')" for ep ep' u
      using Q(9) [OF that] .
    show "st a' v = BlockedRecv" if e: "ep \<in> E" "u \<in> set (a_wait a ep)" "v \<in> set (a_wait a ep)" "st a' u = BlockedRecv" for ep u v
      using Q(10) [OF e(1-3)] w [OF e(1,2)] w [OF e(1,3)] e(4) a'(3) by simp
    show "st a' u \<noteq> Running" if "u \<in> T" "u \<notin> X" for u
      using Q(3) [OF that] a'(3) by simp
  qed (use Q(1,2,4,6) in auto)
  moreover have "replies_ok T X a'"
  proof (rule replies_okI, unfold a'(4))
    show "rp a u \<in> T \<and> rp a u \<notin> X \<and> st a' (rp a u) = BlockedReply" if "u \<in> T" "rp a u \<noteq> 0" for u
      using R(1) [OF that] t a'(3) by auto
    show "\<exists>h\<in>T. rp a h = u" if "u \<in> T" "u \<notin> X" "st a' u = BlockedReply" for u
      using R(3) [of u] that a'(3) by (auto split: if_splits)
    show "st a' u \<notin> {Inactive, Stopped, Dead}" if "u \<in> T" "u \<notin> X" "rp a u \<noteq> 0" for u
      using R(4) [OF that] t a'(3) by auto
  qed (use R(2) in simp)
  moreover have "roots_ok R T X a'"
    using rt a'(3,5,6) t unfolding roots_ok_def by metis
  ultimately show ?thesis
    by (simp add: a_ok_def)
qed

text \<open>New control blocks are inactive, new endpoints have no waiting tasks.\<close>

lemma ok_extend:
  assumes ok: "a_ok R T E X a" and rd: "a_ready a' = a_ready a" and w: "\<And>ep. ep \<in> E \<Longrightarrow> a_wait a' ep = a_wait a ep"
    and tcb: "\<And>t. t \<in> T \<Longrightarrow> a_tcb a' t = a_tcb a t"
    and T: "T \<subseteq> T'" "0 \<notin> T'" "\<And>t. t \<in> T' \<Longrightarrow> t \<notin> T \<Longrightarrow> st a' t = Inactive \<and> rp a' t = 0"
    and E: "E \<subseteq> E'" "\<And>ep. ep \<in> E' \<Longrightarrow> ep \<notin> E \<Longrightarrow> a_wait a' ep = []"
  shows "a_ok R T' E' X a'"
proof -
  have q: "queues_ok T E X a" and r: "replies_ok T X a" and rt: "roots_ok R T X a"
    using ok by (auto simp: a_ok_def)
  note Q = queues_okD [OF q] and R = replies_okD [OF r]
  have wE: "ep \<in> E \<and> t \<in> set (a_wait a ep)" if "ep \<in> E'" "t \<in> set (a_wait a' ep)" for ep t
    using that w E(2) by (cases "ep \<in> E") auto
  have "queues_ok T' E' X a'"
  proof (rule queues_okI)
    show "X \<subseteq> T'" using Q(2) T(1) by blast
    show "st a' t \<noteq> Running" if "t \<in> T'" "t \<notin> X" for t
      using Q(3) [of t] T(3) [of t] tcb [of t] that by (cases "t \<in> T") auto
    show "t \<in> set (a_ready a') \<longleftrightarrow> t \<in> T' \<and> t \<notin> X \<and> st a' t = Ready" for t
      using Q(5) [of t] T(1) T(3) [of t] tcb [of t] rd by (cases "t \<in> T") auto
    show "distinct (a_wait a' ep)" if "ep \<in> E'" for ep
      using Q(6) [of ep] w [of ep] E(2) [OF that] by (cases "ep \<in> E") auto
    show "t \<in> T' \<and> t \<notin> X \<and> ipc_blocked (st a' t)" if "ep \<in> E'" "t \<in> set (a_wait a' ep)" for ep t
      using Q(7) [of ep t] wE [OF that] tcb [of t] T(1) by auto
    show "\<exists>ep\<in>E'. t \<in> set (a_wait a' ep)" if t: "t \<in> T'" "t \<notin> X" "ipc_blocked (st a' t)" for t
    proof -
      have "t \<in> T" using T(3) [of t] t by (cases "t \<in> T") (auto simp: ipc_blocked_def)
      then obtain ep where "ep \<in> E" "t \<in> set (a_wait a ep)" using Q(8) [of t] t tcb by auto
      then show ?thesis using w E(1) by (intro bexI [of _ ep]) auto
    qed
    show "ep = ep'" if "ep \<in> E'" "ep' \<in> E'" "t \<in> set (a_wait a' ep)" "t \<in> set (a_wait a' ep')" for ep ep' t
      using Q(9) [of ep ep' t] wE that by blast
    show "st a' u = BlockedRecv"
      if e: "ep \<in> E'" "t \<in> set (a_wait a' ep)" "u \<in> set (a_wait a' ep)" "st a' t = BlockedRecv" for ep t u
    proof -
      have "t \<in> T" "u \<in> T" using Q(7) wE [OF e(1,2)] wE [OF e(1,3)] by blast+
      then show ?thesis using Q(10) [of ep t u] wE [OF e(1,2)] wE [OF e(1,3)] e(4) tcb by simp
    qed
  qed (use Q(4) rd T(2) in simp_all)
  moreover have "replies_ok T' X a'"
  proof (rule replies_okI)
    have old: "t \<in> T" if "t \<in> T'" "rp a' t \<noteq> 0" for t using T(3) that by blast
    show "rp a' t \<in> T' \<and> rp a' t \<notin> X \<and> st a' (rp a' t) = BlockedReply" if t: "t \<in> T'" "rp a' t \<noteq> 0" for t
      using R(1) [OF old [OF t]] tcb old [OF t] t T(1) by auto
    show "t = u" if t: "t \<in> T'" "u \<in> T'" "rp a' t = rp a' u" "rp a' t \<noteq> 0" for t u
      using R(2) [of t u] old [of t] old [of u] t tcb [of t] tcb [of u] by simp
    show "\<exists>h\<in>T'. rp a' h = t" if t: "t \<in> T'" "t \<notin> X" "st a' t = BlockedReply" for t
    proof -
      have "t \<in> T" using T(3) [of t] t by (cases "t \<in> T") auto
      then obtain h where "h \<in> T" "rp a h = t" using R(3) [of t] t tcb by auto
      then show ?thesis using tcb T(1) by (intro bexI [of _ h]) auto
    qed
    show "st a' t \<notin> {Inactive, Stopped, Dead}" if t: "t \<in> T'" "t \<notin> X" "rp a' t \<noteq> 0" for t
      using R(4) [of t] old [of t] t tcb [of t] by simp
  qed
  moreover have "roots_ok R T' X a'"
    using rt T(1,3) tcb queues_okD(2) [OF q] unfolding roots_ok_def by (metis subsetD)
  ultimately show ?thesis
    by (simp add: a_ok_def)
qed

section \<open>Every operation keeps the invariant\<close>

lemma a_sel [simp]:
  "a_cur (a_pop ep a) = a_cur a" "a_tcb (a_pop ep a) = a_tcb a" "a_ready (a_pop ep a) = a_ready a"
  "a_cur (a_push ep t a) = a_cur a" "a_tcb (a_push ep t a) = a_tcb a" "a_ready (a_push ep t a) = a_ready a"
  "a_cur (a_switch t a) = t" "a_tcb (a_switch t a) = set_state t Running (a_tcb a)"
  "a_ready (a_switch t a) = a_ready a" "a_wait (a_switch t a) = a_wait a"
  "a_cur (a_deliver s d a) = a_cur a" "a_ready (a_deliver s d a) = a_ready a" "a_wait (a_deliver s d a) = a_wait a"
  "st (a_deliver s d a) u = st a u" "rp (a_deliver s d a) u = rp a u" "sp (a_deliver s d a) u = sp a u"
  "a_regs (a_pop ep a) = a_regs a" "a_regs (a_push ep t a) = a_regs a" "a_regs (a_deliver s d a) = a_regs a"
  by (simp_all add: a_pop_def a_push_def a_switch_def a_deliver_def)

text \<open>
  What an operation may leave behind: a running kernel that satisfies the invariant, or the report that
  no task can run, which is true.
\<close>

definition a_res :: "u64 set \<Rightarrow> u64 set \<Rightarrow> u64 set \<Rightarrow> bool \<times> akernel \<Rightarrow> bool" where
  "a_res R T E r \<longleftrightarrow> (if fst r then a_inv R T E (snd r) else a_ok R T E {} (snd r) \<and> a_ready (snd r) = [])"

lemma ok_switch:
  assumes ok: "a_ok R T E {t} a"
  shows "a_inv R T E (a_switch t a)"
proof -
  have "sp a t \<in> R" "\<forall>r\<in>R. r AND 0x0000FFFFFFFFFFFE = r"
    using ok queues_okD(2) [of T E "{t}" a] by (auto simp: a_ok_def roots_ok_def)
  then have "current_user_root (a_regs (a_switch t a)) = sp a t"
    by (auto simp: a_switch_def install_user_ttbr0_def current_user_root_def)
  then show ?thesis
    unfolding a_inv_def a_sel by (intro conjI ok_transit [OF ok]) auto
qed

lemma ok_block:
  assumes ok: "a_ok R T E {} a"
  shows "a_res R T E (a_block a)"
proof (cases "a_ready a")
  case Nil
  then show ?thesis using ok by (simp add: a_res_def a_block_def)
next
  case (Cons t ts)
  then show ?thesis
    using ok_switch [OF ok_next(1) [OF ok Cons]] by (simp add: a_res_def a_block_def)
qed

lemma a_rotate_inv:
  assumes inv: "a_inv R T E a"
  shows "a_inv R T E (a_rotate a)"
proof (cases "a_ready a")
  case Nil
  then show ?thesis using inv by (simp add: a_rotate_def)
next
  case (Cons t ts)
  have ok: "a_ok R T E {a_cur a} a" using inv by (simp add: a_inv_def)
  note n = ok_next [OF ok Cons]
  have "a_ok R T E (insert (a_cur a) {t}) (a\<lparr>a_ready := ts\<rparr>)" using n(1) by (simp add: insert_commute)
  then have "a_ok R T E {t} (a_enqueue (a_cur a) (a\<lparr>a_ready := ts\<rparr>))"
    using ok_enqueue n(3) by simp
  then show ?thesis
    using ok_switch Cons by (simp add: a_rotate_def)
qed

lemma a_abort_sel [simp]: "sp (a_abort h a) u = sp a u" "a_regs (a_abort h a) = a_regs a"
  by (simp_all add: a_abort_def Let_def)

lemma ok_abort:
  assumes ok: "a_ok R T E X a" and h: "h \<in> X"
  shows "a_ok R T E X (a_abort h a)" "rp (a_abort h a) u = (if u = h then 0 else rp a u)"
    "u \<in> X \<Longrightarrow> st (a_abort h a) u = st a u" "a_cur (a_abort h a) = a_cur a" "a_wait (a_abort h a) = a_wait a"
proof -
  have hT: "h \<in> T" using ok_free(2) [OF ok h] .
  show "rp (a_abort h a) u = (if u = h then 0 else rp a u)" "a_cur (a_abort h a) = a_cur a"
      "a_wait (a_abort h a) = a_wait a"
    by (simp_all add: a_abort_def Let_def)
  show "a_ok R T E X (a_abort h a)"
  proof (cases "rp a h = 0")
    case True
    then show ?thesis by (simp add: a_abort_def Let_def ok_upd [OF ok h])
  next
    case False
    note t = ok_take [OF ok hT refl False]
    show ?thesis
      using False t(3) by (simp add: a_abort_def Let_def ok_enqueue ok_upd t(1))
  qed
  show "st (a_abort h a) u = st a u" if u: "u \<in> X"
  proof (cases "rp a h = 0")
    case True
    then show ?thesis by (simp add: a_abort_def Let_def)
  next
    case False
    have "rp a h \<notin> X" using ok_take(3) [OF ok hT refl False] .
    then show ?thesis using u h by (auto simp: a_abort_def Let_def)
  qed
qed

lemma a_kill_res:
  assumes inv: "a_inv R T E a"
  shows "a_res R T E (a_exit (a_abort (a_cur a) a))"
proof -
  let ?c = "a_cur a"
  have ok: "a_ok R T E {?c} a" using inv by (simp add: a_inv_def)
  note b = ok_abort [OF ok, of ?c, simplified]
  have "a_ok R T E {?c} (a_upd ?c (\<lambda>t. t\<lparr>t_state := Dead\<rparr>) (a_abort ?c a))"
    by (rule ok_upd [OF b(1)]) simp_all
  from ok_idle [OF this, of ?c] have "a_ok R T E {} (a_upd ?c (\<lambda>t. t\<lparr>t_state := Dead\<rparr>) (a_abort ?c a))"
    using b(2) by simp
  then show ?thesis
    using ok_block b(4) by (simp add: a_exit_def)
qed

lemma ok_wait:
  assumes inv: "a_inv R T E a" and ep: "ep \<in> E" and s: "ipc_blocked s"
    and hom: "\<And>u. u \<in> set (a_wait a ep) \<Longrightarrow> st a u = BlockedRecv \<longleftrightarrow> s = BlockedRecv"
  shows "a_ok R T E {} (a_push ep (a_cur a) (a_upd (a_cur a) (\<lambda>t. t\<lparr>t_state := s\<rparr>) a))"
proof -
  let ?c = "a_cur a"
  have ok: "a_ok R T E {?c} a" using inv by (simp add: a_inv_def)
  have o: "a_ok R T E {?c} (a_upd ?c (\<lambda>t. t\<lparr>t_state := s\<rparr>) a)" by (rule ok_upd [OF ok]) simp_all
  have "?c \<notin> set (a_wait a ep)" using ok_free(4) [OF ok _ ep] by simp
  then show ?thesis
    using ok_push [OF o ep, of ?c] s hom by auto
qed

lemma a_wait_or_fail_res:
  assumes inv: "a_inv R T E a" and ep: "ep \<in> E" and s: "ipc_blocked s"
    and hom: "\<And>u. u \<in> set (a_wait a ep) \<Longrightarrow> st a u = BlockedRecv \<longleftrightarrow> s = BlockedRecv"
  shows "a_res R T E (a_wait_or_fail nb s ep a)"
proof -
  let ?c = "a_cur a"
  have ok: "a_ok R T E {?c} a" and run: "st a ?c = Running" "current_user_root (a_regs a) = sp a ?c"
    using inv by (simp_all add: a_inv_def)
  have "a_inv R T E (a_upd ?c (put_x 0 WOULD_BLOCK) a)"
    using ok_upd [OF ok, of ?c] run by (simp add: a_inv_def)
  then show ?thesis
    using ok_block [OF ok_wait [OF inv ep s hom]] by (simp add: a_wait_or_fail_def) (simp add: a_res_def)
qed

text \<open>The head of a wait queue decides for the whole queue.\<close>

lemma inv_homogeneous:
  assumes inv: "a_inv R T E a" and ep: "ep \<in> E" and u: "u \<in> set (a_wait a ep)"
  shows "st a u = BlockedRecv \<longleftrightarrow> st a (hd (a_wait a ep)) = BlockedRecv"
proof -
  have q: "queues_ok T E {a_cur a} a" using inv by (simp add: a_inv_def a_ok_def)
  have "hd (a_wait a ep) \<in> set (a_wait a ep)" using u by (cases "a_wait a ep") auto
  then show ?thesis using queues_okD(10) [OF q ep] u by blast
qed

lemma inv_all_senders:
  assumes "a_inv R T E a" "ep \<in> E" "\<not> (a_wait a ep \<noteq> [] \<and> st a (hd (a_wait a ep)) = BlockedRecv)" "u \<in> set (a_wait a ep)"
  shows "st a u \<noteq> BlockedRecv"
  using inv_homogeneous [OF assms(1,2,4)] assms(3,4) by auto

lemma inv_all_receivers:
  assumes "a_inv R T E a" "ep \<in> E" "\<not> (a_wait a ep \<noteq> [] \<and> st a (hd (a_wait a ep)) \<noteq> BlockedRecv)" "u \<in> set (a_wait a ep)"
  shows "st a u = BlockedRecv"
  using inv_homogeneous [OF assms(1,2,4)] assms(3,4) by auto

lemma a_send_res:
  assumes inv: "a_inv R T E a" and ep: "ep \<in> E"
  shows "a_res R T E (a_send nb ep a)"
proof (cases "a_wait a ep \<noteq> [] \<and> st a (hd (a_wait a ep)) = BlockedRecv")
  case True
  let ?c = "a_cur a"
  obtain r rs where w: "a_wait a ep = r # rs" using True by (cases "a_wait a ep") auto
  have ok: "a_ok R T E {?c} a" and run: "st a ?c = Running" "current_user_root (a_regs a) = sp a ?c"
    using inv by (simp_all add: a_inv_def)
  note p = ok_pop [OF ok ep w]
  have "a_ok R T E (insert r {?c}) (a_deliver ?c r (a_pop ep a))"
    unfolding a_deliver_def by (rule ok_upd [OF p(1)]) simp_all
  from ok_enqueue [OF this p(3)]
  have "a_ok R T E {?c} (a_upd ?c (put_x 0 0) (a_enqueue r (a_deliver ?c r (a_pop ep a))))"
    by (rule ok_upd) simp_all
  then show ?thesis
    using True w run p(3) by (simp add: a_send_def a_res_def a_inv_def)
next
  case False
  then have "a_send nb ep a = a_wait_or_fail nb BlockedSend ep a" by (auto simp: a_send_def)
  then show ?thesis
    using a_wait_or_fail_res [OF inv ep, of BlockedSend nb] inv_all_senders [OF inv ep False] by (simp add: ipc_blocked_def)
qed

lemma a_recv_res:
  assumes inv: "a_inv R T E a" and ep: "ep \<in> E"
  shows "a_res R T E (a_recv nb ep a)"
proof (cases "a_wait a ep \<noteq> [] \<and> st a (hd (a_wait a ep)) \<noteq> BlockedRecv")
  case True
  let ?c = "a_cur a"
  obtain s ss where w: "a_wait a ep = s # ss" using True by (cases "a_wait a ep") auto
  have ok: "a_ok R T E {?c} a" and run: "st a ?c = Running" "current_user_root (a_regs a) = sp a ?c"
    using inv by (simp_all add: a_inv_def)
  note p = ok_pop [OF ok ep w]
  define a1 where "a1 = a_deliver s ?c (a_pop ep a)"
  have sel: "a_cur a1 = ?c" "st a1 u = st a u" "sp a1 u = sp a u" "a_regs a1 = a_regs a" for u
    by (simp_all add: a1_def)
  have ok1: "a_ok R T E {s, ?c} a1"
    unfolding a1_def a_deliver_def by (rule ok_upd [OF p(1)]) simp_all
  show ?thesis
  proof (cases "st a s = BlockedCall")
    case call: True
    note b = ok_abort [OF ok1, of ?c, simplified]
    have "a_ok R T E ({s, ?c} - {s})
        (a_upd ?c (\<lambda>t. t\<lparr>t_reply_to := s\<rparr>) (a_upd s (\<lambda>t. t\<lparr>t_state := BlockedReply\<rparr>) (a_abort ?c a1)))"
      by (rule ok_give [OF b(1), of ?c s]) (use b(2) p(3) in auto)
    moreover have "{s, ?c} - {s} = {?c}" using p(3) by auto
    ultimately show ?thesis
      using True w call p(3) b(3) [of ?c] b(4) sel run by (simp add: a_recv_def a1_def [symmetric] a_res_def a_inv_def Let_def)
  next
    case False
    have "a_ok R T E (insert s {?c}) (a_upd s (put_x 0 0) a1)" by (rule ok_upd [OF ok1]) simp_all
    from ok_enqueue [OF this p(3)] show ?thesis
      using True w False sel run p(3) by (simp add: a_recv_def a1_def [symmetric] a_res_def a_inv_def Let_def)
  qed
next
  case False
  then have "a_recv nb ep a = a_wait_or_fail nb BlockedRecv ep a" by (auto simp: a_recv_def)
  then show ?thesis
    using a_wait_or_fail_res [OF inv ep, of BlockedRecv nb] inv_all_receivers [OF inv ep False] by (simp add: ipc_blocked_def)
qed

lemma a_call_res:
  assumes inv: "a_inv R T E a" and ep: "ep \<in> E"
  shows "a_res R T E (a_call nb ep a)"
proof (cases "a_wait a ep \<noteq> [] \<and> st a (hd (a_wait a ep)) = BlockedRecv")
  case True
  let ?c = "a_cur a"
  obtain r rs where w: "a_wait a ep = r # rs" using True by (cases "a_wait a ep") auto
  have ok: "a_ok R T E {?c} a" using inv by (simp add: a_inv_def)
  note p = ok_pop [OF ok ep w]
  define a1 where "a1 = a_deliver ?c r (a_pop ep a)"
  have ok1: "a_ok R T E {r, ?c} a1"
    unfolding a1_def a_deliver_def by (rule ok_upd [OF p(1)]) simp_all
  note b = ok_abort [OF ok1, of r, simplified]
  have "a_ok R T E ({r, ?c} - {?c})
      (a_upd ?c (\<lambda>t. t\<lparr>t_state := BlockedReply\<rparr>) (a_upd r (\<lambda>t. t\<lparr>t_reply_to := ?c\<rparr>) (a_abort r a1)))"
    by (rule ok_give [OF b(1), of r ?c]) (use b(2) p(3) in auto)
  moreover have "{r, ?c} - {?c} = insert r {}" using p(3) by auto
  ultimately show ?thesis
    using True w ok_block [OF ok_enqueue [of R T E r "{}"]] by (simp add: a_call_def a1_def [symmetric] Let_def)
next
  case False
  then have "a_call nb ep a = a_wait_or_fail nb BlockedCall ep a" by (auto simp: a_call_def)
  then show ?thesis
    using a_wait_or_fail_res [OF inv ep, of BlockedCall nb] inv_all_senders [OF inv ep False] by (simp add: ipc_blocked_def)
qed

text \<open>The state after the reply half of REPLY_RECV.\<close>

lemma a_replied_inv:
  assumes inv: "a_inv R T E a" and k: "rp a (a_cur a) \<noteq> 0"
  shows "a_inv R T E (a_enqueue (rp a (a_cur a)) (a_deliver (a_cur a) (rp a (a_cur a)) (a_upd (a_cur a) (\<lambda>t. t\<lparr>t_reply_to := 0\<rparr>) a)))"
proof -
  let ?c = "a_cur a" and ?k = "rp a (a_cur a)"
  have ok: "a_ok R T E {?c} a" and run: "st a ?c = Running" "current_user_root (a_regs a) = sp a ?c"
    using inv by (simp_all add: a_inv_def)
  note t = ok_take [OF ok ok_free(2) [OF ok singletonI] refl k]
  have "a_ok R T E (insert ?k {?c}) (a_deliver ?c ?k (a_upd ?c (\<lambda>t. t\<lparr>t_reply_to := 0\<rparr>) a))"
    unfolding a_deliver_def by (rule ok_upd [OF t(1)]) simp_all
  from ok_enqueue [OF this t(3)] show ?thesis
    using run t(3) by (auto simp: a_inv_def)
qed

lemma a_reply_recv_res:
  assumes inv: "a_inv R T E a" and ep: "ep \<in> E"
  shows "a_res R T E (a_reply_recv nb ep a)"
  using a_recv_res [OF inv ep] a_recv_res [OF a_replied_inv [OF inv] ep] by (simp add: a_reply_recv_def Let_def)

end
