(* ===== verification/IpcRefine.thy ===== *)
theory IpcRefine
  imports IpcSpec
begin

text \<open>
  The linked queues of the scheduler and of the endpoints implement the lists of the abstract kernel:
  every function of \<^verbatim>\<open>k0-sched\<close> and \<^verbatim>\<open>k0-ipc\<close> simulates its abstract counterpart.
\<close>

section \<open>The simulation relation\<close>

definition sim :: "u64 set \<Rightarrow> kstate \<Rightarrow> akernel \<Rightarrow> bool" where
  "sim E ks a \<longleftrightarrow>
     a_cur a = sc_current (ks_sched ks) \<and> ks_ctx ks = a_cur a \<and>
     a_tcb a = core (ks_tcbs ks) \<and> a_regs a = ks_regs ks \<and>
     a_other a = (ks_cnode ks, ks_pool ks, ks_mem ks, ks_console ks) \<and>
     q_rep (links (ks_tcbs ks)) (sc_head (ks_sched ks)) (sc_tail (ks_sched ks)) (a_ready a) \<and>
     (\<forall>ep\<in>E. q_rep (links (ks_tcbs ks)) (e_head (ks_eps ks ep)) (e_tail (ks_eps ks ep)) (a_wait a ep))"

definition sim_res :: "u64 set \<Rightarrow> bool \<times> kstate \<Rightarrow> bool \<times> akernel \<Rightarrow> bool" where
  "sim_res E r ra \<longleftrightarrow> fst r = fst ra \<and> sim E (snd r) (snd ra)"

lemma sim_fields:
  assumes "sim E ks a"
  shows "current ks = a_cur a" "t_state (ks_tcbs ks t) = st a t" "t_reply_to (ks_tcbs ks t) = rp a t"
    "t_ctx (ks_tcbs ks t) = t_ctx (a_tcb a t)" "t_ttbr0_pa (ks_tcbs ks t) = t_ttbr0_pa (a_tcb a t)"
    "ks_cnode ks = fst (a_other a)" "ks_regs ks = a_regs a" "ks_ctx ks = a_cur a"
  using assms by (simp_all add: sim_def current_def)

lemma sim_ep_head:
  assumes "sim E ks a" "ep \<in> E"
  shows "e_head (ks_eps ks ep) = (if a_wait a ep = [] then 0 else hd (a_wait a ep))"
proof (rule q_rep_head)
  show "q_rep (links (ks_tcbs ks)) (e_head (ks_eps ks ep)) (e_tail (ks_eps ks ep)) (a_wait a ep)"
    using assms by (simp add: sim_def)
qed

section \<open>Control blocks\<close>

lemma sim_upd:
  assumes "sim E ks a" "\<And>x. t_next (f x) = t_next x" "\<And>x. (f x)\<lparr>t_next := 0\<rparr> = f (x\<lparr>t_next := 0\<rparr>)"
  shows "sim E (upd_tcb t f ks) (a_upd t f a)"
proof -
  have "links ((ks_tcbs ks)(t := f (ks_tcbs ks t))) = links (ks_tcbs ks)"
    using assms(2) by (intro links_upd) (simp add: links_def)
  moreover have "core ((ks_tcbs ks)(t := f (ks_tcbs ks t))) = (core (ks_tcbs ks))(t := f (core (ks_tcbs ks) t))"
    using assms(3) by (simp add: core_upd core_def)
  ultimately show ?thesis
    using assms(1) by (simp add: sim_def upd_tcb_def a_upd_def)
qed

lemma sim_put_x: "sim E ks a \<Longrightarrow> sim E (set_reg t i v ks) (a_upd t (put_x i v) a)"
  unfolding set_reg_def by (rule sim_upd) (simp_all add: put_x_def)

lemma sim_deliver:
  assumes "sim E ks a"
  shows "sim E (deliver_to src dst ks) (a_deliver src dst a)"
  unfolding deliver_to_def a_deliver_def sim_fields(4) [OF assms]
  by (rule sim_upd [OF assms]) simp_all

section \<open>Queues\<close>

lemma ok_disjoint:
  assumes "a_ok R T E X a" "ep \<in> E" "u \<in> set (a_wait a ep)"
  shows "u \<notin> set (a_ready a)" "u \<notin> X"
  using assms queues_okD(5) [of T E X a u] queues_okD(7) [of T E X a ep u] by (auto simp: a_ok_def ipc_blocked_def)

lemma sim_enqueue:
  assumes sim: "sim E ks a" and ok: "a_ok R T E X a" and t: "t \<in> X"
  shows "sim E (enqueue t ks) (a_enqueue t a)"
proof -
  obtain s h where e: "sched_push t (ks_sched ks) (ks_tcbs ks) = (s, h)" by fastforce
  note free = ok_free [OF ok t]
  have r: "q_rep (links (ks_tcbs ks)) (sc_head (ks_sched ks)) (sc_tail (ks_sched ks)) (a_ready a)"
    using sim by (simp add: sim_def)
  have "q_rep (links h) (e_head (ks_eps ks ep)) (e_tail (ks_eps ks ep)) (a_wait a ep)" if ep: "ep \<in> E" for ep
  proof (rule q_rep_cong)
    show "q_rep (links (ks_tcbs ks)) (e_head (ks_eps ks ep)) (e_tail (ks_eps ks ep)) (a_wait a ep)"
      using sim ep by (simp add: sim_def)
    show "links h u = links (ks_tcbs ks) u" if u: "u \<in> set (a_wait a ep)" for u
      using rdq.push_links [OF r e] ok_disjoint [OF ok ep u] t by blast
  qed
  then show ?thesis
    using sim sched_push_core [OF e] rdq.push_rep [OF r free(3,1) e]
    by (simp add: sim_def enqueue_def e a_enqueue_def)
qed

lemma sim_ep_push:
  assumes sim: "sim E ks a" and ok: "a_ok R T E X a" and t: "t \<in> X" and ep: "ep \<in> E"
  shows "sim E (ks_ep_push ep t ks) (a_push ep t a)"
proof -
  obtain e h where p: "endpoint_push t (ks_eps ks ep) (ks_tcbs ks) = (e, h)" by fastforce
  note free = ok_free [OF ok t]
  have r: "q_rep (links (ks_tcbs ks)) (e_head (ks_eps ks x)) (e_tail (ks_eps ks x)) (a_wait a x)" if "x \<in> E" for x
    using sim that by (simp add: sim_def)
  have rd: "q_rep (links h) (sc_head (ks_sched ks)) (sc_tail (ks_sched ks)) (a_ready a)"
  proof (rule q_rep_cong)
    show "q_rep (links (ks_tcbs ks)) (sc_head (ks_sched ks)) (sc_tail (ks_sched ks)) (a_ready a)"
      using sim by (simp add: sim_def)
    show "links h u = links (ks_tcbs ks) u" if "u \<in> set (a_ready a)" for u
      using epq.push_links [OF r [OF ep] p, of u] ok_disjoint(1) [OF ok ep, of u] that free(3) by auto
  qed
  have "q_rep (links h) (e_head (ks_eps ks x)) (e_tail (ks_eps ks x)) (a_wait a x)" if x: "x \<in> E" "x \<noteq> ep" for x
  proof (rule q_rep_cong [OF r [OF x(1)]])
    show "links h u = links (ks_tcbs ks) u" if u: "u \<in> set (a_wait a x)" for u
      using epq.push_links [OF r [OF ep] p, of u] queues_okD(9) [of T E X a ep x u] ok u x ep free(4) [OF x(1)]
      by (auto simp: a_ok_def)
  qed
  then show ?thesis
    using sim rd endpoint_push_core [OF p] epq.push_rep [OF r [OF ep] free(4) [OF ep] free(1) p]
    by (simp add: sim_def ks_ep_push_def p a_push_def)
qed

lemma sim_ep_pop:
  assumes sim: "sim E ks a" and ok: "a_ok R T E X a" and ep: "ep \<in> E" and w: "a_wait a ep = t # ts"
    and e: "ks_ep_pop ep ks = (u, ks')"
  shows "u = t" "sim E ks' (a_pop ep a)"
proof -
  obtain u' q h where p: "endpoint_pop (ks_eps ks ep) (ks_tcbs ks) = (u', q, h)" by (metis prod_cases3)
  have r: "q_rep (links (ks_tcbs ks)) (e_head (ks_eps ks x)) (e_tail (ks_eps ks x)) (a_wait a x)" if "x \<in> E" for x
    using sim that by (simp add: sim_def)
  note pr = epq.pop_rep [OF r [OF ep, unfolded w] p]
  show "u = t" using e pr by (simp add: ks_ep_pop_def p)
  have lk: "links h v = links (ks_tcbs ks) v" if "v \<noteq> t" for v
    using pr that by simp
  have tw: "t \<in> set (a_wait a ep)" using w by simp
  have "q_rep (links (ks_tcbs ks)) (sc_head (ks_sched ks)) (sc_tail (ks_sched ks)) (a_ready a)"
    using sim by (simp add: sim_def)
  then have "q_rep (links h) (sc_head (ks_sched ks)) (sc_tail (ks_sched ks)) (a_ready a)"
    by (rule q_rep_cong) (use ok_disjoint(1) [OF ok ep tw] lk in metis)
  moreover have "q_rep (links h) (e_head (ks_eps ks x)) (e_tail (ks_eps ks x)) (a_wait a x)"
    if x: "x \<in> E" "x \<noteq> ep" for x
  proof (rule q_rep_cong [OF r [OF x(1)]])
    have "t \<notin> set (a_wait a x)" using queues_okD(9) [of T E X a ep x t] ok x ep tw by (auto simp: a_ok_def)
    then show "links h v = links (ks_tcbs ks) v" if "v \<in> set (a_wait a x)" for v using lk that by metis
  qed
  ultimately show "sim E ks' (a_pop ep a)"
    using sim endpoint_pop_core [OF p] conjunct1 [OF conjunct2 [OF pr]] e w
    by (auto simp: sim_def ks_ep_pop_def p a_pop_def)
qed

lemma sim_next:
  assumes sim: "sim E ks a" and ok: "a_ok R T E X a" and rd: "a_ready a = t # ts"
    and e: "sched_pop (ks_sched ks) (ks_tcbs ks) = (u, s, h)"
  shows "u = t" "t \<noteq> 0" "sim E (ks\<lparr>ks_sched := s, ks_tcbs := h\<rparr>) (a\<lparr>a_ready := ts\<rparr>)"
proof -
  have r: "q_rep (links (ks_tcbs ks)) (sc_head (ks_sched ks)) (sc_tail (ks_sched ks)) (t # ts)"
    using sim rd by (simp add: sim_def)
  note pr = rdq.pop_rep [OF r e]
  show "u = t" "t \<noteq> 0" using pr q_rep_nonzero [OF r] by auto
  have "q_rep (links h) (e_head (ks_eps ks x)) (e_tail (ks_eps ks x)) (a_wait a x)" if x: "x \<in> E" for x
  proof (rule q_rep_cong)
    show "q_rep (links (ks_tcbs ks)) (e_head (ks_eps ks x)) (e_tail (ks_eps ks x)) (a_wait a x)"
      using sim x by (simp add: sim_def)
    show "links h v = links (ks_tcbs ks) v" if "v \<in> set (a_wait a x)" for v
      using ok_disjoint(1) [OF ok x that] pr rd by auto
  qed
  then show "sim E (ks\<lparr>ks_sched := s, ks_tcbs := h\<rparr>) (a\<lparr>a_ready := ts\<rparr>)"
    using sim sched_pop_core [OF e] conjunct1 [OF conjunct2 [OF pr]] by (simp add: sim_def)
qed

lemma sim_idle:
  assumes sim: "sim E ks a" and rd: "a_ready a = []"
  shows "sched_pop (ks_sched ks) (ks_tcbs ks) = (0, ks_sched ks, ks_tcbs ks)"
  using sim rd rdq.pop_rep_empty by (simp add: sim_def)

section \<open>The scheduler\<close>

lemma sim_switch:
  assumes sim: "sim E ks a"
  shows "sim E (switch_to t ks) (a_switch t a)"
  using sim unfolding sim_def switch_to_def a_switch_def Let_def by auto

lemma sim_block:
  assumes sim: "sim E ks a" and ok: "a_ok R T E X a"
  shows "sim_res E (block_and_switch ks) (a_block a)"
proof (cases "a_ready a")
  case Nil
  then show ?thesis
    using sim by (simp add: sim_res_def block_and_switch_def a_block_def sim_idle)
next
  case (Cons t ts)
  obtain u s h where e: "sched_pop (ks_sched ks) (ks_tcbs ks) = (u, s, h)" by (metis prod_cases3)
  note n = sim_next [OF sim ok Cons e]
  show ?thesis
    using sim_switch [OF n(3)] n(1,2) Cons by (simp add: sim_res_def block_and_switch_def a_block_def e)
qed

lemma sim_rotate:
  assumes sim: "sim E ks a" and inv: "a_inv R T E a"
  shows "sim E (rotate ks) (a_rotate a)"
proof (cases "a_ready a")
  case Nil
  then show ?thesis
    using sim by (simp add: rotate_def a_rotate_def sim_idle)
next
  case (Cons t ts)
  have ok: "a_ok R T E {a_cur a} a" using inv by (simp add: a_inv_def)
  obtain u s h where e: "sched_pop (ks_sched ks) (ks_tcbs ks) = (u, s, h)" by (metis prod_cases3)
  note n = sim_next [OF sim ok Cons e]
  have "sc_current s = a_cur a" using n(3) by (simp add: sim_def)
  then show ?thesis
    using sim_switch [OF sim_enqueue [OF n(3) ok_next(1) [OF ok Cons], of "a_cur a"]] n(1,2) Cons
    by (simp add: rotate_def a_rotate_def e)
qed

lemma sim_abort:
  assumes sim: "sim E ks a" and ok: "a_ok R T E X a" and h: "h \<in> X"
  shows "sim E (abort_reply h ks) (a_abort h a)"
proof -
  have u: "sim E (upd_tcb h (\<lambda>t. t\<lparr>t_reply_to := 0\<rparr>) ks) (a_upd h (\<lambda>t. t\<lparr>t_reply_to := 0\<rparr>) a)"
    by (rule sim_upd [OF sim]) simp_all
  show ?thesis
  proof (cases "rp a h = 0")
    case True
    then show ?thesis using u by (simp add: abort_reply_def a_abort_def Let_def sim_fields(3) [OF sim])
  next
    case False
    note t = ok_take [OF ok ok_free(2) [OF ok h] refl False]
    let ?a = "a_upd (rp a h) (put_x 0 NO_REPLY) (a_upd h (\<lambda>t. t\<lparr>t_reply_to := 0\<rparr>) a)"
    have "a_ok R T E (insert (rp a h) X) ?a" by (rule ok_upd [OF t(1)]) simp_all
    then show ?thesis
      using False sim_enqueue [OF sim_put_x [OF u]]
      by (simp add: abort_reply_def a_abort_def Let_def sim_fields(3) [OF sim])
  qed
qed

lemma exit_as_block:
  "exit_current ks = block_and_switch (upd_tcb (current ks) (\<lambda>t. t\<lparr>t_state := Dead\<rparr>) ks)"
  by (cases "sched_pop (ks_sched ks) (set_state (sc_current (ks_sched ks)) Dead (ks_tcbs ks))")
    (simp add: exit_current_def block_and_switch_def upd_tcb_def current_def Let_def set_state_def)

lemma sim_kill:
  assumes sim: "sim E ks a" and inv: "a_inv R T E a"
  shows "sim_res E (exit_current (abort_reply (current ks) ks)) (a_exit (a_abort (a_cur a) a))"
proof -
  let ?c = "a_cur a"
  have ok: "a_ok R T E {?c} a" using inv by (simp add: a_inv_def)
  note b = ok_abort [OF ok singletonI]
  have s1: "sim E (abort_reply ?c ks) (a_abort ?c a)" by (rule sim_abort [OF sim ok singletonI])
  have s2: "sim E (upd_tcb ?c (\<lambda>t. t\<lparr>t_state := Dead\<rparr>) (abort_reply ?c ks)) (a_upd ?c (\<lambda>t. t\<lparr>t_state := Dead\<rparr>) (a_abort ?c a))"
    by (rule sim_upd [OF s1]) simp_all
  have o2: "a_ok R T E {?c} (a_upd ?c (\<lambda>t. t\<lparr>t_state := Dead\<rparr>) (a_abort ?c a))"
    by (rule ok_upd [OF b(1)]) simp_all
  show ?thesis
    using sim_block [OF s2 o2] b(4) sim_fields(1) [OF sim] sim_fields(1) [OF s1]
    by (simp add: a_exit_def exit_as_block)
qed

section \<open>The IPC calls\<close>

lemma sim_wait:
  assumes sim: "sim E ks a" and inv: "a_inv R T E a" and ep: "ep \<in> E" and b: "ipc_blocked s"
    and hom: "\<And>u. u \<in> set (a_wait a ep) \<Longrightarrow> st a u = BlockedRecv \<longleftrightarrow> s = BlockedRecv"
  shows "sim_res E
           (if nb then (True, set_reg (a_cur a) 0 WOULD_BLOCK ks)
            else block_and_switch (ks_ep_push ep (a_cur a) (upd_tcb (a_cur a) (\<lambda>t. t\<lparr>t_state := s\<rparr>) ks)))
           (a_wait_or_fail nb s ep a)"
proof -
  let ?c = "a_cur a"
  have ok: "a_ok R T E {?c} a" using inv by (simp add: a_inv_def)
  have s1: "sim E (upd_tcb ?c (\<lambda>t. t\<lparr>t_state := s\<rparr>) ks) (a_upd ?c (\<lambda>t. t\<lparr>t_state := s\<rparr>) a)"
    by (rule sim_upd [OF sim]) simp_all
  have o1: "a_ok R T E {?c} (a_upd ?c (\<lambda>t. t\<lparr>t_state := s\<rparr>) a)"
    by (rule ok_upd [OF ok]) simp_all
  have "sim E (ks_ep_push ep ?c (upd_tcb ?c (\<lambda>t. t\<lparr>t_state := s\<rparr>) ks)) (a_push ep ?c (a_upd ?c (\<lambda>t. t\<lparr>t_state := s\<rparr>) a))"
    by (rule sim_ep_push [OF s1 o1 _ ep]) simp
  then show ?thesis
    using sim_block [OF _ ok_wait [OF inv ep b hom]] sim_put_x [OF sim]
    by (simp add: a_wait_or_fail_def) (simp add: sim_res_def)
qed

lemma sim_send:
  assumes sim: "sim E ks a" and inv: "a_inv R T E a" and ep: "ep \<in> E"
    and e: "ep_of (reg ks (a_cur a) 0) (ks_cnode ks) = Inr (Inr ep)"
  shows "\<exists>r. sys_send (a_cur a) ks = Inr r \<and> sim_res E r (a_send (nonblock (reg ks (a_cur a) 1)) ep a)"
proof (cases "a_wait a ep \<noteq> [] \<and> st a (hd (a_wait a ep)) = BlockedRecv")
  case True
  let ?c = "a_cur a"
  obtain t ts where w: "a_wait a ep = t # ts" using True by (cases "a_wait a ep") auto
  obtain u ks1 where p: "ks_ep_pop ep ks = (u, ks1)" by fastforce
  have ok: "a_ok R T E {?c} a" using inv by (simp add: a_inv_def)
  have t0: "t \<noteq> 0" using ok_free(1) [OF ok_pop(1) [OF ok ep w], of t] by simp
  note sp = sim_ep_pop [OF sim ok ep w p]
  note s2 = sim_deliver [OF sp(2), of ?c t]
  have o2: "a_ok R T E {t, ?c} (a_deliver ?c t (a_pop ep a))"
    unfolding a_deliver_def by (rule ok_upd [OF ok_pop(1) [OF ok ep w]]) simp_all
  have "sim E (set_reg ?c 0 0 (enqueue t (deliver_to ?c t ks1))) (snd (a_send (nonblock (reg ks ?c 1)) ep a))"
    using sim_put_x [OF sim_enqueue [OF s2 o2, of t]] True w by (simp add: a_send_def)
  then show ?thesis
    using True w t0 p sp(1) e sim_ep_head [OF sim ep] sim_fields(2) [OF sim, of t]
    by (simp add: sys_send_def a_send_def sim_res_def Let_def)
next
  case False
  then have "\<not> (e_head (ks_eps ks ep) \<noteq> 0 \<and> t_state (ks_tcbs ks (e_head (ks_eps ks ep))) = BlockedRecv)"
    using sim_ep_head [OF sim ep] sim_fields(2) [OF sim] by auto
  then have "sys_send (a_cur a) ks =
      Inr (if nonblock (reg ks (a_cur a) 1) then (True, set_reg (a_cur a) 0 WOULD_BLOCK ks)
           else block_and_switch (ks_ep_push ep (a_cur a) (upd_tcb (a_cur a) (\<lambda>t. t\<lparr>t_state := BlockedSend\<rparr>) ks)))"
    using e sim_fields(1) [OF sim] by (auto simp: sys_send_def Let_def)
  moreover have "a_send nb ep a = a_wait_or_fail nb BlockedSend ep a" for nb
    using False by (auto simp: a_send_def)
  ultimately show ?thesis
    using sim_wait [OF sim inv ep, of BlockedSend "nonblock (reg ks (a_cur a) 1)"] inv_all_senders [OF inv ep False]
    by (auto simp: ipc_blocked_def)
qed

lemma sim_recv:
  assumes sim: "sim E ks a" and inv: "a_inv R T E a" and ep: "ep \<in> E"
  shows "sim_res E (recv_inner (a_cur a) ep nb ks) (a_recv nb ep a)"
proof (cases "a_wait a ep \<noteq> [] \<and> st a (hd (a_wait a ep)) \<noteq> BlockedRecv")
  case True
  let ?c = "a_cur a"
  obtain t ts where w: "a_wait a ep = t # ts" using True by (cases "a_wait a ep") auto
  obtain u ks1 where p: "ks_ep_pop ep ks = (u, ks1)" by fastforce
  have ok: "a_ok R T E {?c} a" using inv by (simp add: a_inv_def)
  note op = ok_pop [OF ok ep w]
  have t0: "t \<noteq> 0" using ok_free(1) [OF op(1), of t] by simp
  note sp = sim_ep_pop [OF sim ok ep w p]
  define ks2 a2 where "ks2 = deliver_to t ?c ks1" and "a2 = a_deliver t ?c (a_pop ep a)"
  have s2: "sim E ks2 a2" unfolding ks2_def a2_def by (rule sim_deliver [OF sp(2)])
  have o2: "a_ok R T E {t, ?c} a2"
    unfolding a2_def a_deliver_def by (rule ok_upd [OF op(1)]) simp_all
  have sel: "a_cur a2 = ?c" "st a2 t = st a t" by (simp_all add: a2_def)
  have run: "recv_inner ?c ep nb ks =
      (True, if st a t = BlockedCall
        then upd_tcb ?c (\<lambda>x. x\<lparr>t_reply_to := t\<rparr>) (upd_tcb t (\<lambda>x. x\<lparr>t_state := BlockedReply\<rparr>) (abort_reply ?c ks2))
        else enqueue t (set_reg t 0 0 ks2))"
    using True w t0 p sp(1) sim_ep_head [OF sim ep] sim_fields(2) [OF sim, of t] sim_fields(1) [OF s2]
      sim_fields(2) [OF s2, of t] sel
    by (simp add: recv_inner_def ks2_def [symmetric] Let_def)
  show ?thesis
  proof (cases "st a t = BlockedCall")
    case call: True
    have "sim E (upd_tcb ?c (\<lambda>x. x\<lparr>t_reply_to := t\<rparr>) (upd_tcb t (\<lambda>x. x\<lparr>t_state := BlockedReply\<rparr>) (abort_reply ?c ks2)))
        (a_upd ?c (\<lambda>x. x\<lparr>t_reply_to := t\<rparr>) (a_upd t (\<lambda>x. x\<lparr>t_state := BlockedReply\<rparr>) (a_abort ?c a2)))"
      by (intro sim_upd sim_abort [OF s2 o2]) simp_all
    then show ?thesis
      using run call True w by (simp add: sim_res_def a_recv_def a2_def Let_def)
  next
    case False
    have "a_ok R T E {t, ?c} (a_upd t (put_x 0 0) a2)" by (rule ok_upd [OF o2]) simp_all
    from sim_enqueue [OF sim_put_x [OF s2] this, of t] show ?thesis
      using run False True w by (simp add: sim_res_def a_recv_def a2_def Let_def)
  qed
next
  case False
  then have "\<not> (e_head (ks_eps ks ep) \<noteq> 0 \<and> t_state (ks_tcbs ks (e_head (ks_eps ks ep))) \<noteq> BlockedRecv)"
    using sim_ep_head [OF sim ep] sim_fields(2) [OF sim] by auto
  then have "recv_inner (a_cur a) ep nb ks =
      (if nb then (True, set_reg (a_cur a) 0 WOULD_BLOCK ks)
       else block_and_switch (ks_ep_push ep (a_cur a) (upd_tcb (a_cur a) (\<lambda>t. t\<lparr>t_state := BlockedRecv\<rparr>) ks)))"
    using sim_fields(1) [OF sim] by (auto simp: recv_inner_def Let_def)
  moreover have "a_recv nb ep a = a_wait_or_fail nb BlockedRecv ep a"
    using False by (auto simp: a_recv_def)
  ultimately show ?thesis
    using sim_wait [OF sim inv ep, of BlockedRecv nb] inv_all_receivers [OF inv ep False]
    by (auto simp: ipc_blocked_def)
qed

lemma sim_call:
  assumes sim: "sim E ks a" and inv: "a_inv R T E a" and ep: "ep \<in> E"
    and e: "ep_of (reg ks (a_cur a) 0) (ks_cnode ks) = Inr (Inr ep)"
  shows "\<exists>r. sys_call (a_cur a) ks = Inr r \<and> sim_res E r (a_call (nonblock (reg ks (a_cur a) 1)) ep a)"
proof (cases "a_wait a ep \<noteq> [] \<and> st a (hd (a_wait a ep)) = BlockedRecv")
  case True
  let ?c = "a_cur a"
  obtain t ts where w: "a_wait a ep = t # ts" using True by (cases "a_wait a ep") auto
  obtain u ks1 where p: "ks_ep_pop ep ks = (u, ks1)" by fastforce
  have ok: "a_ok R T E {?c} a" using inv by (simp add: a_inv_def)
  note op = ok_pop [OF ok ep w]
  have t0: "t \<noteq> 0" using ok_free(1) [OF op(1), of t] by simp
  note sp = sim_ep_pop [OF sim ok ep w p]
  define ks2 a2 where "ks2 = deliver_to ?c t ks1" and "a2 = a_deliver ?c t (a_pop ep a)"
  have s2: "sim E ks2 a2" unfolding ks2_def a2_def by (rule sim_deliver [OF sp(2)])
  have o2: "a_ok R T E {t, ?c} a2"
    unfolding a2_def a_deliver_def by (rule ok_upd [OF op(1)]) simp_all
  define ks3 where "ks3 = upd_tcb ?c (\<lambda>x. x\<lparr>t_state := BlockedReply\<rparr>) (upd_tcb t (\<lambda>x. x\<lparr>t_reply_to := ?c\<rparr>) (abort_reply t ks2))"
  define a3 where "a3 = a_upd ?c (\<lambda>x. x\<lparr>t_state := BlockedReply\<rparr>) (a_upd t (\<lambda>x. x\<lparr>t_reply_to := ?c\<rparr>) (a_abort t a2))"
  have s3: "sim E ks3 a3" unfolding ks3_def a3_def by (intro sim_upd sim_abort [OF s2 o2]) simp_all
  note b = ok_abort [OF o2, of t, simplified]
  have "a_ok R T E ({t, ?c} - {?c}) a3"
    unfolding a3_def by (rule ok_give [OF b(1), of t ?c]) (use b(2) op(3) in auto)
  moreover have "{t, ?c} - {?c} = {t}" using op(3) by auto
  ultimately have o3: "a_ok R T E (insert t {}) a3" by simp
  have "sys_call ?c ks = Inr (block_and_switch (enqueue t ks3))"
    using True w t0 p sp(1) e sim_ep_head [OF sim ep] sim_fields(2) [OF sim, of t] sim_fields(1) [OF sim]
    by (simp add: sys_call_def ks3_def ks2_def Let_def)
  moreover have "a_call (nonblock (reg ks ?c 1)) ep a = a_block (a_enqueue t a3)"
    using True w by (simp add: a_call_def a3_def a2_def Let_def)
  ultimately show ?thesis
    using sim_block [OF sim_enqueue [OF s3 o3, of t] ok_enqueue [OF o3]] by simp
next
  case False
  then have "\<not> (e_head (ks_eps ks ep) \<noteq> 0 \<and> t_state (ks_tcbs ks (e_head (ks_eps ks ep))) = BlockedRecv)"
    using sim_ep_head [OF sim ep] sim_fields(2) [OF sim] by auto
  then have "sys_call (a_cur a) ks =
      Inr (if nonblock (reg ks (a_cur a) 1) then (True, set_reg (a_cur a) 0 WOULD_BLOCK ks)
           else block_and_switch (ks_ep_push ep (a_cur a) (upd_tcb (a_cur a) (\<lambda>t. t\<lparr>t_state := BlockedCall\<rparr>) ks)))"
    using e sim_fields(1) [OF sim] by (auto simp: sys_call_def Let_def)
  moreover have "a_call nb ep a = a_wait_or_fail nb BlockedCall ep a" for nb
    using False by (auto simp: a_call_def)
  ultimately show ?thesis
    using sim_wait [OF sim inv ep, of BlockedCall "nonblock (reg ks (a_cur a) 1)"] inv_all_senders [OF inv ep False]
    by (auto simp: ipc_blocked_def)
qed

lemma sim_reply:
  assumes sim: "sim E ks a" and inv: "a_inv R T E a" and ep: "ep \<in> E"
    and e: "ep_of (reg ks (a_cur a) 0) (ks_cnode ks) = Inr (Inr ep)"
  shows "\<exists>r. sys_reply_recv (a_cur a) ks = Inr r \<and> sim_res E r (a_reply_recv (nonblock (reg ks (a_cur a) 1)) ep a)"
proof (cases "rp a (a_cur a) = 0")
  case True
  then show ?thesis
    using e sim_recv [OF sim inv ep] sim_fields(1,3) [OF sim]
    by (simp add: sys_reply_recv_def a_reply_recv_def Let_def)
next
  case False
  let ?c = "a_cur a" and ?k = "rp a (a_cur a)"
  have ok: "a_ok R T E {?c} a" and run: "st a ?c = Running" "current_user_root (a_regs a) = sp a ?c"
    using inv by (simp_all add: a_inv_def)
  note t = ok_take [OF ok ok_free(2) [OF ok singletonI] refl False]
  define ks1 a1 where "ks1 = deliver_to ?c ?k (upd_tcb ?c (\<lambda>x. x\<lparr>t_reply_to := 0\<rparr>) ks)"
    and "a1 = a_deliver ?c ?k (a_upd ?c (\<lambda>x. x\<lparr>t_reply_to := 0\<rparr>) a)"
  have s1: "sim E ks1 a1"
    unfolding ks1_def a1_def by (intro sim_deliver sim_upd [OF sim]) simp_all
  have o1: "a_ok R T E (insert ?k {?c}) a1"
    unfolding a1_def a_deliver_def by (rule ok_upd [OF t(1)]) simp_all
  have sel: "a_cur a1 = ?c" "st a1 ?c = Running" "current_user_root (a_regs a1) = sp a1 ?c"
    using run by (simp_all add: a1_def)
  have s2: "sim E (enqueue ?k ks1) (a_enqueue ?k a1)" by (rule sim_enqueue [OF s1 o1]) simp
  have i2: "a_inv R T E (a_enqueue ?k a1)"
    using ok_enqueue [OF o1 t(3)] sel t(3) by (auto simp: a_inv_def)
  show ?thesis
    using sim_recv [OF s2 i2 ep] sel(1) e False sim_fields(1,3) [OF sim]
    by (simp add: sys_reply_recv_def a_reply_recv_def ks1_def a1_def Let_def)
qed

section \<open>The calls as a whole\<close>

text \<open>The endpoints a capability space names, by kernel address.\<close>

definition cap_eps :: "cnode \<Rightarrow> u64 set" where
  "cap_eps cn = {b + KERNEL_VA_OFFSET | b. CapEndpoint b \<in> set (cnode_slots cn)}"

lemma ep_of_cap_eps: "ep_of slot cn = Inr (Inr ep) \<Longrightarrow> ep \<in> cap_eps cn"
  by (auto simp: ep_of_def cnode_cap_def cap_eps_def and_then_Inr add_pn_Inr
      split: option.splits cap.splits if_splits) (metis nth_mem)

text \<open>Either both calls halt for the same reason, or both return related results.\<close>

definition ipc_sim :: "u64 set \<Rightarrow> halt + (bool \<times> kstate) \<Rightarrow> halt + (bool \<times> akernel) \<Rightarrow> bool" where
  "ipc_sim E r ra \<longleftrightarrow> rel_sum (=) (sim_res E) r ra"

lemma ipc_simI:
  assumes sim: "sim E ks a" and E: "cap_eps (ks_cnode ks) \<subseteq> E"
    and err: "\<And>h. ep_of (reg ks (a_cur a) 0) (ks_cnode ks) = Inl h \<Longrightarrow> f = Inl h"
    and bad: "\<And>e. ep_of (reg ks (a_cur a) 0) (ks_cnode ks) = Inr (Inl e) \<Longrightarrow>
      f = Inr (True, set_reg (a_cur a) 0 e ks)"
    and ok: "\<And>ep. ep_of (reg ks (a_cur a) 0) (ks_cnode ks) = Inr (Inr ep) \<Longrightarrow> ep \<in> E \<Longrightarrow>
      \<exists>r. f = Inr r \<and> sim_res E r (op (nonblock (reg ks (a_cur a) 1)) ep a)"
  shows "ipc_sim E f (a_ipc op a)"
proof -
  have x: "a_x a i = reg ks (a_cur a) i" for i using sim_fields(4) [OF sim] by simp
  have cn: "fst (a_other a) = ks_cnode ks" using sim_fields(6) [OF sim] by simp
  consider (err) h where "ep_of (reg ks (a_cur a) 0) (ks_cnode ks) = Inl h"
    | (bad) e where "ep_of (reg ks (a_cur a) 0) (ks_cnode ks) = Inr (Inl e)"
    | (ok) ep where "ep_of (reg ks (a_cur a) 0) (ks_cnode ks) = Inr (Inr ep)"
    by (metis sumE)
  then show ?thesis
  proof cases
    case err
    then show ?thesis using assms(3) by (simp add: ipc_sim_def a_ipc_def x cn)
  next
    case bad
    then show ?thesis
      using assms(4) sim_put_x [OF sim] by (simp add: ipc_sim_def a_ipc_def x cn sim_res_def)
  next
    case ok
    then have "ep \<in> E" using ep_of_cap_eps E by blast
    then show ?thesis
      using assms(5) ok by (fastforce simp: ipc_sim_def a_ipc_def x cn)
  qed
qed

lemma sim_sys:
  assumes sim: "sim E ks a" and inv: "a_inv R T E a" and E: "cap_eps (ks_cnode ks) \<subseteq> E"
  shows "ipc_sim E (sys_send (a_cur a) ks) (a_ipc a_send a)"
    "ipc_sim E (sys_recv (a_cur a) ks) (a_ipc a_recv a)"
    "ipc_sim E (sys_call (a_cur a) ks) (a_ipc a_call a)"
    "ipc_sim E (sys_reply_recv (a_cur a) ks) (a_ipc a_reply_recv a)"
proof -
  show "ipc_sim E (sys_send (a_cur a) ks) (a_ipc a_send a)"
    by (rule ipc_simI [OF sim E], simp add: sys_send_def, simp add: sys_send_def, rule sim_send [OF sim inv]; assumption)
  show "ipc_sim E (sys_recv (a_cur a) ks) (a_ipc a_recv a)"
    by (rule ipc_simI [OF sim E]) (simp_all add: sys_recv_def sim_recv [OF sim inv])
  show "ipc_sim E (sys_call (a_cur a) ks) (a_ipc a_call a)"
    by (rule ipc_simI [OF sim E], simp add: sys_call_def, simp add: sys_call_def, rule sim_call [OF sim inv]; assumption)
  show "ipc_sim E (sys_reply_recv (a_cur a) ks) (a_ipc a_reply_recv a)"
    by (rule ipc_simI [OF sim E], simp add: sys_reply_recv_def, simp add: sys_reply_recv_def, rule sim_reply [OF sim inv]; assumption)
qed

lemma a_ipc_res:
  assumes inv: "a_inv R T E a" and E: "cap_eps (fst (a_other a)) \<subseteq> E"
    and op: "\<And>nb ep. ep \<in> E \<Longrightarrow> a_res R T E (op nb ep a)" and r: "a_ipc op a = Inr r"
  shows "a_res R T E r"
proof -
  have ok: "a_ok R T E {a_cur a} a" and run: "st a (a_cur a) = Running" "current_user_root (a_regs a) = sp a (a_cur a)"
    using inv by (simp_all add: a_inv_def)
  have err: "a_inv R T E (a_upd (a_cur a) (put_x 0 e) a)" for e
    using ok_upd [OF ok, of "a_cur a"] run by (simp add: a_inv_def)
  obtain x where x: "ep_of (a_x a 0) (fst (a_other a)) = Inr x"
    using r by (cases "ep_of (a_x a 0) (fst (a_other a))") (simp_all add: a_ipc_def)
  show ?thesis
  proof (cases x)
    case (Inl e)
    then have "r = (True, a_upd (a_cur a) (put_x 0 e) a)" using r x by (simp add: a_ipc_def)
    then show ?thesis using err by (simp add: a_res_def)
  next
    case (Inr ep)
    then have "ep \<in> E" using x ep_of_cap_eps E by blast
    then show ?thesis using op r x Inr by (auto simp: a_ipc_def)
  qed
qed

text \<open>What holds between two operations of the kernel, over the control blocks \<open>T\<close> and endpoints \<open>E\<close>.\<close>

definition tasks_ok :: "u64 set \<Rightarrow> u64 set \<Rightarrow> u64 set \<Rightarrow> kstate \<Rightarrow> bool" where
  "tasks_ok R T E ks \<longleftrightarrow> (\<exists>a. sim E ks a \<and> a_inv R T E a)"

definition stuck :: "u64 set \<Rightarrow> kstate \<Rightarrow> bool" where
  "stuck T ks \<longleftrightarrow> (\<forall>t\<in>T. t_state (ks_tcbs ks t) \<noteq> Ready \<and> t_state (ks_tcbs ks t) \<noteq> Running)"

lemma res_stuck:
  assumes ok: "a_ok R T E {} a" and rd: "a_ready a = []" and sim: "sim E ks a"
  shows "stuck T ks"
proof -
  have q: "queues_ok T E {} a" using ok by (simp add: a_ok_def)
  have "st a t \<noteq> Running \<and> st a t \<noteq> Ready" if "t \<in> T" for t
    using queues_okD(3) [OF q that] queues_okD(5) [OF q, of t] that rd by simp
  then show ?thesis
    using sim_fields(2) [OF sim] by (simp add: stuck_def)
qed

lemma res_tasks:
  assumes "sim_res E (b, ks') ra" "a_res R T E ra"
  shows "if b then tasks_ok R T E ks' else stuck T ks'"
proof (cases b)
  case True
  then show ?thesis using assms by (auto simp: sim_res_def a_res_def tasks_ok_def)
next
  case False
  then show ?thesis using assms res_stuck by (auto simp: sim_res_def a_res_def)
qed

lemma ipc_tasks:
  assumes s: "ipc_sim E (Inr (b, ks')) (a_ipc op a)" and inv: "a_inv R T E a" and E: "cap_eps (fst (a_other a)) \<subseteq> E"
    and op: "\<And>nb ep. ep \<in> E \<Longrightarrow> a_res R T E (op nb ep a)"
  shows "if b then tasks_ok R T E ks' else stuck T ks'"
proof -
  obtain ra where ra: "a_ipc op a = Inr ra" "sim_res E (b, ks') ra"
    using s by (auto simp: ipc_sim_def elim: rel_sum.cases)
  show ?thesis
    using res_tasks [OF ra(2) a_ipc_res [OF inv E op ra(1)]] by simp
qed

lemma tasks_ok_ipc:
  assumes t: "tasks_ok R T E ks" and E: "cap_eps (ks_cnode ks) \<subseteq> E"
    and r: "f \<in> {sys_send, sys_recv, sys_call, sys_reply_recv}" "f (ks_ctx ks) ks = Inr (b, ks')"
  shows "if b then tasks_ok R T E ks' else stuck T ks'"
proof -
  obtain a where sim: "sim E ks a" and inv: "a_inv R T E a" using t by (auto simp: tasks_ok_def)
  have c: "ks_ctx ks = a_cur a" "cap_eps (fst (a_other a)) \<subseteq> E"
    using sim_fields(6,8) [OF sim] E by simp_all
  note s = sim_sys [OF sim inv E]
  have "\<exists>op. ipc_sim E (f (a_cur a) ks) (a_ipc op a) \<and> (\<forall>nb ep. ep \<in> E \<longrightarrow> a_res R T E (op nb ep a))"
    using r(1) s a_send_res [OF inv] a_recv_res [OF inv] a_call_res [OF inv] a_reply_recv_res [OF inv] by blast
  then obtain op where "ipc_sim E (Inr (b, ks')) (a_ipc op a)" "\<And>nb ep. ep \<in> E \<Longrightarrow> a_res R T E (op nb ep a)"
    using r(2) c(1) by auto
  then show ?thesis
    using ipc_tasks [where op = op and a = a and E = E, OF _ inv c(2)] by blast
qed

lemma tasks_ok_rotate:
  assumes "tasks_ok R T E ks"
  shows "tasks_ok R T E (rotate ks)"
  using assms sim_rotate a_rotate_inv unfolding tasks_ok_def by blast

section \<open>Round robin\<close>

text \<open>The running task followed by the ready tasks.\<close>

definition a_ring :: "akernel \<Rightarrow> u64 list" where
  "a_ring a = a_cur a # a_ready a"

lemma a_rotate_ring: "a_ring (a_rotate a) = rotate1 (a_ring a)"
  by (cases "a_ready a") (simp_all add: a_ring_def a_rotate_def)

lemma sim_rotate_n:
  assumes "sim E ks a" "a_inv R T E a"
  shows "\<exists>a'. sim E ((rotate ^^ n) ks) a' \<and> a_inv R T E a' \<and> a_ring a' = List.rotate n (a_ring a)"
proof (induction n)
  case 0
  then show ?case using assms by auto
next
  case (Suc n)
  then obtain a' where "sim E ((rotate ^^ n) ks) a'" "a_inv R T E a'" "a_ring a' = List.rotate n (a_ring a)" by auto
  then show ?case
    using sim_rotate a_rotate_inv a_rotate_ring by (intro exI [of _ "a_rotate a'"]) auto
qed

section \<open>A concrete kernel\<close>

text \<open>
  The root task runs, a second task is ready and a third one waits at an endpoint for a message; the
  root task holds the endpoint's capability in slot 5 and is about to send to it.
\<close>

definition demo_root :: u64 where "demo_root = 0xFFFF000040F00000"
definition demo_t1 :: u64 where "demo_t1 = 0xFFFF000040001000"
definition demo_t2 :: u64 where "demo_t2 = 0xFFFF000040002000"
definition demo_ep :: u64 where "demo_ep = 0xFFFF000040003000"

lemmas demo_addrs = demo_root_def demo_t1_def demo_t2_def demo_ep_def

definition demo_tcbs :: tcb_heap where
  "demo_tcbs =
     (\<lambda>_. tcb_zeroed\<lparr>t_ttbr0_pa := 0x40000000\<rparr>)
       (demo_root := tcb_zeroed\<lparr>t_state := Running, t_ttbr0_pa := 0x40000000,
          t_ctx := context_zeroed\<lparr>c_x := (\<lambda>_. 0)(0 := 5, 2 := 11, 3 := 22, 4 := 33, 5 := 44, 8 := SEND)\<rparr>\<rparr>,
        demo_t1 := tcb_zeroed\<lparr>t_state := Ready, t_ttbr0_pa := 0x40000000\<rparr>,
        demo_t2 := tcb_zeroed\<lparr>t_state := BlockedRecv, t_ttbr0_pa := 0x40000000\<rparr>)"

definition demo_cnode :: cnode where
  "demo_cnode =
     \<lparr>slots = [CapRootTcb, CapAddrSpace 0x40000000, CapConsole, CapTcb 0x40001000, CapTcb 0x40002000,
              CapEndpoint 0x40003000, CapUntyped 0x40010000 0x10000 0, CapPageTable 0x40004000 False, CapPageTable 0x40005000 False,
              CapPageTable 0x40006000 False, CapFrame 0x40007000 False] @ replicate 21 CapEmpty, used = 11\<rparr>"

definition demo_ks :: kstate where
  "demo_ks =
     \<lparr>ks_cnode = demo_cnode, ks_pool = (POOL 0x41000000)\<lparr>pl_used := 1, pl_enabled := True\<rparr>,
      ks_sched = \<lparr>sc_current = demo_root, sc_head = demo_t1, sc_tail = demo_t1\<rparr>, ks_tcbs = demo_tcbs,
      ks_eps = (\<lambda>_. \<lparr>e_head = 0, e_tail = 0\<rparr>)(demo_ep := \<lparr>e_head = demo_t2, e_tail = demo_t2\<rparr>),
      ks_mem = (\<lambda>_. 0),
      ks_regs = \<lparr>mair_el1 = 0, tcr_el1 = 0, ttbr0_el1 = 0x40000000, ttbr1_el1 = 0, sctlr_el1 = 0\<rparr>,
      ks_ctx = demo_root, ks_console = []\<rparr>"

definition demo_a :: akernel where
  "demo_a =
     \<lparr>a_cur = demo_root, a_ready = [demo_t1], a_wait = (\<lambda>_. [])(demo_ep := [demo_t2]), a_tcb = core demo_tcbs,
      a_regs = ks_regs demo_ks, a_other = (ks_cnode demo_ks, ks_pool demo_ks, ks_mem demo_ks, ks_console demo_ks)\<rparr>"

lemma demo_sim: "sim {demo_ep} demo_ks demo_a"
  by (simp add: sim_def demo_ks_def demo_a_def q_rep_def links_def demo_tcbs_def tcb_zeroed_def demo_addrs)

lemma demo_inv: "a_inv {0x40000000} {demo_root, demo_t1, demo_t2} {demo_ep} demo_a"
  unfolding a_inv_def a_ok_def
proof (intro conjI)
  show "queues_ok {demo_root, demo_t1, demo_t2} {demo_ep} {a_cur demo_a} demo_a"
    by (rule queues_okI) (auto simp: demo_a_def demo_tcbs_def tcb_zeroed_def demo_addrs ipc_blocked_def)
  show "replies_ok {demo_root, demo_t1, demo_t2} {a_cur demo_a} demo_a"
    by (rule replies_okI) (auto simp: demo_a_def demo_tcbs_def tcb_zeroed_def demo_addrs)
  show "roots_ok {0x40000000} {demo_root, demo_t1, demo_t2} {a_cur demo_a} demo_a"
    by (simp add: roots_ok_def demo_a_def demo_tcbs_def demo_addrs)
  show "st demo_a (a_cur demo_a) = Running" "current_user_root (a_regs demo_a) = sp demo_a (a_cur demo_a)"
    by (simp_all add: demo_a_def demo_tcbs_def demo_addrs demo_ks_def current_user_root_def)
qed

lemma demo_slots:
  "cnode_slots demo_cnode = [CapRootTcb, CapAddrSpace 0x40000000, CapConsole, CapTcb 0x40001000, CapTcb 0x40002000,
              CapEndpoint 0x40003000, CapUntyped 0x40010000 0x10000 0, CapPageTable 0x40004000 False, CapPageTable 0x40005000 False,
              CapPageTable 0x40006000 False, CapFrame 0x40007000 False]"
  by (simp add: cnode_slots_def demo_cnode_def)

lemma demo_eps: "cap_eps (ks_cnode demo_ks) = {demo_ep}"
  by (auto simp: cap_eps_def demo_ks_def demo_slots demo_addrs KERNEL_VA_OFFSET_def)

lemma demo_fields:
  "ks_ctx demo_ks = demo_root" "a_cur demo_a = demo_root" "a_wait demo_a demo_ep = [demo_t2]"
  "t_state (ks_tcbs demo_ks demo_t2) = BlockedRecv" "st demo_a demo_t2 = BlockedRecv"
  by (simp_all add: demo_ks_def demo_a_def demo_tcbs_def demo_addrs)

lemma demo_ep_of: "ep_of (reg demo_ks demo_root 0) (ks_cnode demo_ks) = Inr (Inr demo_ep)"
  by (simp add: ep_of_def demo_ks_def demo_tcbs_def cnode_cap_def demo_slots demo_addrs add_pn_def checked_add_def
      KERNEL_VA_OFFSET_def)

lemma demo_send: "\<exists>ks'. sys_send demo_root demo_ks = Inr (True, ks')"
  using sim_send [OF demo_sim demo_inv, of demo_ep] demo_ep_of demo_fields
  by (auto simp: sim_res_def a_send_def)

lemma deliver_x: "c_x (deliver src dst) i = (if i < 2 then 0 else if i < 6 then c_x src i else c_x dst i)"
proof -
  have "i = 0 \<or> i = 1 \<or> i = 2 \<or> i = 3 \<or> i = 4 \<or> i = 5 \<or> 6 \<le> i" by arith
  then show ?thesis by (auto simp: deliver_def)
qed

text \<open>The same kernel once the ready task is a caller the root task owes a reply.\<close>

definition demo_owed :: kstate where
  "demo_owed =
     upd_tcb demo_root (\<lambda>t. t\<lparr>t_reply_to := demo_t1\<rparr>)
       (upd_tcb demo_t1 (\<lambda>t. t\<lparr>t_state := BlockedReply\<rparr>)
         (demo_ks\<lparr>ks_sched := \<lparr>sc_current = demo_root, sc_head = 0, sc_tail = 0\<rparr>\<rparr>))"

definition demo_owed_a :: akernel where
  "demo_owed_a =
     a_upd demo_root (\<lambda>t. t\<lparr>t_reply_to := demo_t1\<rparr>)
       (a_upd demo_t1 (\<lambda>t. t\<lparr>t_state := BlockedReply\<rparr>) (demo_a\<lparr>a_ready := []\<rparr>))"

lemma demo_owed_sim: "sim {demo_ep} demo_owed demo_owed_a"
proof -
  have "sim {demo_ep} (demo_ks\<lparr>ks_sched := \<lparr>sc_current = demo_root, sc_head = 0, sc_tail = 0\<rparr>\<rparr>) (demo_a\<lparr>a_ready := []\<rparr>)"
    using demo_sim by (simp add: sim_def demo_ks_def)
  then show ?thesis
    unfolding demo_owed_def demo_owed_a_def by (intro sim_upd) simp_all
qed

lemma demo_owed_inv: "a_inv {0x40000000} {demo_root, demo_t1, demo_t2} {demo_ep} demo_owed_a"
proof -
  have "a_ok {0x40000000} {demo_root, demo_t1, demo_t2} {demo_ep} {demo_t1, demo_root} (demo_a\<lparr>a_ready := []\<rparr>)"
    by (rule ok_next(1)) (use demo_inv in \<open>simp_all add: a_inv_def demo_fields demo_a_def\<close>)
  then have "a_ok {0x40000000} {demo_root, demo_t1, demo_t2} {demo_ep} ({demo_t1, demo_root} - {demo_t1}) demo_owed_a"
    by (rule ok_give [where h = demo_root])
      (auto simp: demo_owed_a_def demo_a_def demo_tcbs_def tcb_zeroed_def demo_addrs)
  moreover have "{demo_t1, demo_root} - {demo_t1} = {a_cur demo_owed_a}"
    by (auto simp: demo_owed_a_def demo_fields demo_addrs)
  moreover have "st demo_owed_a (a_cur demo_owed_a) = Running"
      "current_user_root (a_regs demo_owed_a) = sp demo_owed_a (a_cur demo_owed_a)"
    by (simp_all add: demo_owed_a_def demo_a_def demo_tcbs_def demo_addrs demo_ks_def current_user_root_def)
  ultimately show ?thesis by (simp add: a_inv_def)
qed

lemma a_block_other:
  "t_ctx (a_tcb (snd (a_block a)) t) = t_ctx (a_tcb a t)"
  "st a t \<in> {Ready, Running} \<Longrightarrow> st (snd (a_block a)) t \<in> {Ready, Running}"
  by (auto simp: a_block_def split: list.splits)

text \<open>Receiving touches the registers of the receiver and of the sender it takes, and stops nobody else.\<close>

lemma a_recv_other:
  assumes "t \<noteq> a_cur a" "t \<notin> set (a_wait a ep)" "rp a (a_cur a) = 0"
  shows "t_ctx (a_tcb (snd (a_recv nb ep a)) t) = t_ctx (a_tcb a t)"
    "st a t \<in> {Ready, Running} \<Longrightarrow> st (snd (a_recv nb ep a)) t \<in> {Ready, Running}"
proof -
  have hd: "a_wait a ep \<noteq> [] \<Longrightarrow> t \<noteq> hd (a_wait a ep)" using assms(2) by auto
  have "t_ctx (a_tcb (snd (a_recv nb ep a)) t) = t_ctx (a_tcb a t) \<and>
      (st a t \<in> {Ready, Running} \<longrightarrow> st (snd (a_recv nb ep a)) t \<in> {Ready, Running})"
  proof (cases "a_wait a ep \<noteq> [] \<and> st a (hd (a_wait a ep)) \<noteq> BlockedRecv")
    case True
    then show ?thesis using assms(1,3) hd by (simp add: a_recv_def Let_def a_abort_def a_deliver_def)
  next
    case False
    then have r: "a_recv nb ep a = a_wait_or_fail nb BlockedRecv ep a" by (auto simp: a_recv_def)
    let ?a = "a_push ep (a_cur a) (a_upd (a_cur a) (\<lambda>t. t\<lparr>t_state := BlockedRecv\<rparr>) a)"
    have same: "a_tcb ?a t = a_tcb a t" using assms(1) by simp
    show ?thesis
      using assms(1) a_block_other(1) [of ?a t] a_block_other(2) [of ?a t]
      unfolding r a_wait_or_fail_def same by (cases nb) simp_all
  qed
  then show "t_ctx (a_tcb (snd (a_recv nb ep a)) t) = t_ctx (a_tcb a t)"
      "st a t \<in> {Ready, Running} \<Longrightarrow> st (snd (a_recv nb ep a)) t \<in> {Ready, Running}"
    by blast+
qed

section \<open>Properties\<close>

text \<open>
  C4. The IPC calls implement their list specification. From related states, each of SEND, RECV, CALL
  and REPLY_RECV halts when the specification does, and otherwise returns the same Boolean and a
  state related to the specification's, capabilities, tables, memory and console being untouched.
\<close>

theorem ipc_refines:
  assumes "sim E ks a" "a_inv R T E a" "cap_eps (ks_cnode ks) \<subseteq> E"
  shows "ipc_sim E (sys_send (ks_ctx ks) ks) (a_ipc a_send a) \<and>
    ipc_sim E (sys_recv (ks_ctx ks) ks) (a_ipc a_recv a) \<and>
    ipc_sim E (sys_call (ks_ctx ks) ks) (a_ipc a_call a) \<and>
    ipc_sim E (sys_reply_recv (ks_ctx ks) ks) (a_ipc a_reply_recv a)"
  using sim_sys [OF assms] sim_fields(8) [OF assms(1)] by simp

theorem ipc_refines_witness:
  "ipc_sim {demo_ep} (sys_send (ks_ctx demo_ks) demo_ks) (a_ipc a_send demo_a)"
  using ipc_refines [OF demo_sim demo_inv] demo_eps by simp

text \<open>
  C16. No IPC call breaks the task invariant. A call that returns True leaves every queue, every task
  state and every reply duty consistent; a call that reports False has left no task that could run,
  so parking the core is justified.
\<close>

theorem ipc_keeps_tasks_ok:
  assumes "tasks_ok R T E ks" "cap_eps (ks_cnode ks) \<subseteq> E"
    "f \<in> {sys_send, sys_recv, sys_call, sys_reply_recv}" "f (ks_ctx ks) ks = Inr (b, ks')"
  shows "if b then tasks_ok R T E ks' else stuck T ks'"
  by (rule tasks_ok_ipc [OF assms])

theorem ipc_keeps_tasks_ok_witness:
  "\<exists>ks'. sys_send (ks_ctx demo_ks) demo_ks = Inr (True, ks') \<and> tasks_ok {0x40000000} {demo_root, demo_t1, demo_t2} {demo_ep} ks'"
proof -
  have t: "tasks_ok {0x40000000} {demo_root, demo_t1, demo_t2} {demo_ep} demo_ks"
    using demo_sim demo_inv by (auto simp: tasks_ok_def)
  then show ?thesis
    using demo_send ipc_keeps_tasks_ok [OF t, of sys_send True] demo_eps demo_fields(1) by auto
qed

text \<open>
  C18. Scheduling is fair. After \<open>n\<close> preemptions the running task is the \<open>n\<close>-th of the ring formed by the
  running task and the ready queue, so every ready task runs after at most as many preemptions as
  there are ready tasks.
\<close>

theorem round_robin:
  assumes "sim E ks a" "a_inv R T E a"
  shows "current ((rotate ^^ n) ks) = a_ring a ! (n mod length (a_ring a)) \<and>
    (\<forall>t \<in> T. t_state (ks_tcbs ks t) = Ready \<longrightarrow>
       (\<exists>k \<le> card {t \<in> T. t_state (ks_tcbs ks t) = Ready}. current ((rotate ^^ k) ks) = t))"
proof -
  have nth: "current ((rotate ^^ n) ks) = a_ring a ! (n mod length (a_ring a))" for n
  proof -
    obtain a' where a': "sim E ((rotate ^^ n) ks) a'" "a_ring a' = List.rotate n (a_ring a)"
      using sim_rotate_n [OF assms] by blast
    have "a_ring a \<noteq> []" "a_ring a' \<noteq> []" "hd (a_ring a') = a_cur a'" by (simp_all add: a_ring_def)
    then show ?thesis
      using a' hd_rotate_conv_nth [of "a_ring a" n] sim_fields(1) [OF a'(1)] by simp
  qed
  have q: "queues_ok T E {a_cur a} a" and run: "st a (a_cur a) = Running"
    using assms(2) by (simp_all add: a_inv_def a_ok_def)
  have rd: "set (a_ready a) = {t \<in> T. t_state (ks_tcbs ks t) = Ready}"
    using queues_okD(5) [OF q] run sim_fields(2) [OF assms(1)] by auto
  then have c: "card {t \<in> T. t_state (ks_tcbs ks t) = Ready} = length (a_ready a)"
    using distinct_card [OF queues_okD(4) [OF q]] by simp
  have "\<exists>k \<le> length (a_ready a). current ((rotate ^^ k) ks) = t" if t: "t \<in> set (a_ready a)" for t
  proof -
    obtain i where "i < length (a_ready a)" "a_ready a ! i = t" using t by (auto simp: in_set_conv_nth)
    then show ?thesis
      using nth [of "Suc i"] by (intro exI [of _ "Suc i"]) (simp add: a_ring_def)
  qed
  then show ?thesis
    using nth [of n] rd c by auto
qed

theorem round_robin_witness:
  "current ((rotate ^^ 3) demo_ks) = demo_t1"
proof -
  have "a_ring demo_a = [demo_root, demo_t1]" "(3 :: nat) mod 2 = 1" by (simp_all add: a_ring_def demo_a_def)
  then show ?thesis
    using conjunct1 [OF round_robin [OF demo_sim demo_inv, of 3]] by (simp add: numeral_2_eq_2)
qed

text \<open>
  C19. A send to a waiting receiver is a rendezvous. The longest waiting receiver gets the sender's
  four message registers with x0 and x1 cleared and becomes ready, the sender keeps running with a
  zero result, and no other register of any task changes.
\<close>

theorem send_delivers:
  assumes "sim E ks a" "a_inv R T E a" "ep \<in> E" "ep_of (reg ks (ks_ctx ks) 0) (ks_cnode ks) = Inr (Inr ep)"
    "a_wait a ep = r # rs" "t_state (ks_tcbs ks r) = BlockedRecv"
  shows "\<exists>ks'. sys_send (ks_ctx ks) ks = Inr (True, ks') \<and> current ks' = ks_ctx ks \<and>
    t_state (ks_tcbs ks' r) = Ready \<and> r \<noteq> ks_ctx ks \<and>
    (\<forall>t i. reg ks' t i =
       (if t = r then if i < 2 then 0 else if i < 6 then reg ks (ks_ctx ks) i else reg ks r i
        else if t = ks_ctx ks \<and> i = 0 then 0 else reg ks t i))"
proof -
  let ?c = "ks_ctx ks"
  have c: "?c = a_cur a" using sim_fields(8) [OF assms(1)] .
  obtain b ks' where r: "sys_send ?c ks = Inr (b, ks')" "sim_res E (b, ks') (a_send (nonblock (reg ks ?c 1)) ep a)"
    using sim_send [OF assms(1-3)] assms(4) c by auto
  have ok: "a_ok R T E {a_cur a} a" using assms(2) by (simp add: a_inv_def)
  have rc: "r \<noteq> ?c" using ok_pop(3) [OF ok assms(3,5)] c by simp
  have st: "st a r = BlockedRecv" using assms(6) sim_fields(2) [OF assms(1)] by simp
  let ?a = "a_upd ?c (put_x 0 0) (a_enqueue r (a_deliver ?c r (a_pop ep a)))"
  have b: "b" and sim': "sim E ks' ?a"
    using r(2) st assms(5) c by (simp_all add: sim_res_def a_send_def)
  have x: "reg ks' t i = c_x (t_ctx (a_tcb ?a t)) i" "reg ks t i = c_x (t_ctx (a_tcb a t)) i" for t i
    using sim_fields(4) [OF sim'] sim_fields(4) [OF assms(1)] by simp_all
  have "reg ks' t i = (if t = r then if i < 2 then 0 else if i < 6 then reg ks ?c i else reg ks r i
        else if t = ?c \<and> i = 0 then 0 else reg ks t i)" for t i
    unfolding x using rc by (auto simp: a_deliver_def deliver_x put_x_def)
  moreover have "current ks' = ?c" "t_state (ks_tcbs ks' r) = Ready"
    using sim_fields(1,2) [OF sim'] c rc by simp_all
  ultimately show ?thesis
    using r(1) b rc by auto
qed

theorem send_delivers_witness:
  "\<exists>ks'. sys_send demo_root demo_ks = Inr (True, ks') \<and> reg ks' demo_t2 3 = 22"
  using send_delivers [OF demo_sim demo_inv, of demo_ep demo_t2 "[]"] demo_ep_of demo_fields
  by (auto simp: demo_ks_def demo_tcbs_def demo_addrs)

text \<open>
  C20. A reply reaches the caller that waits for it. When the running task owes a reply, REPLY_RECV
  hands its four message registers to exactly that caller, with a zero result, and makes it runnable,
  whatever the receive half of the call then does.
\<close>

theorem reply_wakes_caller:
  assumes "sim E ks a" "a_inv R T E a" "ep \<in> E" "ep_of (reg ks (ks_ctx ks) 0) (ks_cnode ks) = Inr (Inr ep)"
    "t_reply_to (ks_tcbs ks (ks_ctx ks)) = k" "k \<noteq> 0"
  shows "\<exists>b ks'. sys_reply_recv (ks_ctx ks) ks = Inr (b, ks') \<and> t_state (ks_tcbs ks k) = BlockedReply \<and>
    t_state (ks_tcbs ks' k) \<in> {Ready, Running} \<and>
    (\<forall>i. reg ks' k i = (if i < 2 then 0 else if i < 6 then reg ks (ks_ctx ks) i else reg ks k i))"
proof -
  let ?c = "ks_ctx ks"
  have c: "?c = a_cur a" using sim_fields(8) [OF assms(1)] .
  have k: "rp a ?c = k" using assms(5) sim_fields(3) [OF assms(1)] by simp
  obtain b ks' where r: "sys_reply_recv ?c ks = Inr (b, ks')"
      "sim_res E (b, ks') (a_reply_recv (nonblock (reg ks ?c 1)) ep a)"
    using sim_reply [OF assms(1-3)] assms(4) c by auto
  have ok: "a_ok R T E {?c} a" using assms(2) c by (simp add: a_inv_def)
  note t = ok_take [OF ok ok_free(2) [OF ok singletonI] k assms(6)]
  let ?a = "a_enqueue k (a_deliver ?c k (a_upd ?c (\<lambda>t. t\<lparr>t_reply_to := 0\<rparr>) a))"
  let ?r = "a_recv (nonblock (reg ks ?c 1)) ep ?a"
  have s': "sim E ks' (snd ?r)"
    using r(2) k assms(6) c by (simp add: sim_res_def a_reply_recv_def Let_def)
  have kc: "k \<noteq> a_cur ?a" "rp ?a (a_cur ?a) = 0" using t(3) c by (simp_all add: a_deliver_def)
  have q: "queues_ok T E {?c} a" using ok by (simp add: a_ok_def)
  have kw: "k \<notin> set (a_wait ?a ep)"
    using queues_okD(7) [OF q assms(3), of k] t(4) by (auto simp: ipc_blocked_def)
  have x: "reg ks' k i = c_x (t_ctx (a_tcb ?a k)) i" "reg ks u i = c_x (t_ctx (a_tcb a u)) i" for u i
    using sim_fields(4) [OF s'] sim_fields(4) [OF assms(1)] a_recv_other(1) [OF kc(1) kw kc(2)] by simp_all
  have "reg ks' k i = (if i < 2 then 0 else if i < 6 then reg ks ?c i else reg ks k i)" for i
    unfolding x using t(3) by (simp add: a_deliver_def deliver_x)
  moreover have "t_state (ks_tcbs ks' k) \<in> {Ready, Running}" "t_state (ks_tcbs ks k) = BlockedReply"
    using sim_fields(2) [OF s'] a_recv_other(2) [OF kc(1) kw kc(2)] sim_fields(2) [OF assms(1)] t(4) by simp_all
  ultimately show ?thesis
    using r(1) by blast
qed

theorem reply_wakes_caller_witness:
  "\<exists>b ks'. sys_reply_recv demo_root demo_owed = Inr (b, ks') \<and> reg ks' demo_t1 5 = 44"
proof -
  have f: "ks_ctx demo_owed = demo_root" "reg demo_owed demo_root i = reg demo_ks demo_root i"
      "ks_cnode demo_owed = ks_cnode demo_ks" "t_reply_to (ks_tcbs demo_owed demo_root) = demo_t1" for i
    by (simp_all add: demo_owed_def upd_tcb_def demo_fields demo_addrs)
  have "reg demo_ks demo_root 5 = 44" "demo_t1 \<noteq> 0" by (simp_all add: demo_ks_def demo_tcbs_def demo_addrs)
  then show ?thesis
    using reply_wakes_caller [OF demo_owed_sim demo_owed_inv, of demo_ep demo_t1] f demo_ep_of by force
qed

end
