(* ===== verification/Arch.thy ===== *)
theory Arch
  imports Abi
begin

text \<open>
  The architecture layer below the kernel proper (\<^verbatim>\<open>crates/k0-arch/src\<close>): the early console, the names
  the exception diagnostics print, the hardening switches and the interrupt controller set-up.
  Device registers are read through a parameter that gives the value of each successive read; the
  bytes sent to the UART and the register writes are the results.
\<close>

section \<open>The early console (earlycon.rs)\<close>

definition put_byte :: "u8 \<Rightarrow> u8 list" where
  "put_byte b = (if b = 10 then [13] else []) @ [b]"

definition put_str :: "u8 list \<Rightarrow> u8 list" where
  "put_str s = concat (map put_byte s)"

definition hex_digit :: "u64 \<Rightarrow> nat \<Rightarrow> u8" where
  "hex_digit v i = (let d = ucast (drop_bit (i * 4) v AND 0xF) :: u8 in if d < 10 then 48 + d else 97 + d - 10)"

text \<open>\<^verbatim>\<open>for i in (0..16).rev()\<close>\<close>

definition put_hex :: "u64 \<Rightarrow> u8 list" where
  "put_hex v = put_str [48, 120] @ map (hex_digit v) (rev [0..<16])"

section \<open>Exception diagnostics (vectors.rs)\<close>

definition kind_name :: "u64 \<Rightarrow> string" where
  "kind_name kind =
     (if kind = 0 then ''sync-sp0'' else if kind = 1 then ''irq-sp0''
      else if kind = 2 then ''fiq-sp0'' else if kind = 3 then ''serror-sp0''
      else if kind = 4 then ''sync-spx'' else if kind = 5 then ''irq-spx''
      else if kind = 6 then ''fiq-spx'' else if kind = 7 then ''serror-spx''
      else if kind = 8 then ''sync-a64'' else if kind = 9 then ''irq-a64''
      else if kind = 10 then ''fiq-a64'' else if kind = 11 then ''serror-a64''
      else if kind = 12 then ''sync-a32'' else if kind = 13 then ''irq-a32''
      else if kind = 14 then ''fiq-a32'' else if kind = 15 then ''serror-a32''
      else ''?'')"

definition ec_name :: "u64 \<Rightarrow> string" where
  "ec_name ec =
     (if ec = 0x00 then ''unknown'' else if ec = 0x01 then ''wfx''
      else if ec = 0x07 then ''fp-simd'' else if ec = 0x0E then ''illegal-state''
      else if ec = 0x15 then ''svc64'' else if ec = 0x18 then ''sysreg''
      else if ec = 0x20 then ''iabort-lower'' else if ec = 0x21 then ''iabort''
      else if ec = 0x22 then ''pc-align'' else if ec = 0x24 then ''dabort-lower''
      else if ec = 0x25 then ''dabort'' else if ec = 0x26 then ''sp-align''
      else if ec = 0x2F then ''serror'' else if 0x30 \<le> ec \<and> ec \<le> 0x34 then ''debug''
      else if ec = 0x3C then ''brk'' else ''?'')"

definition exc_class :: "u64 \<Rightarrow> u64" where
  "exc_class esr = drop_bit 26 esr AND 0x3F"

text \<open>What \<^verbatim>\<open>exception_fatal\<close> sends to the UART before it parks the core.\<close>

definition exception_fatal :: "u64 \<Rightarrow> u64 \<Rightarrow> u64 \<Rightarrow> u64 \<Rightarrow> u64 \<Rightarrow> u8 list" where
  "exception_fatal kind esr elr far spsr =
     put_str (bytes_of ''k0: EXCEPTION '') @ put_str (bytes_of (kind_name kind))
     @ put_str (10 # bytes_of ''k0: esr = '') @ put_hex esr
     @ put_str (bytes_of '' ec '') @ put_str (bytes_of (ec_name (exc_class esr)))
     @ put_str (10 # bytes_of ''k0: elr = '') @ put_hex elr
     @ put_str (bytes_of '' far = '') @ put_hex far
     @ put_str (bytes_of '' spsr = '') @ put_hex spsr @ put_str [10]"

section \<open>Hardening (hardening.rs)\<close>

record hardening =
  hd_pac :: bool
  hd_bti :: bool
  hd_pan :: bool
  hd_pan2 :: bool

text \<open>The registers the hardening code writes; \<open>None\<close> is a register it has not written.\<close>

record hard_regs =
  hr_cntkctl :: "u64 option"
  hr_mdscr :: "u64 option"
  hr_pmuserenr :: "u64 option"
  hr_addr_keys :: "u64 list option"
  hr_generic_keys :: "u64 list option"
  hr_sctlr :: u64
  hr_pan :: bool

definition normalize_el0_exposure :: "u64 \<Rightarrow> hard_regs \<Rightarrow> hard_regs" where
  "normalize_el0_exposure dfr0 hr =
     (let hr1 = hr\<lparr>hr_cntkctl := Some 0, hr_mdscr := Some 0\<rparr>; pmuver = drop_bit 8 dfr0 AND 0xF
      in if pmuver \<noteq> 0 \<and> pmuver \<noteq> 0xF then hr1\<lparr>hr_pmuserenr := Some 0\<rparr> else hr1)"

text \<open>\<^verbatim>\<open>rndr()\<close>: \<open>v\<close> and \<open>ok\<close> are what the RNDR read returns, if it is executed.\<close>

definition rndr :: "u64 \<Rightarrow> u64 \<Rightarrow> bool \<Rightarrow> u64 option" where
  "rndr isar0 v ok = (if drop_bit 60 isar0 AND 0xF = 0 then None else if ok then Some v else None)"

definition hardening_enable ::
  "u64 \<Rightarrow> u64 \<Rightarrow> u64 \<Rightarrow> u64 \<Rightarrow> u64 list \<Rightarrow> hard_regs \<Rightarrow> hardening \<times> hard_regs" where
  "hardening_enable isar1 pfr1 mmfr1 dfr0 pac_keys hr =
     (let pac_addr = (drop_bit 4 isar1 AND 0xF \<noteq> 0 \<or> drop_bit 8 isar1 AND 0xF \<noteq> 0);
          pac_generic = (drop_bit 24 isar1 AND 0xF \<noteq> 0 \<or> drop_bit 28 isar1 AND 0xF \<noteq> 0);
          bti = (pfr1 AND 0xF \<noteq> 0);
          pan_level = drop_bit 20 mmfr1 AND 0xF;
          pan = (1 \<le> pan_level);
          pan2 = (2 \<le> pan_level);
          hr1 = normalize_el0_exposure dfr0 hr;
          hr2 = (if pac_addr then
                   let k1 = hr1\<lparr>hr_addr_keys := Some (take 8 pac_keys)\<rparr>;
                       k2 = (if pac_generic then k1\<lparr>hr_generic_keys := Some (take 2 (drop 8 pac_keys))\<rparr> else k1)
                   in k2\<lparr>hr_sctlr := hr_sctlr k2 OR (push_bit 31 1 OR push_bit 30 1 OR push_bit 27 1 OR push_bit 13 1)\<rparr>
                 else hr1);
          hr3 = (if pan then hr2\<lparr>hr_sctlr := hr_sctlr hr2 AND NOT (push_bit 23 1), hr_pan := True\<rparr> else hr2)
      in (\<lparr>hd_pac = pac_addr, hd_bti = bti, hd_pan = pan, hd_pan2 = pan2\<rparr>, hr3))"

section \<open>The interrupt controller (irq.rs)\<close>

datatype irq_error = GicRwpTimeout | GicWakeTimeout

definition TIMER_INTID :: u64 where "TIMER_INTID = 30"
definition GICD_BASE :: u64 where "GICD_BASE = 0x08000000"
definition GICD_SIZE :: u64 where "GICD_SIZE = 0x10000"
definition GICR_BASE :: u64 where "GICR_BASE = 0x080A0000"
definition GICR_SIZE :: u64 where "GICR_SIZE = 0x20000"
definition GICD_CTLR :: u64 where "GICD_CTLR = GICD_BASE + KERNEL_VA_OFFSET"
definition GICR_WAKER :: u64 where "GICR_WAKER = GICR_BASE + KERNEL_VA_OFFSET + 0x14"
definition SGI_BASE :: u64 where "SGI_BASE = GICR_BASE + KERNEL_VA_OFFSET + 0x10000"
definition GICR_IGROUPR0 :: u64 where "GICR_IGROUPR0 = SGI_BASE + 0x80"
definition GICR_ISENABLER0 :: u64 where "GICR_ISENABLER0 = SGI_BASE + 0x100"
definition POLL_LIMIT :: nat where "POLL_LIMIT = 1000000"

text \<open>
  A device is a function from the number of the read to its value. \<open>poll busy rd k n\<close> reads until the
  busy bits clear, from the \<open>k\<close>-th read on, having counted \<open>n\<close> busy reads; the result is the number
  of the next read, or None when the limit is exceeded.
\<close>

function poll :: "u32 \<Rightarrow> (nat \<Rightarrow> u32) \<Rightarrow> nat \<Rightarrow> nat \<Rightarrow> nat option" where
  "poll busy rd k n =
     (if rd k AND busy \<noteq> 0
      then if POLL_LIMIT < n + 1 then None else poll busy rd (k + 1) (n + 1)
      else Some (k + 1))"
  by pat_completeness auto
termination
  by (relation "measure (\<lambda>(busy, rd, k, n). POLL_LIMIT + 1 - n)") auto

declare poll.simps [simp del]

text \<open>
  The register writes of \<^verbatim>\<open>gicv3::init\<close>, in order, and its result: MMIO registers by address, then the
  CPU interface system registers. \<open>sre\<close> is what ICC_SRE_EL1 reads.
\<close>

datatype io_write =
    Mmio u64 u32
  | IccSre u64
  | IccPmr u64
  | IccIgrpen1 u64

definition gicv3_init :: "(nat \<Rightarrow> u32) \<Rightarrow> u64 \<Rightarrow> (irq_error + unit) \<times> io_write list" where
  "gicv3_init rd sre =
     (let w0 = [Mmio GICD_CTLR (push_bit 4 1 OR push_bit 1 1)]
      in case poll (push_bit 31 1) rd 0 0 of
           None \<Rightarrow> (Inl GicRwpTimeout, w0)
         | Some k \<Rightarrow>
             let waker = rd k AND NOT (push_bit 1 1); w1 = w0 @ [Mmio GICR_WAKER waker]
             in case poll (push_bit 2 1) rd (k + 1) 0 of
                  None \<Rightarrow> (Inl GicWakeTimeout, w1)
                | Some _ \<Rightarrow>
                    (Inr (), w1 @ [Mmio GICR_IGROUPR0 0xFFFFFFFF, Mmio GICR_ISENABLER0 (push_bit (unat TIMER_INTID) 1),
                                   IccSre (sre OR 1), IccPmr 0xFF, IccIgrpen1 1]))"

text \<open>
  \<^verbatim>\<open>irq::init\<close>: the controller (virt only), the timer, then the exception mask bits to clear. The results
  are the register writes, the interval the timer is armed with and the DAIFClr immediate; a failing
  controller arms and unmasks nothing.
\<close>

definition irq_init ::
  "platform \<Rightarrow> (nat \<Rightarrow> u32) \<Rightarrow> u64 \<Rightarrow> u64 \<Rightarrow> (irq_error + (u64 \<times> nat)) \<times> io_write list" where
  "irq_init p rd sre freq =
     (case p of
        Virt \<Rightarrow> (case gicv3_init rd sre of
                   (Inl e, ws) \<Rightarrow> (Inl e, ws)
                 | (Inr _, ws) \<Rightarrow> (Inr (freq, 6), ws))
      | Apple \<Rightarrow> (Inr (freq, 5), []))"

section \<open>Cache maintenance (usermode.rs)\<close>

text \<open>
  \<^verbatim>\<open>sync_icache\<close>: the addresses cleaned from the data cache, then those invalidated in the instruction
  cache. \<open>w\<close> is the field of CTR_EL0 that gives the line size.
\<close>

definition line_size :: "u64 \<Rightarrow> u64" where
  "line_size w = push_bit (unat (w AND 0xF)) 4"

lemma line_size_unat: "unat (line_size w) = 4 * 2 ^ unat (w AND 0xF)" "4 \<le> unat (line_size w)" "unat (line_size w) \<le> 131072"
proof -
  have e: "unat (w AND 0xF) < 16"
    using word_and_le1 [of w 15] by (simp add: word_le_nat_alt)
  have p: "(2 :: nat) ^ unat (w AND 0xF) \<le> 2 ^ 15" using e by (intro power_increasing) auto
  show u: "unat (line_size w) = 4 * 2 ^ unat (w AND 0xF)"
    using p unfolding line_size_def unsigned_push_bit_eq by (simp add: push_bit_eq_mult take_bit_eq_mod)
  show "4 \<le> unat (line_size w)" "unat (line_size w) \<le> 131072" using p unfolding u by auto
qed

function cache_lines :: "u64 \<Rightarrow> u64 \<Rightarrow> u64 \<Rightarrow> halt + u64 list" where
  "cache_lines w e a =
     (if a < e
      then case checked_add a (line_size w) of
             None \<Rightarrow> Inl Panic
           | Some a' \<Rightarrow> and_then (cache_lines w e a') (\<lambda>ls. Inr (a # ls))
      else Inr [])"
  by pat_completeness auto
termination
proof (relation "measure (\<lambda>(w, e, a). unat e - unat a)")
  fix w e a a' assume "a < e" "checked_add a (line_size w) = Some a'"
  then show "((w, e, a'), (w, e, a)) \<in> measure (\<lambda>(w, e, a). unat e - unat a)"
    using line_size_unat(2) [of w] by (auto simp: checked_add_def unat_add_64 word_order_unat split: if_splits)
qed simp

declare cache_lines.simps [simp del]

definition sync_icache :: "u64 \<Rightarrow> u64 \<Rightarrow> u64 \<Rightarrow> halt + (u64 list \<times> u64 list)" where
  "sync_icache ctr va len =
     (let dw = drop_bit 16 ctr; iw = ctr
      in and_then (add_pn va len) (\<lambda>e.
           and_then (cache_lines dw e (va AND NOT (line_size dw - 1))) (\<lambda>ds.
             and_then (cache_lines iw e (va AND NOT (line_size iw - 1))) (\<lambda>ils. Inr (ds, ils)))))"

end
