(* ===== verification/Kernel.thy ===== *)
theory Kernel
  imports IpcRefine Arch
begin

text \<open>
  The policy functions of the kernel binary (\<^verbatim>\<open>kernel/src/main.rs\<close>): the system call handlers, the
  fault and preemption policies, and the bootinfo page. A handler's argument \<open>ctx\<close> is the address of
  the control block whose context the vectors saved; a parked core is the left value of the result.
\<close>

section \<open>Console output\<close>

definition con_bytes :: "u8 list \<Rightarrow> kstate \<Rightarrow> kstate" where
  "con_bytes bs ks = ks\<lparr>ks_console := ks_console ks @ map ConByte bs\<rparr>"

definition con_log :: "console_item \<Rightarrow> kstate \<Rightarrow> kstate" where
  "con_log i ks = ks\<lparr>ks_console := ks_console ks @ [i]\<rparr>"

definition safe_byte :: "u8 \<Rightarrow> u8" where
  "safe_byte b = (if b = 10 \<or> 0x20 \<le> b \<and> b \<le> 0x7E then b else 63)"

definition sys_putc :: "u64 \<Rightarrow> u64 \<Rightarrow> kstate \<Rightarrow> i64 \<times> kstate" where
  "sys_putc slot byte ks =
     (case cnode_cap (ks_cnode ks) slot of
        Some CapConsole \<Rightarrow> (0, con_bytes (put_byte (safe_byte (ucast byte))) ks)
      | Some _ \<Rightarrow> (BAD_CAP, ks)
      | None \<Rightarrow> (BAD_SLOT, ks))"

section \<open>Task control\<close>

definition kill_current :: "kstate \<Rightarrow> halt + kstate" where
  "kill_current ks =
     (let ks1 = abort_reply (current ks) ks; (alive, ks2) = exit_current ks1
      in if alive then Inr ks2 else Inl AllTasksExited)"

definition ipc_or_park :: "halt + (bool \<times> kstate) \<Rightarrow> halt + kstate" where
  "ipc_or_park r = and_then r (\<lambda>(ok, ks). if ok then Inr ks else Inl AllTasksBlocked)"

definition k0_preempt :: "kstate \<Rightarrow> kstate" where
  "k0_preempt ks = rotate ks"

definition configured :: "u64 \<Rightarrow> u64 \<Rightarrow> u64 \<Rightarrow> tcb \<Rightarrow> tcb" where
  "configured entry stack root_pa t =
     t\<lparr>t_ctx := context_zeroed\<lparr>c_elr := entry, c_sp := stack, c_spsr := 0\<rparr>,
       t_ttbr0_pa := root_pa, t_state := Stopped\<rparr>"

definition sys_tcb_configure ::
  "platform \<Rightarrow> u64 \<Rightarrow> u64 \<Rightarrow> u64 \<Rightarrow> u64 \<Rightarrow> kstate \<Rightarrow> halt + (i64 \<times> kstate)" where
  "sys_tcb_configure p slot entry stack aspace ks =
     (if entry mod 4 \<noteq> 0 \<or> entry < GRANULE p \<or> push_bit 48 1 \<le> entry then Inr (BAD_VA, ks)
      else if stack mod 16 \<noteq> 0 \<or> stack < GRANULE p \<or> push_bit 48 1 < stack then Inr (BAD_VA, ks)
      else case cnode_cap (ks_cnode ks) aspace of
        Some (CapAddrSpace root_pa) \<Rightarrow>
          (case cnode_cap (ks_cnode ks) slot of
             Some (CapTcb base) \<Rightarrow>
               and_then (add_pn base KERNEL_VA_OFFSET) (\<lambda>t.
                 if t_state (ks_tcbs ks t) \<noteq> Inactive then Inr (BAD_STATE, ks)
                 else Inr (0, upd_tcb t (configured entry stack root_pa) ks))
           | Some _ \<Rightarrow> Inr (BAD_CAP, ks)
           | None \<Rightarrow> Inr (BAD_SLOT, ks))
      | Some _ \<Rightarrow> Inr (BAD_CAP, ks)
      | None \<Rightarrow> Inr (BAD_SLOT, ks))"

definition sys_tcb_resume :: "u64 \<Rightarrow> kstate \<Rightarrow> halt + (i64 \<times> kstate)" where
  "sys_tcb_resume slot ks =
     (case cnode_cap (ks_cnode ks) slot of
        Some (CapTcb base) \<Rightarrow>
          and_then (add_pn base KERNEL_VA_OFFSET) (\<lambda>t.
            if t_state (ks_tcbs ks t) \<noteq> Stopped then Inr (BAD_STATE, ks)
            else Inr (0, enqueue t ks))
      | Some _ \<Rightarrow> Inr (BAD_CAP, ks)
      | None \<Rightarrow> Inr (BAD_SLOT, ks))"

section \<open>Retyping memory\<close>

definition kind_of :: "u64 \<Rightarrow> obj_kind option" where
  "kind_of k =
     (if k = OBJ_FRAME then Some ObjFrame else if k = OBJ_PAGE_TABLE then Some ObjPageTable
      else if k = OBJ_TCB then Some ObjTcb else if k = OBJ_ENDPOINT then Some ObjEndpoint else None)"

text \<open>
  \<^verbatim>\<open>write_bytes(va, 0, GRANULE)\<close>: all three views of the frame read as zero afterwards, and a zeroed
  control block is an Inactive one.
\<close>

definition in_frame :: "platform \<Rightarrow> u64 \<Rightarrow> u64 \<Rightarrow> bool" where
  "in_frame p va a \<longleftrightarrow> unat va \<le> unat a \<and> unat a < unat va + unat (GRANULE p)"

definition clear_frame :: "platform \<Rightarrow> u64 \<Rightarrow> kstate \<Rightarrow> kstate" where
  "clear_frame p va ks =
     ks\<lparr>ks_mem := zero_bytes va (GRANULE p) (ks_mem ks),
        ks_tcbs := (\<lambda>a. if in_frame p va a then tcb_zeroed else ks_tcbs ks a),
        ks_eps := (\<lambda>a. if in_frame p va a then \<lparr>e_head = 0, e_tail = 0\<rparr> else ks_eps ks a)\<rparr>"

definition retype_prep :: "platform \<Rightarrow> u64 \<Rightarrow> kstate \<Rightarrow> halt + (bool \<times> kstate)" where
  "retype_prep p pa ks =
     and_then (add_pn pa (GRANULE p)) (\<lambda>pa_end.
       and_then (map_kernel_window p \<lparr>r_start = pa, r_end = pa_end\<rparr> (ks_pool ks)) (\<lambda>(r, pl).
         let ks1 = ks\<lparr>ks_pool := pl\<rparr>
         in case r of
              Inl _ \<Rightarrow> Inr (False, ks1)
            | Inr _ \<Rightarrow> and_then (add_pn pa KERNEL_VA_OFFSET) (\<lambda>va. Inr (True, clear_frame p va ks1))))"

definition retype_code :: "retype_error \<Rightarrow> i64" where
  "retype_code e =
     (case e of
        RtBadSlot \<Rightarrow> BAD_SLOT
      | RtNotUntyped \<Rightarrow> NOT_UNTYPED
      | RtExhausted \<Rightarrow> EXHAUSTED
      | RtOutOfSlots \<Rightarrow> OUT_OF_SLOTS
      | RtPrepFailed \<Rightarrow> KERNEL_RESOURCE)"

definition sys_retype :: "platform \<Rightarrow> u64 \<Rightarrow> u64 \<Rightarrow> kstate \<Rightarrow> halt + (i64 \<times> kstate)" where
  "sys_retype p slot kind ks =
     (case kind_of kind of
        None \<Rightarrow> Inr (BAD_TYPE, ks)
      | Some k \<Rightarrow>
          and_then (retype slot k (GRANULE p) (retype_prep p) (ks_cnode ks) ks) (\<lambda>(r, cn, ks1).
            let ks2 = ks1\<lparr>ks_cnode := cn\<rparr>
            in case r of
                 Inr new_slot \<Rightarrow> Inr (new_slot, ks2)
               | Inl e \<Rightarrow> Inr (retype_code e, ks2)))"

section \<open>Mapping memory\<close>

definition mmu_err :: "mmu_error \<Rightarrow> halt + i64" where
  "mmu_err e =
     (case e of
        Misaligned \<Rightarrow> Inr BAD_VA
      | NullPage \<Rightarrow> Inr BAD_VA
      | Overlap \<Rightarrow> Inr OVERLAP
      | MissingTable \<Rightarrow> Inr MISSING_TABLE
      | BadTable \<Rightarrow> Inl TableCorrupt
      | _ \<Rightarrow> Inr KERNEL_RESOURCE)"

definition perm_of :: "u64 \<Rightarrow> user_perm option" where
  "perm_of pm = (if pm = PERM_RO then Some RoUser else if pm = PERM_RW then Some RwUser else None)"

definition sys_map :: "platform \<Rightarrow> u64 \<Rightarrow> u64 \<Rightarrow> u64 \<Rightarrow> u64 \<Rightarrow> kstate \<Rightarrow> halt + (i64 \<times> kstate)" where
  "sys_map p slot va pm aspace ks =
     (case cnode_cap (ks_cnode ks) aspace of
        Some (CapAddrSpace root) \<Rightarrow>
          (case cap_mut (ks_cnode ks) slot of
             Some (CapFrame base mapped, put) \<Rightarrow>
               if mapped then Inr (ALREADY_MAPPED, ks)
               else (case perm_of pm of
                  None \<Rightarrow> Inr (BAD_PERM, ks)
                | Some up \<Rightarrow>
                    and_then (user_map_frame p root va base up (ks_mem ks)) (\<lambda>(r, mem).
                      case r of
                        Inr _ \<Rightarrow> Inr (0, ks\<lparr>ks_mem := mem, ks_cnode := put (CapFrame base True)\<rparr>)
                      | Inl e \<Rightarrow> and_then (mmu_err e) (\<lambda>c. Inr (c, ks\<lparr>ks_mem := mem\<rparr>))))
           | Some (CapPageTable base installed, put) \<Rightarrow>
               if installed then Inr (ALREADY_MAPPED, ks)
               else and_then (user_install_table p root va base (ks_mem ks)) (\<lambda>(r, mem).
                      case r of
                        Inr _ \<Rightarrow> Inr (0, ks\<lparr>ks_mem := mem, ks_cnode := put (CapPageTable base True)\<rparr>)
                      | Inl e \<Rightarrow> and_then (mmu_err e) (\<lambda>c. Inr (c, ks\<lparr>ks_mem := mem\<rparr>)))
           | Some _ \<Rightarrow> Inr (BAD_CAP, ks)
           | None \<Rightarrow> Inr (BAD_SLOT, ks))
      | Some _ \<Rightarrow> Inr (BAD_CAP, ks)
      | None \<Rightarrow> Inr (BAD_SLOT, ks))"

section \<open>The system call and fault policies\<close>

text \<open>A handler that returns a code: the code goes to x0 of the caller's context.\<close>

definition with_code :: "u64 \<Rightarrow> halt + (i64 \<times> kstate) \<Rightarrow> halt + kstate" where
  "with_code ctx r = and_then r (\<lambda>(c, ks). Inr (set_reg ctx 0 c ks))"

definition k0_syscall :: "platform \<Rightarrow> u64 \<Rightarrow> kstate \<Rightarrow> halt + kstate" where
  "k0_syscall p ctx ks =
     (let nr = reg ks ctx 8; x0 = reg ks ctx 0; x1 = reg ks ctx 1; x2 = reg ks ctx 2; x3 = reg ks ctx 3
      in if nr = DEBUG_PUTC then with_code ctx (Inr (sys_putc x0 x1 ks))
         else if nr = YIELD then Inr (rotate (set_reg ctx 0 0 ks))
         else if nr = EXIT then kill_current (con_log (TaskExited x0) ks)
         else if nr = RETYPE then with_code ctx (sys_retype p x0 x1 ks)
         else if nr = MAP then with_code ctx (sys_map p x0 x1 x2 x3 ks)
         else if nr = TCB_CONFIGURE then with_code ctx (sys_tcb_configure p x0 x1 x2 x3 ks)
         else if nr = TCB_RESUME then with_code ctx (sys_tcb_resume x0 ks)
         else if nr = SEND then ipc_or_park (sys_send ctx ks)
         else if nr = RECV then ipc_or_park (sys_recv ctx ks)
         else if nr = CALL then ipc_or_park (sys_call ctx ks)
         else if nr = REPLY_RECV then ipc_or_park (sys_reply_recv ctx ks)
         else kill_current (con_log (UnknownSyscall nr) ks))"

definition k0_fault :: "u64 \<Rightarrow> u64 \<Rightarrow> u64 \<Rightarrow> kstate \<Rightarrow> halt + kstate" where
  "k0_fault ctx esr far ks =
     kill_current (con_log (TaskFault (ec_name (exc_class esr)) esr (c_elr (t_ctx (ks_tcbs ks ctx))) far) ks)"

section \<open>The bootinfo page\<close>

definition desc_of :: "cap \<Rightarrow> cap_desc" where
  "desc_of c =
     (case c of
        CapEmpty \<Rightarrow> \<lparr>cd_kind = KIND_EMPTY, cd_base = 0, cd_size = 0\<rparr>
      | CapRootTcb \<Rightarrow> \<lparr>cd_kind = KIND_TCB, cd_base = 0, cd_size = 0\<rparr>
      | CapTcb _ \<Rightarrow> \<lparr>cd_kind = KIND_TCB, cd_base = 0, cd_size = 0\<rparr>
      | CapAddrSpace _ \<Rightarrow> \<lparr>cd_kind = KIND_ADDR_SPACE, cd_base = 0, cd_size = 0\<rparr>
      | CapConsole \<Rightarrow> \<lparr>cd_kind = KIND_CONSOLE, cd_base = 0, cd_size = 0\<rparr>
      | CapUntyped base sz _ \<Rightarrow> \<lparr>cd_kind = KIND_UNTYPED, cd_base = base, cd_size = sz\<rparr>
      | CapFrame _ _ \<Rightarrow> \<lparr>cd_kind = KIND_FRAME, cd_base = 0, cd_size = 0\<rparr>
      | CapPageTable _ _ \<Rightarrow> \<lparr>cd_kind = KIND_PAGE_TABLE, cd_base = 0, cd_size = 0\<rparr>
      | CapEndpoint _ \<Rightarrow> \<lparr>cd_kind = KIND_ENDPOINT, cd_base = 0, cd_size = 0\<rparr>)"

definition put_header :: "u64 \<Rightarrow> bi_header \<Rightarrow> memory \<Rightarrow> memory" where
  "put_header a h mem = mem(a := version h, a + 8 := frame_size h, a + 16 := cap_count h)"

definition put_desc :: "u64 \<Rightarrow> cap_desc \<Rightarrow> memory \<Rightarrow> memory" where
  "put_desc a d mem = mem(a := cd_kind d, a + 8 := cd_base d, a + 16 := cd_size d)"

fun put_descs :: "u64 \<Rightarrow> cap list \<Rightarrow> memory \<Rightarrow> memory" where
  "put_descs a [] mem = mem"
| "put_descs a (c # cs) mem = put_descs (a + 24) cs (put_desc a (desc_of c) mem)"

definition write_bootinfo :: "platform \<Rightarrow> u64 \<Rightarrow> cnode \<Rightarrow> memory \<Rightarrow> halt + memory" where
  "write_bootinfo p frame_pa cn mem =
     and_then (add_pn frame_pa KERNEL_VA_OFFSET) (\<lambda>hdr.
       let mem1 = put_header hdr \<lparr>version = BOOTINFO_VERSION, frame_size = GRANULE p,
                                  cap_count = of_nat (length (cnode_slots cn))\<rparr> mem
       in Inr (put_descs (hdr + 24) (cnode_slots cn) mem1))"

end
