(* ===== verification/KernelInv.thy ===== *)
theory KernelInv
  imports Kernel
begin

text \<open>
  The invariant of the whole kernel state, kept by every system call, fault and preemption: the
  capabilities own disjoint memory below 2^48, the kernel tables are sound, the user address spaces are
  forests whose leaves reach only memory that no kernel object, table or free memory occupies, and the
  tasks and queues are consistent. It follows that no handler panics and that none finds a corrupt
  page table.
\<close>

section \<open>What the task functions leave alone\<close>

text \<open>The part of a context that IPC never touches: everything but the general registers.\<close>

definition pcs :: "kstate \<Rightarrow> u64 \<Rightarrow> reg_context" where
  "pcs ks t = (t_ctx (ks_tcbs ks t))\<lparr>c_x := \<lambda>_. 0\<rparr>"

definition others :: "kstate \<Rightarrow> cnode \<times> pool \<times> memory \<times> (u64 \<Rightarrow> reg_context)" where
  "others ks = (ks_cnode ks, ks_pool ks, ks_mem ks, pcs ks)"

named_theorems others_simps

lemma others_upd [others_simps]:
  "(\<And>x. (t_ctx (f x))\<lparr>c_x := \<lambda>_. 0\<rparr> = (t_ctx x)\<lparr>c_x := \<lambda>_. 0\<rparr>) \<Longrightarrow> others (upd_tcb t f ks) = others ks"
  by (auto simp: others_def upd_tcb_def pcs_def)

lemma pcs_heap:
  "t_ctx \<circ> h = t_ctx \<circ> ks_tcbs ks \<Longrightarrow> pcs (ks\<lparr>ks_sched := sc, ks_tcbs := h\<rparr>) = pcs ks"
  "t_ctx \<circ> h = t_ctx \<circ> ks_tcbs ks \<Longrightarrow> pcs (ks\<lparr>ks_eps := es, ks_tcbs := h\<rparr>) = pcs ks"
  by (simp_all add: pcs_def fun_eq_iff)

lemma others_basic [others_simps]:
  "others (set_reg t i v ks) = others ks"
  "others (deliver_to s d ks) = others ks"
  "others (ks\<lparr>ks_console := c\<rparr>) = others ks"
  by (simp_all add: set_reg_def deliver_to_def deliver_def put_x_def others_simps) (simp add: others_def pcs_def [abs_def])

lemma heap_ctx: "t_ctx \<circ> set_next t v h = t_ctx \<circ> h" "t_ctx \<circ> set_state t s h = t_ctx \<circ> h"
  by (auto simp: set_next_def set_state_def)

lemma queues_ctx:
  "sched_push t s h = (s', h') \<Longrightarrow> t_ctx \<circ> h' = t_ctx \<circ> h"
  "sched_pop s h = (t, s', h') \<Longrightarrow> t_ctx \<circ> h' = t_ctx \<circ> h"
  "endpoint_push t e h = (e', h') \<Longrightarrow> t_ctx \<circ> h' = t_ctx \<circ> h"
  "endpoint_pop e h = (t, e', h') \<Longrightarrow> t_ctx \<circ> h' = t_ctx \<circ> h"
  by (auto simp: sched_push_def sched_pop_def endpoint_push_def endpoint_pop_def Let_def heap_ctx split: if_splits)

lemma others_queues [others_simps]:
  "others (enqueue t ks) = others ks"
  "others (ks_ep_push ep t ks) = others ks"
  "others (snd (ks_ep_pop ep ks)) = others ks"
  by (simp_all add: others_def enqueue_def ks_ep_push_def ks_ep_pop_def Let_def pcs_heap queues_ctx split: prod.split)

lemma others_switch [others_simps]: "others (switch_to t ks) = others ks"
  by (simp add: others_def switch_to_def Let_def pcs_def [abs_def] set_state_def fun_eq_iff)

lemma others_popped: "sched_pop (ks_sched ks) (ks_tcbs ks) = (t, s, h) \<Longrightarrow> others (ks\<lparr>ks_sched := s, ks_tcbs := h\<rparr>) = others ks"
  by (simp add: others_def pcs_heap queues_ctx)

lemma others_sched [others_simps]:
  "others (rotate ks) = others ks"
  "others (snd (block_and_switch ks)) = others ks"
  "others (abort_reply t ks) = others ks"
  by (simp_all add: rotate_def block_and_switch_def abort_reply_def Let_def others_simps others_popped split: prod.split)

lemma others_exit [others_simps]: "others (snd (exit_current ks)) = others ks"
  by (simp add: exit_as_block others_simps)

lemma others_recv [others_simps]: "others (snd (recv_inner ctx ep nb ks)) = others ks"
  by (cases "ks_ep_pop ep ks") (use others_queues(3) [of ep ks] in \<open>simp add: recv_inner_def Let_def others_simps\<close>)

lemma others_ipc:
  assumes "f \<in> {sys_send, sys_recv, sys_call, sys_reply_recv}" "f ctx ks = Inr (b, ks')"
  shows "others ks' = others ks"
proof -
  obtain x where x: "ep_of (reg ks ctx 0) (ks_cnode ks) = Inr x"
    using assms by (cases "ep_of (reg ks ctx 0) (ks_cnode ks)")
      (auto simp: sys_send_def sys_recv_def sys_call_def sys_reply_recv_def)
  have blk: "others k' = others k" if "block_and_switch k = (b, k')" for k k'
    using others_sched(2) [of k] that by simp
  have rcv: "others k' = others k" if "recv_inner ctx ep nb k = (b, k')" for k k' ep nb
    using others_recv [of ctx ep nb k] that by simp
  show ?thesis
  proof (cases x)
    case (Inl e)
    then show ?thesis
      using assms x by (auto simp: sys_send_def sys_recv_def sys_call_def sys_reply_recv_def others_simps)
  next
    case (Inr ep)
    obtain t k where p: "ks_ep_pop ep ks = (t, k)" by fastforce
    have k: "others k = others ks" using others_queues(3) [of ep ks] p by simp
    show ?thesis
      using assms x Inr p k
      by (auto simp: sys_send_def sys_recv_def sys_call_def sys_reply_recv_def Let_def others_simps
          dest!: blk rcv split: if_splits)
  qed
qed

section \<open>Capabilities, tasks and endpoints\<close>

definition cap_tcbs :: "cnode \<Rightarrow> u64 set" where
  "cap_tcbs cn = {b + KERNEL_VA_OFFSET | b. CapTcb b \<in> set (cnode_slots cn)}"

definition cap_roots :: "cnode \<Rightarrow> u64 set" where
  "cap_roots cn = {r. CapAddrSpace r \<in> set (cnode_slots cn)}"

lemma tasks_ok_other:
  assumes "tasks_ok R T E ks" "ks_tcbs ks' = ks_tcbs ks" "ks_eps ks' = ks_eps ks" "ks_sched ks' = ks_sched ks"
    "ks_regs ks' = ks_regs ks" "ks_ctx ks' = ks_ctx ks"
  shows "tasks_ok R T E ks'"
proof -
  obtain a where a: "sim E ks a" "a_inv R T E a" using assms(1) by (auto simp: tasks_ok_def)
  let ?a = "a\<lparr>a_other := (ks_cnode ks', ks_pool ks', ks_mem ks', ks_console ks')\<rparr>"
  have "sim E ks' ?a" using a(1) assms(2-6) by (simp add: sim_def)
  moreover have "a_inv R T E ?a"
    using a(2) ok_transit [of R T E "{a_cur a}" a ?a] by (simp add: a_inv_def)
  ultimately show ?thesis by (auto simp: tasks_ok_def)
qed

lemma tasks_ok_reg:
  assumes "tasks_ok R T E ks"
  shows "tasks_ok R T E (set_reg (ks_ctx ks) i v ks)"
proof -
  obtain a where a: "sim E ks a" "a_inv R T E a" using assms(1) by (auto simp: tasks_ok_def)
  have "a_inv R T E (a_upd (a_cur a) (put_x i v) a)"
    using a(2) ok_upd [of R T E "{a_cur a}" a "a_cur a" "put_x i v"] by (simp add: a_inv_def)
  then show ?thesis
    using sim_put_x [OF a(1)] sim_fields(8) [OF a(1)] by (auto simp: tasks_ok_def)
qed

lemma tasks_ok_ctx: "tasks_ok R T E ks \<Longrightarrow> current ks = ks_ctx ks \<and> ks_ctx ks \<in> T \<and> t_state (ks_tcbs ks (ks_ctx ks)) = Running"
  using sim_fields(1,2,8) ok_free(2) [OF _ singletonI] unfolding tasks_ok_def a_inv_def by metis

text \<open>Configuring an inactive task and resuming a stopped one.\<close>

lemma tasks_ok_configure:
  assumes ok: "tasks_ok R T E ks" and t: "t \<in> T" "t_state (ks_tcbs ks t) = Inactive" and root: "root \<in> R"
  shows "tasks_ok R T E (upd_tcb t (configured entry stack root) ks)"
proof -
  obtain a where a: "sim E ks a" "a_inv R T E a" using ok by (auto simp: tasks_ok_def)
  have o: "a_ok R T E {a_cur a} a" and run: "st a (a_cur a) = Running" "current_user_root (a_regs a) = sp a (a_cur a)"
    using a(2) by (simp_all add: a_inv_def)
  have s: "st a t = Inactive" using t(2) sim_fields(2) [OF a(1)] by simp
  then have n: "t \<notin> {a_cur a}" using run by auto
  have "a_ok R T E {a_cur a} (a_upd t (configured entry stack root) a)"
    by (rule ok_configure [OF o t(1) n s]) (simp_all add: configured_def root)
  then have "a_inv R T E (a_upd t (configured entry stack root) a)"
    using run n by (auto simp: a_inv_def)
  moreover have "sim E (upd_tcb t (configured entry stack root) ks) (a_upd t (configured entry stack root) a)"
    by (rule sim_upd [OF a(1)]) (simp_all add: configured_def)
  ultimately show ?thesis by (auto simp: tasks_ok_def)
qed

lemma tasks_ok_resume:
  assumes ok: "tasks_ok R T E ks" and t: "t \<in> T" "t_state (ks_tcbs ks t) = Stopped"
  shows "tasks_ok R T E (enqueue t ks)"
proof -
  obtain a where a: "sim E ks a" "a_inv R T E a" using ok by (auto simp: tasks_ok_def)
  have o: "a_ok R T E {a_cur a} a" and run: "st a (a_cur a) = Running" "current_user_root (a_regs a) = sp a (a_cur a)"
    using a(2) by (simp_all add: a_inv_def)
  have s: "st a t = Stopped" using t(2) sim_fields(2) [OF a(1)] by simp
  then have n: "t \<notin> {a_cur a}" using run by auto
  note i = ok_take_idle [OF o t(1) n, unfolded s, simplified]
  have "sim E (enqueue t ks) (a_enqueue t a)" by (rule sim_enqueue [OF a(1) i(1)]) simp
  moreover have "a_inv R T E (a_enqueue t a)"
    using ok_enqueue [OF i(1) n] run n by (auto simp: a_inv_def)
  ultimately show ?thesis by (auto simp: tasks_ok_def)
qed

lemma tasks_ok_kill:
  assumes ok: "tasks_ok R T E ks"
  shows "case kill_current ks of Inr ks' \<Rightarrow> tasks_ok R T E ks' \<and> others ks' = others ks | Inl h \<Rightarrow> h = AllTasksExited"
proof -
  obtain a where a: "sim E ks a" "a_inv R T E a" using ok by (auto simp: tasks_ok_def)
  obtain b ks' where e: "exit_current (abort_reply (current ks) ks) = (b, ks')" by fastforce
  have "if b then tasks_ok R T E ks' else stuck T ks'"
    using res_tasks [OF _ a_kill_res [OF a(2)]] sim_kill [OF a] e by simp
  moreover have "others ks' = others ks"
    using others_exit [of "abort_reply (current ks) ks"] e by (simp add: others_simps)
  ultimately show ?thesis
    by (simp add: kill_current_def Let_def e split: if_splits)
qed

text \<open>Clearing a frame that holds no control block and no endpoint, and naming one in it.\<close>

lemma tasks_ok_clear:
  assumes ok: "tasks_ok R T E ks" and T: "\<And>t. t \<in> T \<Longrightarrow> \<not> in_frame p va t" and E: "\<And>e. e \<in> E \<Longrightarrow> \<not> in_frame p va e"
    and N: "NT \<subseteq> {va}" "NE \<subseteq> {va}" "va \<noteq> 0"
  shows "tasks_ok R (T \<union> NT) (E \<union> NE) (clear_frame p va ks)"
proof -
  obtain a where a: "sim E ks a" "a_inv R T E a" using ok by (auto simp: tasks_ok_def)
  have o: "a_ok R T E {a_cur a} a" and run: "st a (a_cur a) = Running" "current_user_root (a_regs a) = sp a (a_cur a)"
    using a(2) by (simp_all add: a_inv_def)
  have q: "queues_ok T E {a_cur a} a" using o by (simp add: a_ok_def)
  define ks' where "ks' = clear_frame p va ks"
  define a' where "a' = a\<lparr>a_tcb := core (ks_tcbs ks'), a_wait := (\<lambda>e. if e \<in> E then a_wait a e else []),
    a_other := (ks_cnode ks', ks_pool ks', ks_mem ks', ks_console ks')\<rparr>"
  have in_va: "in_frame p va va" using GRANULE_bounds(1) [of p] by (simp add: in_frame_def)
  have same: "ks_tcbs ks' t = ks_tcbs ks t" if "t \<in> T" for t using T [OF that] by (simp add: ks'_def clear_frame_def)
  have new: "ks_tcbs ks' va = tcb_zeroed" "ks_eps ks' va = \<lparr>e_head = 0, e_tail = 0\<rparr>"
    using in_va by (simp_all add: ks'_def clear_frame_def)
  have eps: "ks_eps ks' e = ks_eps ks e" if "e \<in> E" for e using E [OF that] by (simp add: ks'_def clear_frame_def)
  have T0: "0 \<notin> T" "a_cur a \<in> T" using queues_okD(1,2) [OF q] by auto
  have "a_ok R (T \<union> NT) (E \<union> NE) {a_cur a} a'"
  proof (rule ok_extend [OF o])
    show "a_tcb a' t = a_tcb a t" if "t \<in> T" for t
      using same [OF that] a(1) by (simp add: a'_def sim_def core_def)
    show "st a' t = Inactive \<and> rp a' t = 0" if "t \<in> T \<union> NT" "t \<notin> T" for t
      using that N(1) new(1) by (auto simp: a'_def tcb_zeroed_def)
  qed (use N T0 in \<open>auto simp: a'_def\<close>)
  moreover have "st a' (a_cur a') = Running" "current_user_root (a_regs a') = sp a' (a_cur a')"
    using run same [OF T0(2)] a(1) by (simp_all add: a'_def sim_def)
  ultimately have "a_inv R (T \<union> NT) (E \<union> NE) a'" by (simp add: a_inv_def a'_def)
  moreover have "sim (E \<union> NE) ks' a'"
  proof -
    have lk: "links (ks_tcbs ks') t = links (ks_tcbs ks) t" if "t \<in> T" for t using same [OF that] by (simp add: links_def)
    have "q_rep (links (ks_tcbs ks')) (sc_head (ks_sched ks)) (sc_tail (ks_sched ks)) (a_ready a)"
      by (rule q_rep_cong [of "links (ks_tcbs ks)"]) (use a(1) lk queues_okD(5) [OF q] in \<open>auto simp: sim_def\<close>)
    moreover have "q_rep (links (ks_tcbs ks')) (e_head (ks_eps ks' e)) (e_tail (ks_eps ks' e)) (a_wait a' e)"
      if "e \<in> E \<union> NE" for e
    proof (cases "e \<in> E")
      case True
      have "q_rep (links (ks_tcbs ks')) (e_head (ks_eps ks e)) (e_tail (ks_eps ks e)) (a_wait a e)"
        by (rule q_rep_cong [of "links (ks_tcbs ks)"])
          (use a(1) lk queues_okD(7) [OF q True] True in \<open>auto simp: sim_def\<close>)
      then show ?thesis using True eps by (simp add: a'_def)
    next
      case False
      then show ?thesis using that N(2) new(2) by (auto simp: a'_def)
    qed
    ultimately show ?thesis
      using a(1) by (simp add: sim_def a'_def) (simp add: ks'_def clear_frame_def)
  qed
  ultimately show ?thesis
    by (auto simp: tasks_ok_def ks'_def)
qed

section \<open>Memory\<close>

lemma unat_OFFSET: "unat KERNEL_VA_OFFSET = 18446462598732840960"
  by (simp add: KERNEL_VA_OFFSET_def)

text \<open>The frame a leaf descriptor maps.\<close>

definition leaf_frame :: "platform \<Rightarrow> u64 \<Rightarrow> u64" where
  "leaf_frame p e = e AND ADDR_MASK p"

lemma leaf_frame_attrs:
  assumes "aligned (GRANULE p) b" "unat b < 281474976710656"
  shows "leaf_frame p (b OR user_attrs pm) = b"
proof -
  have "user_attrs pm AND ADDR_MASK p = 0"
    by (cases p; cases pm) (simp_all add: user_attrs_def desc_defs ADDR_MASK_def GRANULE_def)
  then show ?thesis
    using assms by (simp add: leaf_frame_def mask_address)
qed

text \<open>The frames that the address spaces map.\<close>

definition user_frames :: "platform \<Rightarrow> memory \<Rightarrow> u64 set \<Rightarrow> u64 set" where
  "user_frames p mem R = {leaf_frame p (user_leaf p mem r va) | r va. r \<in> R \<and> user_leaf p mem r va \<noteq> 0}"

lemma user_frames_cong:
  "(\<And>r va. r \<in> R \<Longrightarrow> user_leaf p mem' r va = user_leaf p mem r va) \<Longrightarrow> user_frames p mem' R = user_frames p mem R"
  unfolding user_frames_def by metis

lemma user_framesE:
  assumes "f \<in> user_frames p mem R"
  obtains r va where "r \<in> R" "user_leaf p mem r va \<noteq> 0" "f = leaf_frame p (user_leaf p mem r va)"
  using assms by (auto simp: user_frames_def)

text \<open>
  The bytes of the static root control block in the kernel image (\<open>size_of::<Tcb>()\<close> is 288 + 4 * 8), and
  all the memory that belongs to capabilities or to it.
\<close>

definition root_bytes :: "u64 \<Rightarrow> nat set" where
  "root_bytes root = span (root - KERNEL_VA_OFFSET) 320"

definition kernel_bytes :: "platform \<Rightarrow> u64 \<Rightarrow> cnode \<Rightarrow> nat set" where
  "kernel_bytes p root cn = owned_bytes (GRANULE p) cn \<union> root_bytes root"

lemma owned_kernel: "owned_bytes (GRANULE p) cn \<subseteq> kernel_bytes p root cn"
  by (simp add: kernel_bytes_def)

text \<open>
  The memory half of the invariant. Frames that user space can reach, and tables that translate for
  it, either belong to the capability that says so, or lie outside everything the capabilities own
  and outside the root control block (they come from the boot window), and no mapped frame is a table.
\<close>

definition mem_inv :: "platform \<Rightarrow> u64 \<Rightarrow> cnode \<times> pool \<times> memory \<Rightarrow> bool" where
  "mem_inv p root = (\<lambda>(cn, pl, mem).
     cap_inv (GRANULE p) cn \<and> owned_bytes (GRANULE p) cn \<subseteq> {..< 281474976710656} \<and>
     (\<exists>R. pool_inv p pl R \<and> pl_root1 pl \<in> R \<and> pool_secure p pl R \<and> pl_enabled pl) \<and>
     spaces_ok p mem (cap_roots cn) \<and> spaces_safe p mem (cap_roots cn) \<and>
     (\<forall>t \<in> tables_of p mem (cap_roots cn).
        CapPageTable t True \<in> set (cnode_slots cn) \<or> span t (GRANULE p) \<inter> kernel_bytes p root cn = {}) \<and>
     (\<forall>b. CapPageTable b False \<in> set (cnode_slots cn) \<longrightarrow> (\<forall>k < ENTRIES p. utbl_get mem b k = 0)) \<and>
     (\<forall>f \<in> user_frames p mem (cap_roots cn).
        (CapFrame f True \<in> set (cnode_slots cn) \<or> span f (GRANULE p) \<inter> kernel_bytes p root cn = {}) \<and>
        f \<notin> tables_of p mem (cap_roots cn)) \<and>
     root_bytes root \<inter> owned_bytes (GRANULE p) cn = {} \<and> KERNEL_VA_OFFSET \<le> root)"

lemma mem_invD:
  assumes "mem_inv p root (cn, pl, mem)"
  shows "cap_inv (GRANULE p) cn" "owned_bytes (GRANULE p) cn \<subseteq> {..< 281474976710656}"
    "\<exists>R. pool_inv p pl R \<and> pl_root1 pl \<in> R \<and> pool_secure p pl R \<and> pl_enabled pl"
    "spaces_ok p mem (cap_roots cn)" "spaces_safe p mem (cap_roots cn)"
    "\<And>t. t \<in> tables_of p mem (cap_roots cn) \<Longrightarrow>
        CapPageTable t True \<in> set (cnode_slots cn) \<or> span t (GRANULE p) \<inter> kernel_bytes p root cn = {}"
    "\<And>b k. CapPageTable b False \<in> set (cnode_slots cn) \<Longrightarrow> k < ENTRIES p \<Longrightarrow> utbl_get mem b k = 0"
    "\<And>f. f \<in> user_frames p mem (cap_roots cn) \<Longrightarrow>
        CapFrame f True \<in> set (cnode_slots cn) \<or> span f (GRANULE p) \<inter> kernel_bytes p root cn = {}"
    "\<And>f. f \<in> user_frames p mem (cap_roots cn) \<Longrightarrow> f \<notin> tables_of p mem (cap_roots cn)"
    "root_bytes root \<inter> owned_bytes (GRANULE p) cn = {}" "KERNEL_VA_OFFSET \<le> root"
  using assms unfolding mem_inv_def by simp_all

lemma mem_invI:
  assumes "cap_inv (GRANULE p) cn" "owned_bytes (GRANULE p) cn \<subseteq> {..< 281474976710656}"
    "\<exists>R. pool_inv p pl R \<and> pl_root1 pl \<in> R \<and> pool_secure p pl R \<and> pl_enabled pl"
    "root_bytes root \<inter> owned_bytes (GRANULE p) cn = {}" "KERNEL_VA_OFFSET \<le> root"
    "spaces_ok p mem (cap_roots cn)" "spaces_safe p mem (cap_roots cn)"
    "\<And>t. t \<in> tables_of p mem (cap_roots cn) \<Longrightarrow>
        CapPageTable t True \<in> set (cnode_slots cn) \<or> span t (GRANULE p) \<inter> kernel_bytes p root cn = {}"
    "\<And>b k. CapPageTable b False \<in> set (cnode_slots cn) \<Longrightarrow> k < ENTRIES p \<Longrightarrow> utbl_get mem b k = 0"
    "\<And>f. f \<in> user_frames p mem (cap_roots cn) \<Longrightarrow>
        CapFrame f True \<in> set (cnode_slots cn) \<or> span f (GRANULE p) \<inter> kernel_bytes p root cn = {}"
    "\<And>f. f \<in> user_frames p mem (cap_roots cn) \<Longrightarrow> f \<notin> tables_of p mem (cap_roots cn)"
  shows "mem_inv p root (cn, pl, mem)"
  using assms unfolding mem_inv_def by simp

lemma span_base: "unat b \<in> span b (GRANULE p)"
  using GRANULE_bounds(1) [of p] by simp

text \<open>An object capability, by the frame it names.\<close>

definition cap_object :: "cap \<Rightarrow> u64 option" where
  "cap_object c =
     (case c of CapFrame b _ \<Rightarrow> Some b | CapPageTable b _ \<Rightarrow> Some b | CapTcb b \<Rightarrow> Some b | CapEndpoint b \<Rightarrow> Some b | _ \<Rightarrow> None)"

lemma cap_object_bytes: "cap_object c = Some b \<Longrightarrow> cap_bytes g c = span b g"
  by (cases c) (simp_all add: cap_object_def cap_bytes_def)

lemma cap_bytes_owned: "c \<in> set (cnode_slots cn) \<Longrightarrow> cap_bytes g c \<subseteq> owned_bytes g cn"
  by (auto simp: owned_bytes_def)

lemma object_low:
  assumes inv: "cap_inv (GRANULE p) cn" "owned_bytes (GRANULE p) cn \<subseteq> {..< 281474976710656}"
    and c: "c \<in> set (cnode_slots cn)" "cap_object c = Some b"
  shows "utbl_ok p b" "unat b + unat (GRANULE p) \<le> 281474976710656" "span b (GRANULE p) \<subseteq> owned_bytes (GRANULE p) cn"
    "add_pn b KERNEL_VA_OFFSET = Inr (b + KERNEL_VA_OFFSET)" "unat (b + KERNEL_VA_OFFSET) = unat b + 18446462598732840960"
proof -
  have g: "0 < unat (GRANULE p)" using GRANULE_bounds(1) [of p] by simp
  show s: "span b (GRANULE p) \<subseteq> owned_bytes (GRANULE p) cn"
    using cap_bytes_owned [OF c(1), of "GRANULE p"] cap_object_bytes [OF c(2)] by simp
  have "unat b + unat (GRANULE p) - 1 \<in> span b (GRANULE p)" using g by auto
  then have "unat b + unat (GRANULE p) - 1 < 281474976710656" using s inv(2) by blast
  then show l: "unat b + unat (GRANULE p) \<le> 281474976710656" using g by linarith
  have "aligned (GRANULE p) b"
    using inv(1) c by (cases c) (auto simp: cap_inv_def cap_ok_def cap_object_def)
  then show "utbl_ok p b" using l g by (simp add: utbl_ok_def)
  have lt: "unat b < 281474976710656" using l g by linarith
  then show "add_pn b KERNEL_VA_OFFSET = Inr (b + KERNEL_VA_OFFSET)"
    by (intro add_pn_ok) (simp add: KERNEL_VA_OFFSET_def)
  show "unat (b + KERNEL_VA_OFFSET) = unat b + 18446462598732840960" by (rule unat_offset [OF lt])
qed

text \<open>Different capabilities own disjoint memory.\<close>

lemma caps_disjoint:
  assumes "cap_inv g cn" "c \<in> set (cnode_slots cn)" "d \<in> set (cnode_slots cn)" "c \<noteq> d"
  shows "cap_bytes g c \<inter> cap_bytes g d = {}"
proof -
  obtain i j where "i < used cn" "j < used cn" "slots cn ! i = c" "slots cn ! j = d"
    using assms(1-3) by (metis cap_inv_def in_set_conv_nth length_cnode_slots nth_cnode_slots)
  then show ?thesis using cap_inv_nth [OF assms(1), of i j] assms(4) by auto
qed

lemma object_unique:
  assumes "cap_inv (GRANULE p) cn" "c \<in> set (cnode_slots cn)" "d \<in> set (cnode_slots cn)" "cap_object c = Some b" "cap_object d = Some b"
  shows "c = d"
  using caps_disjoint [OF assms(1-3)] cap_object_bytes [OF assms(4), of "GRANULE p"] cap_object_bytes [OF assms(5), of "GRANULE p"]
    span_base [of b p] by blast

lemma object_meets_kernel:
  assumes "cap_inv (GRANULE p) cn" "owned_bytes (GRANULE p) cn \<subseteq> {..< 281474976710656}"
    "c \<in> set (cnode_slots cn)" "cap_object c = Some b"
  shows "span b (GRANULE p) \<inter> kernel_bytes p root cn \<noteq> {}"
  using object_low(3) [OF assms] span_base [of b p] owned_kernel [of p cn root] by blast

lemma spare_table_fresh:
  assumes inv: "mem_inv p root (cn, pl, mem)" and b: "CapPageTable b False \<in> set (cnode_slots cn)"
  shows "b \<notin> tables_of p mem (cap_roots cn)"
proof
  note I = mem_invD [OF inv]
  assume "b \<in> tables_of p mem (cap_roots cn)"
  from I(6) [OF this] show False
  proof
    assume t: "CapPageTable b True \<in> set (cnode_slots cn)"
    show False using caps_disjoint [OF I(1) b t] span_base [of b p] by (simp add: cap_bytes_def)
  next
    assume "span b (GRANULE p) \<inter> kernel_bytes p root cn = {}"
    moreover have "span b (GRANULE p) \<subseteq> owned_bytes (GRANULE p) cn"
      by (rule object_low(3) [OF I(1,2) b]) (simp add: cap_object_def)
    ultimately show False using span_base [of b p] using owned_kernel [of p cn root] by blast
  qed
qed

text \<open>Free memory is neither a table nor mapped.\<close>

lemma free_not_table:
  assumes inv: "mem_inv p root (cn, pl, mem)" and u: "CapUntyped b n u \<in> set (cnode_slots cn)"
    and c: "span c (GRANULE p) \<subseteq> cap_bytes (GRANULE p) (CapUntyped b n u)"
  shows "c \<notin> tables_of p mem (cap_roots cn)"
proof
  note I = mem_invD [OF inv]
  have o: "unat c \<in> cap_bytes (GRANULE p) (CapUntyped b n u)" "unat c \<in> owned_bytes (GRANULE p) cn"
    using span_base [of c p] c cap_bytes_owned [OF u, of "GRANULE p"] by blast+
  assume "c \<in> tables_of p mem (cap_roots cn)"
  from I(6) [OF this] show False
  proof
    assume t: "CapPageTable c True \<in> set (cnode_slots cn)"
    show False using caps_disjoint [OF I(1) u t] span_base [of c p] o(1) by (auto simp: cap_bytes_def)
  qed (use o(2) span_base [of c p] owned_kernel [of p cn root] in blast)
qed

section \<open>Retyping keeps the memory invariant\<close>

text \<open>Capabilities other than untyped ones stay, and the new one joins them.\<close>

lemma retype_caps:
  assumes ok: "cnode_ok cn" and i: "i < used cn" "used cn \<noteq> CNODE_SLOTS" "slots cn ! i = CapUntyped b n u"
    and cn': "cn' = cn\<lparr>slots := (slots cn)[i := CapUntyped b n u', used cn := d], used := used cn + 1\<rparr>"
    and c: "\<And>x y z. c \<noteq> CapUntyped x y z"
  shows "c \<in> set (cnode_slots cn') \<longleftrightarrow> c \<in> set (cnode_slots cn) \<or> c = d"
proof -
  note sl = retype_success_slots(2) [OF ok i(1,2) cn']
  have i': "i < length (cnode_slots cn)" "cnode_slots cn ! i = CapUntyped b n u"
    using i ok by (simp_all add: nth_cnode_slots)
  have "c \<in> set ((cnode_slots cn)[i := CapUntyped b n u']) \<longleftrightarrow> c \<in> set (cnode_slots cn)"
  proof
    assume "c \<in> set (cnode_slots cn)"
    then obtain j where "j < length (cnode_slots cn)" "cnode_slots cn ! j = c" by (auto simp: in_set_conv_nth)
    then show "c \<in> set ((cnode_slots cn)[i := CapUntyped b n u'])"
      using i' c by (metis length_list_update nth_list_update_neq nth_mem)
  qed (use c set_update_subset_insert [of "cnode_slots cn" i "CapUntyped b n u'"] in blast)
  then show ?thesis by (auto simp: sl)
qed

lemma mem_inv_retype:
  assumes inv: "mem_inv p root (cn, pl, mem)"
    and i: "i < used cn" "used cn \<noteq> CNODE_SLOTS" "slots cn ! i = CapUntyped b n u"
    and c: "carve_place b u (GRANULE p) = Some (carve, ce)" "unat b + unat n < 18446744073709551616" "ce \<le> b + n"
    and cn': "cn' = cn\<lparr>slots := (slots cn)[i := CapUntyped b n (ce - b), used cn := new_cap kind carve], used := used cn + 1\<rparr>"
    and pl': "\<exists>R. pool_inv p pl' R \<and> pl_root1 pl' \<in> R \<and> pool_secure p pl' R \<and> pl_enabled pl'"
    and ci: "cap_inv (GRANULE p) cn'" and ow: "owned_bytes (GRANULE p) cn' \<subseteq> owned_bytes (GRANULE p) cn"
  shows "mem_inv p root (cn', pl', zero_bytes (carve + KERNEL_VA_OFFSET) (GRANULE p) mem)"
proof -
  note I = mem_invD [OF inv]
  have ok: "cnode_ok cn" using I(1) by (simp add: cap_inv_def)
  note caps = retype_caps [OF ok i cn']
  have u: "CapUntyped b n u \<in> set (cnode_slots cn)"
    using i ok by (metis length_cnode_slots nth_cnode_slots nth_mem)
  have new: "cap_object (new_cap kind carve) = Some carve" by (cases kind) (simp_all add: new_cap_def cap_object_def)
  have sp: "span carve (GRANULE p) \<subseteq> cap_bytes (GRANULE p) (CapUntyped b n u)"
    using carve_bytes(2) [OF c, of kind] cap_object_bytes [OF new, of "GRANULE p"] by simp
  have low: "owned_bytes (GRANULE p) cn' \<subseteq> {..< 281474976710656}" using ow I(2) by blast
  have roots: "cap_roots cn' = cap_roots cn"
    by (auto simp: cap_roots_def caps) (cases kind; simp add: new_cap_def)+
  have nk: "new_cap kind carve \<in> set (cnode_slots cn')"
    using retype_success_slots(2) [OF ok i(1,2) cn'] by simp
  have cu: "utbl_ok p carve" by (rule object_low(1) [OF ci low nk new])
  note z = zero_fresh_frame [OF I(4) cu free_not_table [OF inv u sp]]
  have fr: "user_frames p (zero_bytes (carve + KERNEL_VA_OFFSET) (GRANULE p) mem) (cap_roots cn) = user_frames p mem (cap_roots cn)"
    by (rule user_frames_cong) (rule z(3))
  have kb: "kernel_bytes p root cn' \<subseteq> kernel_bytes p root cn" using ow by (auto simp: kernel_bytes_def)
  show ?thesis
  proof (rule mem_invI [OF ci low pl' _ I(11)], unfold roots fr)
    show "root_bytes root \<inter> owned_bytes (GRANULE p) cn' = {}" using I(10) ow by blast
    show "spaces_ok p (zero_bytes (carve + KERNEL_VA_OFFSET) (GRANULE p) mem) (cap_roots cn)" by (rule z(1))
    show "spaces_safe p (zero_bytes (carve + KERNEL_VA_OFFSET) (GRANULE p) mem) (cap_roots cn)"
      using I(5) z(3) by (simp add: spaces_safe_def)
    fix t assume "t \<in> tables_of p (zero_bytes (carve + KERNEL_VA_OFFSET) (GRANULE p) mem) (cap_roots cn)"
    then show "CapPageTable t True \<in> set (cnode_slots cn') \<or> span t (GRANULE p) \<inter> kernel_bytes p root cn' = {}"
      using I(6) [of t] z(2) kb by (auto simp: caps)
  next
    fix x k assume x: "CapPageTable x False \<in> set (cnode_slots cn')" "k < ENTRIES p"
    have "utbl_ok p x" by (rule object_low(1) [OF ci low x(1)]) (simp add: cap_object_def)
    moreover have "x \<noteq> carve \<Longrightarrow> utbl_get mem x k = 0"
      using x I(7) [of x k] by (cases kind) (auto simp: caps new_cap_def)
    ultimately show "utbl_get (zero_bytes (carve + KERNEL_VA_OFFSET) (GRANULE p) mem) x k = 0"
      using zero_frame [OF cu _ x(2)] by simp
  next
    fix f assume f: "f \<in> user_frames p mem (cap_roots cn)"
    show "CapFrame f True \<in> set (cnode_slots cn') \<or> span f (GRANULE p) \<inter> kernel_bytes p root cn' = {}"
      using I(8) [OF f] kb by (auto simp: caps)
    show "f \<notin> tables_of p (zero_bytes (carve + KERNEL_VA_OFFSET) (GRANULE p) mem) (cap_roots cn)"
      using I(9) [OF f] z(2) by simp
  qed
qed

section \<open>Mapping keeps the memory invariant\<close>

text \<open>Marking an object capability as used changes nothing it owns.\<close>

lemma slot_mark:
  assumes inv: "cap_inv (GRANULE p) cn" and i: "i < used cn" "slots cn ! i = c0"
    and c: "cap_object c0 = Some b" "cap_object c1 = Some b"
    and cn': "cn' = cn\<lparr>slots := (slots cn)[i := c1]\<rparr>"
  shows "cap_inv (GRANULE p) cn'" "owned_bytes (GRANULE p) cn' = owned_bytes (GRANULE p) cn"
    "c1 \<in> set (cnode_slots cn')" "\<And>d. d \<noteq> c0 \<Longrightarrow> d \<noteq> c1 \<Longrightarrow> d \<in> set (cnode_slots cn') \<longleftrightarrow> d \<in> set (cnode_slots cn)"
    "c0 \<in> set (cnode_slots cn)"
proof -
  have ok: "cnode_ok cn" using inv by (simp add: cap_inv_def)
  have sl: "cnode_slots cn' = (cnode_slots cn)[i := c1]" using cn' cnode_slots_update [OF i(1)] by simp
  have i': "i < length (cnode_slots cn)" "cnode_slots cn ! i = c0"
    using i ok by (simp_all add: nth_cnode_slots)
  show c0: "c0 \<in> set (cnode_slots cn)" using i' by auto
  have cb: "cap_bytes (GRANULE p) c1 = cap_bytes (GRANULE p) c0"
    using cap_object_bytes [OF c(1)] cap_object_bytes [OF c(2)] by simp
  have m: "map (cap_bytes (GRANULE p)) (cnode_slots cn') = map (cap_bytes (GRANULE p)) (cnode_slots cn)"
    unfolding sl map_update cb using i' by (metis list_update_id length_map nth_map)
  have okc: "cap_ok (GRANULE p) c1"
    using inv c0 c by (cases c0; cases c1) (auto simp: cap_inv_def cap_ok_def cap_object_def)
  show "cap_inv (GRANULE p) cn'"
    using inv m okc cn' set_update_subset_insert [of "cnode_slots cn" i c1] unfolding cap_inv_def sl by auto
  have "set (map (cap_bytes (GRANULE p)) (cnode_slots cn')) = set (map (cap_bytes (GRANULE p)) (cnode_slots cn))"
    by (simp only: m)
  then show "owned_bytes (GRANULE p) cn' = owned_bytes (GRANULE p) cn" by (simp add: owned_bytes_def)
  show "c1 \<in> set (cnode_slots cn')" unfolding sl using i'(1) by (rule set_update_memI)
  fix d assume d: "d \<noteq> c0" "d \<noteq> c1"
  show "d \<in> set (cnode_slots cn') \<longleftrightarrow> d \<in> set (cnode_slots cn)"
  proof
    assume "d \<in> set (cnode_slots cn)"
    then obtain j where "j < length (cnode_slots cn)" "cnode_slots cn ! j = d" by (auto simp: in_set_conv_nth)
    then show "d \<in> set (cnode_slots cn')"
      unfolding sl using i' d by (metis length_list_update nth_list_update_neq nth_mem)
  qed (use d set_update_subset_insert [of "cnode_slots cn" i c1] in \<open>auto simp: sl\<close>)
qed

text \<open>Writing an entry of a table leaves the spare tables cleared.\<close>

lemma spare_put:
  assumes inv: "mem_inv p root (cn, pl, mem)" and t: "t \<in> tables_of p mem (cap_roots cn)" "i < ENTRIES p"
    and x: "CapPageTable x False \<in> set (cnode_slots cn)" "k < ENTRIES p"
  shows "utbl_get (utbl_put mem t i v) x k = 0"
proof -
  note I = mem_invD [OF inv]
  have "utbl_ok p x" by (rule object_low(1) [OF I(1,2) x(1)]) (simp add: cap_object_def)
  moreover have "x \<noteq> t" using spare_table_fresh [OF inv x(1)] t(1) by blast
  ultimately show ?thesis
    using user_store.get_put [OF tables_of_ok [OF I(4) t(1)] _ t(2) x(2), of x mem v] I(7) [OF x] by auto
qed

lemma mem_inv_map_frame:
  assumes inv: "mem_inv p root (cn, pl, mem)" and i: "i < used cn" "slots cn ! i = CapFrame b False"
    and r: "vroot \<in> cap_roots cn" and run: "user_map_frame p vroot va b pm mem = Inr (Inr (), mem')"
    and cn': "cn' = cn\<lparr>slots := (slots cn)[i := CapFrame b True]\<rparr>"
  shows "mem_inv p root (cn', pl, mem')"
proof -
  note I = mem_invD [OF inv]
  have ob: "cap_object (CapFrame b False) = Some b" "cap_object (CapFrame b True) = Some b" by (simp_all add: cap_object_def)
  note sm = slot_mark [OF I(1) i ob cn']
  have roots: "cap_roots cn' = cap_roots cn" by (simp add: cap_roots_def sm(4))
  have bl: "aligned (GRANULE p) b" "unat b < 281474976710656"
    using object_low(1) [OF I(1,2) sm(5) ob(1)] by (simp_all add: utbl_ok_def)
  from I(4) r show ?thesis
  proof (cases rule: user_map_frame_cases [where va = va and pa = b and pm = pm])
    case (fail e)
    then show ?thesis using run by simp
  next
    case (mapped m)
    have m: "m = mem'" using mapped(1) run by simp
    obtain t j where t: "t \<in> tables_of p mem (cap_roots cn)" "j < ENTRIES p" "mem' = utbl_put mem t j (b OR user_attrs pm)"
      using mapped(10) m by blast
    have kb: "kernel_bytes p root cn' = kernel_bytes p root cn" by (simp add: kernel_bytes_def sm(2))
    have fr: "f = b \<or> f \<in> user_frames p mem (cap_roots cn)" if ff: "f \<in> user_frames p mem' (cap_roots cn)" for f
    proof -
      obtain r' va' where f: "r' \<in> cap_roots cn" "user_leaf p mem' r' va' \<noteq> 0" "f = leaf_frame p (user_leaf p mem' r' va')"
        using ff by (rule user_framesE)
      then show ?thesis
        using mapped(9) [OF f(1), of va'] m leaf_frame_attrs [OF bl]
        by (cases "r' = vroot \<and> page_no p va' = page_no p va") (auto simp: user_frames_def)
    qed
    have bt: "b \<notin> tables_of p mem (cap_roots cn)"
    proof
      assume "b \<in> tables_of p mem (cap_roots cn)"
      from I(6) [OF this] show False
        using object_unique [OF I(1) sm(5), of "CapPageTable b True" b] object_meets_kernel [OF I(1,2) sm(5) ob(1), of root] by (auto simp: cap_object_def)
    qed
    show ?thesis
    proof (rule mem_invI [OF sm(1) _ I(3) _ I(11)], unfold roots sm(2) kb)
      show "root_bytes root \<inter> owned_bytes (GRANULE p) cn = {}" by (rule I(10))
      show "owned_bytes (GRANULE p) cn \<subseteq> {..< 281474976710656}" by (rule I(2))
      show "spaces_ok p mem' (cap_roots cn)" using mapped(6) m by simp
      show "spaces_safe p mem' (cap_roots cn)"
        using I(5) mapped(9) m user_leaf_safe(1) by (simp add: spaces_safe_def)
      show "CapPageTable x True \<in> set (cnode_slots cn') \<or> span x (GRANULE p) \<inter> kernel_bytes p root cn = {}"
        if "x \<in> tables_of p mem' (cap_roots cn)" for x
        using I(6) [of x] that mapped(7) m sm(4) [of "CapPageTable x True"] by simp
      show "utbl_get mem' x k = 0" if "CapPageTable x False \<in> set (cnode_slots cn')" "k < ENTRIES p" for x k
        unfolding t(3) by (rule spare_put [OF inv t(1,2) _ that(2)]) (use that(1) sm(4) in simp)
      fix f assume f: "f \<in> user_frames p mem' (cap_roots cn)"
      show "CapFrame f True \<in> set (cnode_slots cn') \<or> span f (GRANULE p) \<inter> kernel_bytes p root cn = {}"
        using fr [OF f] I(8) [of f] sm(3,4) by (cases "f = b") auto
      show "f \<notin> tables_of p mem' (cap_roots cn)"
        using fr [OF f] I(9) [of f] bt mapped(7) m by auto
    qed
  qed
qed

lemma mem_inv_install:
  assumes inv: "mem_inv p root (cn, pl, mem)" and i: "i < used cn" "slots cn ! i = CapPageTable b False"
    and r: "vroot \<in> cap_roots cn" and run: "user_install_table p vroot va b mem = Inr (Inr l, mem')"
    and cn': "cn' = cn\<lparr>slots := (slots cn)[i := CapPageTable b True]\<rparr>"
  shows "mem_inv p root (cn', pl, mem')"
proof -
  note I = mem_invD [OF inv]
  have ob: "cap_object (CapPageTable b False) = Some b" "cap_object (CapPageTable b True) = Some b"
    by (simp_all add: cap_object_def)
  note sm = slot_mark [OF I(1) i ob cn']
  have roots: "cap_roots cn' = cap_roots cn" by (simp add: cap_roots_def sm(4))
  have cleared: "\<forall>k < ENTRIES p. utbl_get mem b k = 0" using I(7) [OF sm(5)] by blast
  from I(4) r object_low(1) [OF I(1,2) sm(5) ob(1)] spare_table_fresh [OF inv sm(5)] cleared show ?thesis
  proof (cases rule: user_install_table_cases [where va = va])
    case (fail e)
    then show ?thesis using run by simp
  next
    case (linked l' m)
    have m: "m = mem'" using linked(1) run by simp
    have L: "spaces_ok p mem' (cap_roots cn)" "tables_of p mem' (cap_roots cn) = insert b (tables_of p mem (cap_roots cn))"
        "\<And>r va. r \<in> cap_roots cn \<Longrightarrow> user_leaf p mem' r va = user_leaf p mem r va"
      using linked(3) m by (simp_all add: linked_def)
    obtain t j where t: "t \<in> tables_of p mem (cap_roots cn)" "j < ENTRIES p" "mem' = utbl_put mem t j (b OR DESC_TABLE)"
      using linked(3) m by (auto simp: linked_def)
    have kb: "kernel_bytes p root cn' = kernel_bytes p root cn" by (simp add: kernel_bytes_def sm(2))
    have fr: "user_frames p mem' (cap_roots cn) = user_frames p mem (cap_roots cn)" by (rule user_frames_cong) (rule L(3))
    have bf: "b \<notin> user_frames p mem (cap_roots cn)"
    proof
      assume "b \<in> user_frames p mem (cap_roots cn)"
      from I(8) [OF this] show False
        using object_unique [OF I(1) sm(5), of "CapFrame b True" b] object_meets_kernel [OF I(1,2) sm(5) ob(1), of root] by (auto simp: cap_object_def)
    qed
    show ?thesis
    proof (rule mem_invI [OF sm(1) _ I(3) _ I(11)], unfold roots sm(2) kb fr)
      show "root_bytes root \<inter> owned_bytes (GRANULE p) cn = {}" by (rule I(10))
      show "owned_bytes (GRANULE p) cn \<subseteq> {..< 281474976710656}" by (rule I(2))
      show "spaces_ok p mem' (cap_roots cn)" by (rule L(1))
      show "spaces_safe p mem' (cap_roots cn)" using I(5) L(3) by (simp add: spaces_safe_def)
      show "CapPageTable x True \<in> set (cnode_slots cn') \<or> span x (GRANULE p) \<inter> kernel_bytes p root cn = {}"
        if "x \<in> tables_of p mem' (cap_roots cn)" for x
        using I(6) [of x] that L(2) sm(3) sm(4) [of "CapPageTable x True"] by (cases "x = b") auto
      show "utbl_get mem' x k = 0" if x: "CapPageTable x False \<in> set (cnode_slots cn')" "k < ENTRIES p" for x k
      proof -
        have "CapPageTable x False \<in> set (cnode_slots cn)" using x(1) sm(4,5) by (cases "x = b") auto
        then show ?thesis unfolding t(3) by (rule spare_put [OF inv t(1,2) _ x(2)])
      qed
      fix f assume f: "f \<in> user_frames p mem (cap_roots cn)"
      show "CapFrame f True \<in> set (cnode_slots cn') \<or> span f (GRANULE p) \<inter> kernel_bytes p root cn = {}"
        using I(8) [OF f] sm(4) by simp
      show "f \<notin> tables_of p mem' (cap_roots cn)"
        using I(9) [OF f] f bf L(2) by auto
    qed
  qed
qed

section \<open>The kernel invariant\<close>

definition k_tasks :: "u64 \<Rightarrow> cnode \<Rightarrow> u64 set" where
  "k_tasks root cn = insert root (cap_tcbs cn)"

definition el0_status :: "u64 \<Rightarrow> bool" where
  "el0_status spsr \<longleftrightarrow> spsr AND 0xF = 0"

definition k_inv :: "platform \<Rightarrow> u64 \<Rightarrow> kstate \<Rightarrow> bool" where
  "k_inv p root ks \<longleftrightarrow>
     mem_inv p root (ks_cnode ks, ks_pool ks, ks_mem ks) \<and>
     (\<forall>t. el0_status (c_spsr (t_ctx (ks_tcbs ks t)))) \<and>
     tasks_ok (cap_roots (ks_cnode ks)) (k_tasks root (ks_cnode ks)) (cap_eps (ks_cnode ks)) ks"

lemma others_spsr: "others ks' = others ks \<Longrightarrow> c_spsr (t_ctx (ks_tcbs ks' t)) = c_spsr (t_ctx (ks_tcbs ks t))"
  unfolding others_def pcs_def by (drule arg_cong [where f = "\<lambda>(_, _, _, h). c_spsr (h t)"]) simp

lemma k_inv_cong:
  assumes "k_inv p root ks" "others ks' = others ks"
    "tasks_ok (cap_roots (ks_cnode ks)) (k_tasks root (ks_cnode ks)) (cap_eps (ks_cnode ks)) ks'"
  shows "k_inv p root ks'"
  using assms others_spsr [OF assms(2)] by (simp add: k_inv_def others_def)

text \<open>A change of one control block, when its saved status stays one of EL0.\<close>

lemma k_inv_upd:
  assumes "k_inv p root ks" "el0_status (c_spsr (t_ctx (f (ks_tcbs ks t))))"
    "tasks_ok (cap_roots (ks_cnode ks)) (k_tasks root (ks_cnode ks)) (cap_eps (ks_cnode ks)) (upd_tcb t f ks)"
  shows "k_inv p root (upd_tcb t f ks)"
  using assms by (simp add: k_inv_def upd_tcb_def)

lemma k_inv_reg: "k_inv p root ks \<Longrightarrow> k_inv p root (set_reg (ks_ctx ks) i v ks)"
  by (rule k_inv_cong) (auto simp: others_simps k_inv_def intro: tasks_ok_reg)

lemma k_inv_console: "k_inv p root ks \<Longrightarrow> k_inv p root (ks\<lparr>ks_console := c\<rparr>)"
  by (rule k_inv_cong) (auto simp: others_simps k_inv_def intro: tasks_ok_other)

lemma k_inv_rotate: "k_inv p root ks \<Longrightarrow> k_inv p root (rotate ks)"
  by (rule k_inv_cong) (auto simp: others_simps k_inv_def intro: tasks_ok_rotate)

lemma k_inv_kill:
  assumes "k_inv p root ks"
  shows "case kill_current ks of Inr ks' \<Rightarrow> k_inv p root ks' | Inl h \<Rightarrow> h = AllTasksExited"
proof -
  let ?R = "cap_roots (ks_cnode ks)" and ?T = "k_tasks root (ks_cnode ks)" and ?E = "cap_eps (ks_cnode ks)"
  have "tasks_ok ?R ?T ?E ks" using assms by (simp add: k_inv_def)
  note k = tasks_ok_kill [OF this]
  show ?thesis
  proof (cases "kill_current ks")
    case (Inr ks')
    then show ?thesis using k k_inv_cong [OF assms, of ks'] by simp
  qed (use k in simp)
qed

lemma cap_in_slots: "cnode_cap cn slot = Some c \<Longrightarrow> c \<in> set (cnode_slots cn)"
  by (auto simp: cnode_cap_def split: if_splits)

lemma ep_of_total:
  assumes "\<And>b. CapEndpoint b \<in> set (cnode_slots cn) \<Longrightarrow> add_pn b KERNEL_VA_OFFSET = Inr (b + KERNEL_VA_OFFSET)"
  shows "\<exists>x. ep_of slot cn = Inr x"
proof (cases "cnode_cap cn slot")
  case (Some c)
  then show ?thesis using assms cap_in_slots [OF Some] by (cases c) (simp_all add: ep_of_def)
qed (simp add: ep_of_def)

lemma k_inv_ipc:
  assumes inv: "k_inv p root ks" and f: "f \<in> {sys_send, sys_recv, sys_call, sys_reply_recv}"
  shows "case ipc_or_park (f (ks_ctx ks) ks) of Inr ks' \<Rightarrow> k_inv p root ks' | Inl h \<Rightarrow> h = AllTasksBlocked"
proof -
  let ?R = "cap_roots (ks_cnode ks)" and ?T = "k_tasks root (ks_cnode ks)" and ?E = "cap_eps (ks_cnode ks)"
  have t: "tasks_ok ?R ?T ?E ks" using inv by (simp add: k_inv_def)
  have "\<exists>x. ep_of (reg ks (ks_ctx ks) 0) (ks_cnode ks) = Inr x"
  proof -
    have m: "mem_inv p root (ks_cnode ks, ks_pool ks, ks_mem ks)" using inv by (simp add: k_inv_def others_def)
    note I = mem_invD [OF m]
    have "add_pn b KERNEL_VA_OFFSET = Inr (b + KERNEL_VA_OFFSET)" if "CapEndpoint b \<in> set (cnode_slots (ks_cnode ks))" for b
      using object_low(4) [OF I(1,2) that, of b] by (simp add: cap_object_def)
    then show ?thesis by (rule ep_of_total)
  qed
  then have "\<exists>b ks'. f (ks_ctx ks) ks = Inr (b, ks')"
    using f by (auto simp: sys_send_def sys_recv_def sys_call_def sys_reply_recv_def Let_def split: sum.splits prod.splits)
  then obtain b ks' where r: "f (ks_ctx ks) ks = Inr (b, ks')" by blast
  have "if b then tasks_ok ?R ?T ?E ks' else stuck ?T ks'" by (rule tasks_ok_ipc [OF t _ f r]) simp
  then show ?thesis
    using k_inv_cong [OF inv others_ipc [OF f r]] r by (auto simp: ipc_or_park_def split: if_splits)
qed

section \<open>The handlers that work on objects\<close>

lemma k_inv_tcb:
  assumes inv: "k_inv p root ks" and c: "cnode_cap (ks_cnode ks) slot = Some (CapTcb b)"
  shows "add_pn b KERNEL_VA_OFFSET = Inr (b + KERNEL_VA_OFFSET)" "b + KERNEL_VA_OFFSET \<in> k_tasks root (ks_cnode ks)"
proof -
  have m: "mem_inv p root (ks_cnode ks, ks_pool ks, ks_mem ks)" using inv by (simp add: k_inv_def others_def)
  note I = mem_invD [OF m]
  show "add_pn b KERNEL_VA_OFFSET = Inr (b + KERNEL_VA_OFFSET)"
    using object_low(4) [OF I(1,2) cap_in_slots [OF c], of b] by (simp add: cap_object_def)
  show "b + KERNEL_VA_OFFSET \<in> k_tasks root (ks_cnode ks)"
    using cap_in_slots [OF c] by (auto simp: k_tasks_def cap_tcbs_def)
qed

lemma k_inv_configure:
  assumes inv: "k_inv p root ks"
  shows "\<exists>c ks'. sys_tcb_configure p slot entry stack aspace ks = Inr (c, ks') \<and> k_inv p root ks' \<and> ks_ctx ks' = ks_ctx ks"
proof -
  have "k_inv p root (upd_tcb t (configured entry stack r) ks)"
    if "t \<in> k_tasks root (ks_cnode ks)" "t_state (ks_tcbs ks t) = Inactive" "r \<in> cap_roots (ks_cnode ks)" for t r
    using inv that by (intro k_inv_upd [OF inv]) (auto simp: k_inv_def configured_def el0_status_def intro: tasks_ok_configure)
  then show ?thesis
    using inv k_inv_tcb [OF inv, of slot] cap_in_slots [of "ks_cnode ks" aspace]
    by (auto simp: sys_tcb_configure_def cap_roots_def upd_tcb_def split: option.splits cap.splits)
qed

lemma enqueue_ctx [simp]: "ks_ctx (enqueue t ks) = ks_ctx ks"
  by (simp add: enqueue_def split: prod.split)

lemma k_inv_resume:
  assumes inv: "k_inv p root ks"
  shows "\<exists>c ks'. sys_tcb_resume slot ks = Inr (c, ks') \<and> k_inv p root ks' \<and> ks_ctx ks' = ks_ctx ks"
proof -
  have "k_inv p root (enqueue t ks)"
    if "t \<in> k_tasks root (ks_cnode ks)" "t_state (ks_tcbs ks t) = Stopped" for t
    using inv that by (intro k_inv_cong [OF inv]) (auto simp: others_simps k_inv_def intro: tasks_ok_resume)
  then show ?thesis
    using inv k_inv_tcb [OF inv, of slot]
    by (auto simp: sys_tcb_resume_def split: option.splits cap.splits)
qed

lemma k_inv_mark:
  assumes inv: "k_inv p root ks" and m: "mem_inv p root (cn', ks_pool ks, mem')"
    and i: "i < used (ks_cnode ks)" "slots (ks_cnode ks) ! i = c0"
    and c: "cap_object c0 = Some b" "cap_object c1 = Some b" "\<And>x. c0 \<noteq> CapTcb x \<and> c0 \<noteq> CapEndpoint x \<and> c1 \<noteq> CapTcb x \<and> c1 \<noteq> CapEndpoint x"
    and cn': "cn' = (ks_cnode ks)\<lparr>slots := (slots (ks_cnode ks))[i := c1]\<rparr>"
  shows "k_inv p root (ks\<lparr>ks_mem := mem', ks_cnode := cn'\<rparr>)"
proof -
  have "mem_inv p root (ks_cnode ks, ks_pool ks, ks_mem ks)" using inv by (simp add: k_inv_def others_def)
  note sm = slot_mark [OF mem_invD(1) [OF this] i c(1,2) cn']
  have "\<And>x. c0 \<noteq> CapAddrSpace x \<and> c1 \<noteq> CapAddrSpace x" using c(1,2) by (auto simp: cap_object_def)
  then have sets: "cap_roots cn' = cap_roots (ks_cnode ks)" "cap_tcbs cn' = cap_tcbs (ks_cnode ks)"
      "cap_eps cn' = cap_eps (ks_cnode ks)"
    using c(3) unfolding cap_roots_def cap_tcbs_def cap_eps_def by (metis sm(4))+
  have "tasks_ok (cap_roots (ks_cnode ks)) (k_tasks root (ks_cnode ks)) (cap_eps (ks_cnode ks)) (ks\<lparr>ks_mem := mem', ks_cnode := cn'\<rparr>)"
    by (rule tasks_ok_other [of _ _ _ ks]) (use inv in \<open>simp_all add: k_inv_def\<close>)
  then show ?thesis
    using m inv sets sm(2) by (simp add: k_inv_def others_def k_tasks_def)
qed

lemma mmu_err_total: "e \<noteq> BadTable \<Longrightarrow> \<exists>c. mmu_err e = Inr c \<and> c \<noteq> 0"
  by (cases e) (simp_all add: mmu_err_def err_defs)

text \<open>Every way MAP can end: an error code and nothing changed, a frame mapped, or a table installed.\<close>

lemma sys_map_cases:
  assumes m: "mem_inv p root (ks_cnode ks, ks_pool ks, ks_mem ks)"
  obtains (err) c where "sys_map p slot va pm aspace ks = Inr (c, ks)" "c \<noteq> 0"
    | (frame) r b up mem' where "cnode_cap (ks_cnode ks) aspace = Some (CapAddrSpace r)" "r \<in> cap_roots (ks_cnode ks)"
      "unat slot < used (ks_cnode ks)" "slots (ks_cnode ks) ! unat slot = CapFrame b False" "perm_of pm = Some up"
      "user_map_frame p r va b up (ks_mem ks) = Inr (Inr (), mem')"
      "sys_map p slot va pm aspace ks = Inr (0, ks\<lparr>ks_mem := mem',
         ks_cnode := (ks_cnode ks)\<lparr>slots := (slots (ks_cnode ks))[unat slot := CapFrame b True]\<rparr>\<rparr>)"
    | (table) r b l mem' where "cnode_cap (ks_cnode ks) aspace = Some (CapAddrSpace r)" "r \<in> cap_roots (ks_cnode ks)"
      "unat slot < used (ks_cnode ks)" "slots (ks_cnode ks) ! unat slot = CapPageTable b False"
      "user_install_table p r va b (ks_mem ks) = Inr (Inr l, mem')" "linked p (cap_roots (ks_cnode ks)) b (ks_mem ks) mem'"
      "sys_map p slot va pm aspace ks = Inr (0, ks\<lparr>ks_mem := mem',
         ks_cnode := (ks_cnode ks)\<lparr>slots := (slots (ks_cnode ks))[unat slot := CapPageTable b True]\<rparr>\<rparr>)"
proof -
  let ?cn = "ks_cnode ks"
  note I = mem_invD [OF m]
  show thesis
  proof (cases "(\<exists>r. cnode_cap ?cn aspace = Some (CapAddrSpace r)) \<and> unat slot < used ?cn \<and>
      ((\<exists>b. slots ?cn ! unat slot = CapFrame b False \<and> perm_of pm \<noteq> None) \<or> (\<exists>b. slots ?cn ! unat slot = CapPageTable b False))")
    case False
    then have "\<exists>c. sys_map p slot va pm aspace ks = Inr (c, ks) \<and> c \<noteq> 0"
      by (auto simp: sys_map_def cap_mut_def err_defs split: option.splits cap.splits)
    then show thesis using err by blast
  next
    case True
    then obtain r where r: "cnode_cap ?cn aspace = Some (CapAddrSpace r)" "unat slot < used ?cn" by blast
    have rr: "r \<in> cap_roots ?cn" using cap_in_slots [OF r(1)] by (simp add: cap_roots_def)
    consider (f) b up where "slots ?cn ! unat slot = CapFrame b False" "perm_of pm = Some up"
      | (t) b where "slots ?cn ! unat slot = CapPageTable b False" using True by auto
    then show thesis
    proof cases
      case f
      from I(4) rr show thesis
      proof (cases rule: user_map_frame_cases [where va = va and pa = b and pm = up])
        case (fail e)
        obtain c where "mmu_err e = Inr c" "c \<noteq> 0" using mmu_err_total [OF fail(2)] by blast
        then show thesis
          using err [of c] r f fail by (simp add: sys_map_def cap_mut_def)
      next
        case (mapped mem')
        then show thesis
          using frame [OF r(1) rr r(2) f mapped(1)] r f by (simp add: sys_map_def cap_mut_def)
      qed
    next
      case t
      have sl: "CapPageTable b False \<in> set (cnode_slots ?cn)"
        using r(2) t I(1) by (metis cap_inv_def length_cnode_slots nth_cnode_slots nth_mem)
      have ob: "cap_object (CapPageTable b False) = Some b" by (simp add: cap_object_def)
      have cleared: "\<forall>k < ENTRIES p. utbl_get (ks_mem ks) b k = 0" using I(7) [OF sl] by blast
      from I(4) rr object_low(1) [OF I(1,2) sl ob] spare_table_fresh [OF m sl] cleared show thesis
      proof (cases rule: user_install_table_cases [where va = va])
        case (fail e)
        obtain c where "mmu_err e = Inr c" "c \<noteq> 0" using mmu_err_total [OF fail(2)] by blast
        then show thesis
          using err [of c] r t fail by (simp add: sys_map_def cap_mut_def)
      next
        case (linked l mem')
        then show thesis
          using table [OF r(1) rr r(2) t linked(1) linked(3)] r t by (simp add: sys_map_def cap_mut_def)
      qed
    qed
  qed
qed

lemma k_inv_map:
  assumes inv: "k_inv p root ks"
  shows "\<exists>c ks'. sys_map p slot va pm aspace ks = Inr (c, ks') \<and> k_inv p root ks' \<and> ks_ctx ks' = ks_ctx ks"
proof -
  have m: "mem_inv p root (ks_cnode ks, ks_pool ks, ks_mem ks)" using inv by (simp add: k_inv_def)
  from m show ?thesis
  proof (cases rule: sys_map_cases [where slot = slot and va = va and pm = pm and aspace = aspace])
    case (err c)
    then show ?thesis using inv by blast
  next
    case (frame r b up mem')
    then show ?thesis
      using k_inv_mark [OF inv mem_inv_map_frame [OF m frame(3,4,2,6) refl] frame(3,4)] by (simp add: cap_object_def)
  next
    case (table r b l mem')
    then show ?thesis
      using k_inv_mark [OF inv mem_inv_install [OF m table(3,4,2,5) refl] table(3,4)] by (simp add: cap_object_def)
  qed
qed

text \<open>Preparing a frame for an object: nothing happens, or the frame is mapped and cleared.\<close>

lemma retype_prep_cases:
  assumes m: "mem_inv p root (ks_cnode ks, ks_pool ks, ks_mem ks)" and c: "span carve (GRANULE p) \<subseteq> owned_bytes (GRANULE p) (ks_cnode ks)"
  obtains (fail) "retype_prep p carve ks = Inr (False, ks)"
    | (ready) pl' where "retype_prep p carve ks = Inr (True, clear_frame p (carve + KERNEL_VA_OFFSET) (ks\<lparr>ks_pool := pl'\<rparr>))"
      "\<exists>R. pool_inv p pl' R \<and> pl_root1 pl' \<in> R \<and> pool_secure p pl' R \<and> pl_enabled pl'"
proof -
  note I = mem_invD [OF m]
  have g: "0 < unat (GRANULE p)" using GRANULE_bounds(1) [of p] by simp
  then have "unat carve + unat (GRANULE p) - 1 \<in> span carve (GRANULE p)" by auto
  then have "unat carve + unat (GRANULE p) - 1 < 281474976710656" using c I(2) by blast
  then have l: "unat carve + unat (GRANULE p) \<le> 281474976710656" using g by linarith
  have e: "add_pn carve (GRANULE p) = Inr (carve + GRANULE p)" using l by (intro add_pn_ok) linarith
  have off: "add_pn carve KERNEL_VA_OFFSET = Inr (carve + KERNEL_VA_OFFSET)"
    using l g by (intro add_pn_ok) (simp add: KERNEL_VA_OFFSET_def)
  show thesis
  proof (cases "aligned (GRANULE p) carve")
    case False
    then have "map_kernel_window p \<lparr>r_start = carve, r_end = carve + GRANULE p\<rparr> (ks_pool ks) = Inr (Inl Misaligned, ks_pool ks)"
      by (simp add: map_kernel_window_def)
    then show thesis using that(1) e by (simp add: retype_prep_def)
  next
    case True
    obtain R where R: "pool_inv p (ks_pool ks) R" "pl_root1 (ks_pool ks) \<in> R" "pool_secure p (ks_pool ks) R" "pl_enabled (ks_pool ks)"
      using I(3) by blast
    from R True l show thesis
    proof (cases rule: map_kernel_window_granule)
      case (fail err)
      then show thesis using that(1) e by (simp add: retype_prep_def)
    next
      case (mapped pl')
      then show thesis using that(2) [of pl'] e off R(2) by (auto simp: retype_prep_def)
    qed
  qed
qed

text \<open>No task and no endpoint lies in free memory.\<close>

lemma free_frame_unused:
  assumes inv: "k_inv p root ks" and u: "CapUntyped b n u \<in> set (cnode_slots (ks_cnode ks))"
    and c: "span carve (GRANULE p) \<subseteq> cap_bytes (GRANULE p) (CapUntyped b n u)"
  shows "t \<in> k_tasks root (ks_cnode ks) \<union> cap_eps (ks_cnode ks) \<Longrightarrow> \<not> in_frame p (carve + KERNEL_VA_OFFSET) t"
    "carve + KERNEL_VA_OFFSET \<noteq> 0"
proof -
  let ?cn = "ks_cnode ks"
  have m: "mem_inv p root (?cn, ks_pool ks, ks_mem ks)" using inv by (simp add: k_inv_def others_def)
  note I = mem_invD [OF m]
  have own: "span carve (GRANULE p) \<subseteq> owned_bytes (GRANULE p) ?cn" using c cap_bytes_owned [OF u] by blast
  then have "unat carve < 281474976710656" using I(2) span_base [of carve p] by blast
  then have va: "unat (carve + KERNEL_VA_OFFSET) = unat carve + 18446462598732840960" by (rule unat_offset)
  then show "carve + KERNEL_VA_OFFSET \<noteq> 0" by (metis add_is_0 unat_0 zero_neq_numeral)
  have fr: "in_frame p (carve + KERNEL_VA_OFFSET) (q + KERNEL_VA_OFFSET) \<longleftrightarrow> unat q \<in> span carve (GRANULE p)"
    if "unat q < 281474976710656" for q
    using va unat_offset [OF that] by (auto simp: in_frame_def)
  assume "t \<in> k_tasks root ?cn \<union> cap_eps ?cn"
  then consider (root) "t = root" | (obj) ob q where "ob \<in> set (cnode_slots ?cn)" "cap_object ob = Some q" "t = q + KERNEL_VA_OFFSET"
      "ob \<noteq> CapUntyped b n u"
    by (auto simp: k_tasks_def cap_tcbs_def cap_eps_def cap_object_def)
  then show "\<not> in_frame p (carve + KERNEL_VA_OFFSET) t"
  proof cases
    case root
    let ?q = "root - KERNEL_VA_OFFSET"
    have q: "unat ?q < 281474976710656" using unat_sub [OF I(11)] unat_lt_64 [of root] unat_OFFSET by linarith
    have "unat ?q \<in> root_bytes root" by (simp add: root_bytes_def)
    then have "unat ?q \<notin> span carve (GRANULE p)" using I(10) own by blast
    then show ?thesis using fr [OF q] root by simp
  next
    case obj
    have "unat q < 281474976710656" using object_low(2) [OF I(1,2) obj(1,2)] GRANULE_bounds(1) [of p] by linarith
    moreover have "unat q \<notin> span carve (GRANULE p)"
      using caps_disjoint [OF I(1) obj(1) u obj(4)] cap_object_bytes [OF obj(2), of "GRANULE p"] span_base [of q p] c by blast
    ultimately show ?thesis using fr obj(3) by simp
  qed
qed

lemma k_inv_retype_done:
  assumes inv: "k_inv p root ks"
    and run: "retype slot kind (GRANULE p) (retype_prep p) (ks_cnode ks) ks = Inr (Inr v, cn', ks1)"
  shows "k_inv p root (ks1\<lparr>ks_cnode := cn'\<rparr>) \<and> ks_ctx ks1 = ks_ctx ks"
proof -
  let ?cn = "ks_cnode ks"
  have m: "mem_inv p root (?cn, ks_pool ks, ks_mem ks)" using inv by (simp add: k_inv_def others_def)
  note I = mem_invD [OF m]
  have ok: "cnode_ok ?cn" using I(1) by (simp add: cap_inv_def)
  from run obtain b n u carve ce where r:
    "unat slot < used ?cn" "slots ?cn ! unat slot = CapUntyped b n u" "used ?cn \<noteq> CNODE_SLOTS"
    and c: "carve_place b u (GRANULE p) = Some (carve, ce)" "unat b + unat n < 18446744073709551616" "ce \<le> b + n"
    and prep: "retype_prep p carve ks = Inr (True, ks1)"
    and cn': "cn' = ?cn\<lparr>slots := (slots ?cn)[unat slot := CapUntyped b n (ce - b), used ?cn := new_cap kind carve],
              used := used ?cn + 1\<rparr>"
    by (rule retype_success)
  have u: "CapUntyped b n u \<in> set (cnode_slots ?cn)" using r ok by (metis length_cnode_slots nth_cnode_slots nth_mem)
  have new: "cap_object (new_cap kind carve) = Some carve" by (cases kind) (simp_all add: new_cap_def cap_object_def)
  have sp: "span carve (GRANULE p) \<subseteq> cap_bytes (GRANULE p) (CapUntyped b n u)"
    using carve_bytes(2) [OF c, of kind] cap_object_bytes [OF new, of "GRANULE p"] by simp
  have own: "span carve (GRANULE p) \<subseteq> owned_bytes (GRANULE p) ?cn" using sp cap_bytes_owned [OF u] by blast
  note caps = retype_caps [OF ok r(1,3,2) cn']
  let ?va = "carve + KERNEL_VA_OFFSET"
  obtain pl' where k1: "ks1 = clear_frame p ?va (ks\<lparr>ks_pool := pl'\<rparr>)"
      and pl': "\<exists>R. pool_inv p pl' R \<and> pl_root1 pl' \<in> R \<and> pool_secure p pl' R \<and> pl_enabled pl'"
    using prep by (cases rule: retype_prep_cases [OF m own]) auto
  have ci: "cap_inv (GRANULE p) cn'" by (rule retype_inv [OF I(1) run])
  have ow: "owned_bytes (GRANULE p) cn' \<subseteq> owned_bytes (GRANULE p) ?cn" by (rule retype_owned [OF I(1) run])
  have mem: "mem_inv p root (cn', ks_pool ks1, ks_mem ks1)"
    using mem_inv_retype [OF m r(1,3,2) c cn' pl' ci ow] by (simp add: k1 clear_frame_def)
  let ?NT = "if kind = ObjTcb then {?va} else {}" and ?NE = "if kind = ObjEndpoint then {?va} else {}"
  have sets: "cap_roots cn' = cap_roots ?cn" "k_tasks root cn' = k_tasks root ?cn \<union> ?NT" "cap_eps cn' = cap_eps ?cn \<union> ?NE"
    by (cases kind; auto simp: cap_roots_def k_tasks_def cap_tcbs_def cap_eps_def caps new_cap_def)+
  have "tasks_ok (cap_roots ?cn) (k_tasks root ?cn) (cap_eps ?cn) (ks\<lparr>ks_pool := pl'\<rparr>)"
    by (rule tasks_ok_other [of _ _ _ ks]) (use inv in \<open>simp_all add: k_inv_def\<close>)
  then have "tasks_ok (cap_roots ?cn) (k_tasks root ?cn \<union> ?NT) (cap_eps ?cn \<union> ?NE) ks1"
    unfolding k1 by (rule tasks_ok_clear) (use free_frame_unused [OF inv u sp] in auto)
  then have "tasks_ok (cap_roots cn') (k_tasks root cn') (cap_eps cn') (ks1\<lparr>ks_cnode := cn'\<rparr>)"
    unfolding sets by (rule tasks_ok_other) simp_all
  moreover have "el0_status (c_spsr (t_ctx (ks_tcbs ks1 t)))" for t
    using inv by (simp add: k_inv_def k1 clear_frame_def tcb_zeroed_def context_zeroed_def el0_status_def)
  ultimately show ?thesis
    using mem by (simp add: k_inv_def) (simp add: k1 clear_frame_def)
qed

lemma retype_failed:
  assumes inv: "k_inv p root ks"
    and run: "retype slot k (GRANULE p) (retype_prep p) (ks_cnode ks) ks = Inr (Inl e, cn', ks1)"
  shows "cn' = ks_cnode ks" "ks1 = ks"
proof -
  have m: "mem_inv p root (ks_cnode ks, ks_pool ks, ks_mem ks)" using inv by (simp add: k_inv_def)
  have "s' = ks" if "span carve (GRANULE p) \<subseteq> owned_bytes (GRANULE p) (ks_cnode ks)" "retype_prep p carve ks = Inr (False, s')" for carve s'
    using that(2) by (cases rule: retype_prep_cases [OF m that(1)]; auto)
  then show "ks1 = ks" by (rule retype_error_state [OF mem_invD(1) [OF m] run])
  show "cn' = ks_cnode ks" by (rule retype_error_unchanged [OF run])
qed

lemma k_inv_retype:
  assumes inv: "k_inv p root ks"
  shows "\<exists>c ks'. sys_retype p slot kind ks = Inr (c, ks') \<and> k_inv p root ks' \<and> ks_ctx ks' = ks_ctx ks"
proof (cases "kind_of kind")
  case None
  then show ?thesis using inv by (simp add: sys_retype_def)
next
  case (Some k)
  let ?cn = "ks_cnode ks"
  have m: "mem_inv p root (?cn, ks_pool ks, ks_mem ks)" using inv by (simp add: k_inv_def)
  have tot: "\<exists>ok s'. retype_prep p carve ks = Inr (ok, s')"
    if "span carve (GRANULE p) \<subseteq> owned_bytes (GRANULE p) ?cn" for carve
    by (cases rule: retype_prep_cases [OF m that]; auto)
  obtain res cn' ks1 where run: "retype slot k (GRANULE p) (retype_prep p) ?cn ks = Inr (res, cn', ks1)"
    using retype_total [where prep = "retype_prep p" and s = ks and slot = slot and kind = k, OF mem_invD(1) [OF m] tot] by blast
  show ?thesis
  proof (cases res)
    case (Inl e)
    then show ?thesis using Some run retype_failed [OF inv run [unfolded Inl]] inv by (simp add: sys_retype_def)
  next
    case (Inr v)
    then show ?thesis
      using Some run k_inv_retype_done [OF inv, of slot k v cn' ks1] by (auto simp: sys_retype_def)
  qed
qed

lemma k_inv_putc:
  assumes inv: "k_inv p root ks"
  shows "k_inv p root (snd (sys_putc slot byte ks))" "ks_ctx (snd (sys_putc slot byte ks)) = ks_ctx ks"
  using inv k_inv_console [OF inv] by (auto simp: sys_putc_def con_bytes_def split: option.splits cap.splits)

lemma k_inv_code:
  assumes "\<exists>c ks'. r = Inr (c, ks') \<and> k_inv p root ks' \<and> ks_ctx ks' = ks_ctx ks"
  shows "\<exists>ks'. with_code (ks_ctx ks) r = Inr ks' \<and> k_inv p root ks'"
  using assms k_inv_reg by (fastforce simp: with_code_def)

lemma k_inv_syscall:
  assumes inv: "k_inv p root ks"
  shows "case k0_syscall p (ks_ctx ks) ks of Inr ks' \<Rightarrow> k_inv p root ks' | Inl h \<Rightarrow> h \<in> {AllTasksExited, AllTasksBlocked}"
proof -
  have code: "case with_code (ks_ctx ks) r of Inr ks' \<Rightarrow> k_inv p root ks' | Inl h \<Rightarrow> h \<in> {AllTasksExited, AllTasksBlocked}"
    if "\<exists>c ks'. r = Inr (c, ks') \<and> k_inv p root ks' \<and> ks_ctx ks' = ks_ctx ks" for r
    using k_inv_code [OF that] by auto
  have kill: "case kill_current (con_log i ks) of Inr ks' \<Rightarrow> k_inv p root ks' | Inl h \<Rightarrow> h \<in> {AllTasksExited, AllTasksBlocked}" for i
    using k_inv_kill [OF k_inv_console [OF inv, of "ks_console ks @ [i]"]] by (auto simp: con_log_def split: sum.splits)
  have ipc: "case ipc_or_park (f (ks_ctx ks) ks) of Inr ks' \<Rightarrow> k_inv p root ks' | Inl h \<Rightarrow> h \<in> {AllTasksExited, AllTasksBlocked}"
    if "f \<in> {sys_send, sys_recv, sys_call, sys_reply_recv}" for f
    using k_inv_ipc [OF inv that] by (auto split: sum.splits)
  have putc: "\<exists>c ks'. Inr (sys_putc s b ks) = (Inr (c, ks') :: halt + (i64 \<times> kstate)) \<and> k_inv p root ks' \<and> ks_ctx ks' = ks_ctx ks" for s b
    using k_inv_putc [OF inv, of s b] by (metis prod.collapse)
  have yield: "k_inv p root (rotate (set_reg (ks_ctx ks) 0 0 ks))"
    by (rule k_inv_rotate [OF k_inv_reg [OF inv]])
  show ?thesis
    unfolding k0_syscall_def Let_def
    using code [OF putc] code [OF k_inv_retype [OF inv]] code [OF k_inv_map [OF inv]]
      code [OF k_inv_configure [OF inv]] code [OF k_inv_resume [OF inv]] kill ipc yield by simp
qed

lemma k_inv_fault:
  assumes inv: "k_inv p root ks"
  shows "case k0_fault (ks_ctx ks) esr far ks of Inr ks' \<Rightarrow> k_inv p root ks' | Inl h \<Rightarrow> h = AllTasksExited"
  unfolding k0_fault_def con_log_def by (rule k_inv_kill [OF k_inv_console [OF inv]])

section \<open>A concrete kernel state\<close>

text \<open>The state of the IPC examples also satisfies the whole invariant.\<close>

lemma demo_pool: "pool_inv Virt (ks_pool demo_ks) {0} \<and> pool_secure Virt (ks_pool demo_ks) {0}"
proof -
  let ?pl = "ks_pool demo_ks"
  have g: "pool_get ?pl = (\<lambda>_ _. 0)" by (simp add: fun_eq_iff demo_ks_def POOL_def pool_get_def)
  have w: "walk (\<lambda>_ _. 0) (pool_dest Virt (pl_addr ?pl)) r q = (if q = [] then Some r else None)" for r q
    by (cases q) (simp_all add: pool_store.dest_zero)
  have "reachable (\<lambda>_ _. 0) (pool_dest Virt (pl_addr ?pl)) (ENTRIES Virt) 3 {0} = {0}"
    unfolding reachable_def w by (auto simp: path_ok_def intro: exI [of _ "[]"])
  moreover have "unshared (\<lambda>_ _. 0) (pool_dest Virt (pl_addr ?pl)) (ENTRIES Virt) 3 {0}"
    unfolding unshared_def w by (auto split: if_splits)
  moreover have "pool_links Virt ?pl {0}"
    unfolding pool_links_def g by (simp add: w)
  moreover have "pool_placed Virt (pl_addr ?pl)"
    by (simp add: pool_placed_def demo_ks_def POOL_def POOL_LEN_def GRANULE_def PAGE_SHIFT_def dvd_eq_mod_eq_0)
  ultimately have "pool_inv Virt ?pl {0}"
    unfolding pool_inv_def g by (simp add: demo_ks_def POOL_LEN_def)
  moreover have "pool_secure Virt ?pl {0}"
    by (simp add: pool_secure_def pool_leaf_def translate_def g w leaf_secure_def split: option.split)
  ultimately show ?thesis by blast
qed

lemma demo_caps:
  "cap_roots (ks_cnode demo_ks) = {0x40000000}" "k_tasks demo_root (ks_cnode demo_ks) = {demo_root, demo_t1, demo_t2}"
  "cnode_slots (ks_cnode demo_ks) = [CapRootTcb, CapAddrSpace 0x40000000, CapConsole, CapTcb 0x40001000, CapTcb 0x40002000,
     CapEndpoint 0x40003000, CapUntyped 0x40010000 0x10000 0, CapPageTable 0x40004000 False, CapPageTable 0x40005000 False,
     CapPageTable 0x40006000 False, CapFrame 0x40007000 False]"
  "owned_bytes (GRANULE Virt) (ks_cnode demo_ks) = {0x40001000 ..< 0x40008000} \<union> {0x40010000 ..< 0x40020000}"
proof -
  show s: "cnode_slots (ks_cnode demo_ks) = [CapRootTcb, CapAddrSpace 0x40000000, CapConsole, CapTcb 0x40001000, CapTcb 0x40002000,
     CapEndpoint 0x40003000, CapUntyped 0x40010000 0x10000 0, CapPageTable 0x40004000 False, CapPageTable 0x40005000 False,
     CapPageTable 0x40006000 False, CapFrame 0x40007000 False]"
    by (simp add: demo_ks_def demo_slots)
  show "cap_roots (ks_cnode demo_ks) = {0x40000000}" by (auto simp: cap_roots_def s)
  show "k_tasks demo_root (ks_cnode demo_ks) = {demo_root, demo_t1, demo_t2}"
    by (auto simp: k_tasks_def cap_tcbs_def s demo_addrs KERNEL_VA_OFFSET_def)
  show "owned_bytes (GRANULE Virt) (ks_cnode demo_ks) = {0x40001000 ..< 0x40008000} \<union> {0x40010000 ..< 0x40020000}"
    by (auto simp: owned_bytes_def s cap_bytes_def span_def GRANULE_def)
qed

lemma demo_k_inv: "k_inv Virt demo_root demo_ks"
proof -
  have mem: "ks_mem demo_ks = (\<lambda>_. 0)" by (simp add: demo_ks_def)
  have ok: "\<forall>r \<in> {0x40000000}. utbl_ok Virt r" by (simp add: utbl_ok_def aligned_def GRANULE_def)
  note e = empty_spaces [OF ok]
  have leaf: "user_leaf Virt (\<lambda>_. 0) r va = 0" for r va
    by (simp add: user_leaf_def translate_def utbl_get_def split: option.split)
  then have fr: "user_frames Virt (\<lambda>_. 0) R = {}" for R by (auto simp: user_frames_def)
  have rb: "root_bytes demo_root = {0x40F00000 ..< 0x40F00140}"
    by (auto simp: root_bytes_def demo_root_def KERNEL_VA_OFFSET_def span_def)
  have ci: "cap_inv (GRANULE Virt) (ks_cnode demo_ks)"
    unfolding cap_inv_def demo_caps(3)
    by (auto simp: cnode_ok_def demo_ks_def demo_cnode_def CNODE_SLOTS_def cap_ok_def aligned_def GRANULE_def disj_list_def
        cap_bytes_def span_def)
  have "mem_inv Virt demo_root (ks_cnode demo_ks, ks_pool demo_ks, ks_mem demo_ks)"
    unfolding mem
  proof (rule mem_invI [OF ci], unfold demo_caps(1,4) fr e(2))
    show "\<exists>R. pool_inv Virt (ks_pool demo_ks) R \<and> pl_root1 (ks_pool demo_ks) \<in> R \<and> pool_secure Virt (ks_pool demo_ks) R \<and>
        pl_enabled (ks_pool demo_ks)"
      using demo_pool by (intro exI [of _ "{0}"]) (simp add: demo_ks_def POOL_def)
    show "spaces_ok Virt (\<lambda>_. 0) {0x40000000}" "spaces_safe Virt (\<lambda>_. 0) {0x40000000}" by (rule e(1)) (rule e(3))
    show "KERNEL_VA_OFFSET \<le> demo_root" by (simp add: demo_root_def KERNEL_VA_OFFSET_def)
    have "kernel_bytes Virt demo_root (ks_cnode demo_ks) \<inter> {0x40000000 ..< 0x40001000} = {}"
      unfolding kernel_bytes_def rb demo_caps(4) by auto
    then show "CapPageTable t True \<in> set (cnode_slots (ks_cnode demo_ks)) \<or>
        span t (GRANULE Virt) \<inter> kernel_bytes Virt demo_root (ks_cnode demo_ks) = {}" if "t \<in> {0x40000000}" for t
      using that by (auto simp: span_def GRANULE_def)
  qed (auto simp: rb demo_caps(3) utbl_get_def)
  moreover have "el0_status (c_spsr (t_ctx (ks_tcbs demo_ks t)))" for t
    by (simp add: demo_ks_def demo_tcbs_def tcb_zeroed_def context_zeroed_def el0_status_def)
  moreover have "tasks_ok {0x40000000} {demo_root, demo_t1, demo_t2} {demo_ep} demo_ks"
    using demo_sim demo_inv by (auto simp: tasks_ok_def)
  ultimately show ?thesis by (simp add: k_inv_def demo_caps(1,2) demo_eps)
qed

text \<open>
  The same state after the root task has installed its three page tables and mapped its frame,
  writable, at 0x200000.
\<close>

definition demo_at :: "bool \<Rightarrow> bool \<Rightarrow> bool \<Rightarrow> bool \<Rightarrow> memory \<Rightarrow> kstate" where
  "demo_at b1 b2 b3 b4 mem =
     demo_ks\<lparr>ks_mem := mem,
       ks_cnode := demo_cnode\<lparr>slots := [CapRootTcb, CapAddrSpace 0x40000000, CapConsole, CapTcb 0x40001000, CapTcb 0x40002000,
              CapEndpoint 0x40003000, CapUntyped 0x40010000 0x10000 0, CapPageTable 0x40004000 b1, CapPageTable 0x40005000 b2,
              CapPageTable 0x40006000 b3, CapFrame 0x40007000 b4] @ replicate 21 CapEmpty\<rparr>\<rparr>"

definition demo_mem :: memory where
  "demo_mem = (\<lambda>_. 0)(0xFFFF000040000000 := 0x40004003, 0xFFFF000040004000 := 0x40005003,
     0xFFFF000040005008 := 0x40006003, 0xFFFF000040006000 := 0x40007000 OR user_attrs RwUser)"

lemma demo_index: "index Virt 0x200000 0 = 0" "index Virt 0x200000 1 = 0" "index Virt 0x200000 2 = 1" "index Virt 0x200000 3 = 0"
  by (simp_all add: index_def PAGE_SHIFT_def BITS_PER_LEVEL_def ENTRIES_def)

lemma demo_ptr:
  "entry_ptr 0x40000000 0 = Inr 0xFFFF000040000000" "entry_ptr 0x40004000 0 = Inr 0xFFFF000040004000"
  "entry_ptr 0x40005000 1 = Inr 0xFFFF000040005008" "entry_ptr 0x40006000 0 = Inr 0xFFFF000040006000"
  by (simp_all add: entry_ptr_def KERNEL_VA_OFFSET_def add_pn_def ok_or_def checked_add_def)

lemmas demo_map_simps = sys_map_def cnode_cap_def cap_mut_def demo_at_def demo_ks_def demo_cnode_def cnode_slots_def
  user_install_table_def user_map_frame_def aligned_def GRANULE_def demo_index demo_index [simplified One_nat_def]
  demo_ptr demo_ptr [simplified One_nat_def] DESC_TABLE_def ADDR_MASK_def checked_add_def

lemma demo_maps:
  "demo_ks = demo_at False False False False (\<lambda>_. 0)"
  "sys_map Virt 7 0x200000 0 1 (demo_at False b2 b3 b4 (\<lambda>_. 0)) =
     Inr (0, demo_at True b2 b3 b4 ((\<lambda>_. 0)(0xFFFF000040000000 := 0x40004003)))"
  "sys_map Virt 8 0x200000 0 1 (demo_at b1 False b3 b4 ((\<lambda>_. 0)(0xFFFF000040000000 := 0x40004003))) =
     Inr (0, demo_at b1 True b3 b4 ((\<lambda>_. 0)(0xFFFF000040000000 := 0x40004003, 0xFFFF000040004000 := 0x40005003)))"
  "sys_map Virt 9 0x200000 0 1 (demo_at b1 b2 False b4 ((\<lambda>_. 0)(0xFFFF000040000000 := 0x40004003, 0xFFFF000040004000 := 0x40005003))) =
     Inr (0, demo_at b1 b2 True b4 ((\<lambda>_. 0)(0xFFFF000040000000 := 0x40004003, 0xFFFF000040004000 := 0x40005003, 0xFFFF000040005008 := 0x40006003)))"
  "sys_map Virt 10 0x200000 PERM_RW 1 (demo_at b1 b2 b3 False
       ((\<lambda>_. 0)(0xFFFF000040000000 := 0x40004003, 0xFFFF000040004000 := 0x40005003, 0xFFFF000040005008 := 0x40006003))) =
     Inr (0, demo_at b1 b2 b3 True demo_mem)"
  by (simp_all add: demo_map_simps demo_mem_def perm_of_def PERM_RW_def PERM_RO_def)

lemma demo_tables_inv:
  "k_inv Virt demo_root (demo_at True True True False
     ((\<lambda>_. 0)(0xFFFF000040000000 := 0x40004003, 0xFFFF000040004000 := 0x40005003, 0xFFFF000040005008 := 0x40006003)))"
proof -
  have next_inv: "k_inv Virt demo_root k'" if "k_inv Virt demo_root k" "sys_map Virt s v pm r k = Inr (0, k')" for k k' s v pm r
    using k_inv_map [OF that(1), of s v pm r] that(2) by auto
  have "k_inv Virt demo_root (demo_at False False False False (\<lambda>_. 0))" using demo_k_inv demo_maps(1) by simp
  from next_inv [OF next_inv [OF next_inv [OF this demo_maps(2)] demo_maps(3)] demo_maps(4)] show ?thesis .
qed

lemma demo_mapped_inv: "k_inv Virt demo_root (demo_at True True True True demo_mem)"
  using k_inv_map [OF demo_tables_inv, of 10 "0x200000" PERM_RW 1] demo_maps(5) [of True True True] by simp

lemma demo_leaf: "user_leaf Virt demo_mem 0x40000000 0x200000 = 0x40007000 OR user_attrs RwUser"
  by (simp add: user_leaf_def translate_def va_path_def demo_index demo_index [simplified One_nat_def] utbl_get_def utbl_slot_def utbl_dest_def demo_mem_def DESC_TABLE_def
    ADDR_MASK_def GRANULE_def KERNEL_VA_OFFSET_def)

text \<open>And the state in which the root task owes another task a reply.\<close>

lemma demo_owed_k_inv: "k_inv Virt demo_root demo_owed"
proof -
  have "ks_cnode demo_owed = ks_cnode demo_ks" "ks_pool demo_owed = ks_pool demo_ks" "ks_mem demo_owed = ks_mem demo_ks"
      "c_spsr (t_ctx (ks_tcbs demo_owed t)) = c_spsr (t_ctx (ks_tcbs demo_ks t))" for t
    by (simp_all add: demo_owed_def upd_tcb_def)
  moreover have "tasks_ok {0x40000000} {demo_root, demo_t1, demo_t2} {demo_ep} demo_owed"
    using demo_owed_sim demo_owed_inv by (auto simp: tasks_ok_def)
  ultimately show ?thesis
    using demo_k_inv by (simp add: k_inv_def demo_caps(1,2) demo_eps)
qed

end
