(* ===== verification/Trap.thy ===== *)
theory Trap
  imports KernelInv
begin

text \<open>
  Exceptions from user space: the synchronous dispatcher (\<^verbatim>\<open>usermode.rs\<close>), the interrupt dispatchers and
  the timer (\<^verbatim>\<open>irq.rs\<close>), and the machine they run on. The machine adds the timer state to the kernel
  state. Between two exceptions user code runs: it sets its registers as it likes and stores to the
  memory its address space lets it write. The reachable machine states, over all interleavings of
  user steps, system calls, faults and interrupts, satisfy the kernel invariant.
\<close>

section \<open>The machine\<close>

record machine =
  mc_ks :: kstate
  mc_ticks :: u64
  mc_timer :: "u64 option"
  mc_eoi :: "u64 list"

definition on_ks :: "(kstate \<Rightarrow> halt + kstate) \<Rightarrow> machine \<Rightarrow> halt + machine" where
  "on_ks f m = and_then (f (mc_ks m)) (\<lambda>ks. Inr (m\<lparr>mc_ks := ks\<rparr>))"

section \<open>Interrupts (irq.rs)\<close>

text \<open>
  \<open>freq\<close> is what CNTFRQ_EL0 reads, \<open>iar\<close> what the interrupt acknowledge register reads and \<open>ctl\<close> what
  CNTP_CTL_EL0 reads.
\<close>

definition timer_arm :: "u64 \<Rightarrow> machine \<Rightarrow> machine" where
  "timer_arm interval m = m\<lparr>mc_timer := Some interval\<rparr>"

definition timer_pending :: "u64 \<Rightarrow> bool" where
  "timer_pending ctl \<longleftrightarrow> ctl AND push_bit 2 1 \<noteq> 0"

definition timer_tick :: "u64 \<Rightarrow> machine \<Rightarrow> halt + machine" where
  "timer_tick freq m =
     (let old = mc_ticks m; m1 = m\<lparr>mc_ticks := old + 1\<rparr>
      in and_then (add_pn old 1) (\<lambda>n. Inr (timer_arm freq (m1\<lparr>mc_ks := con_log (Tick n) (mc_ks m1)\<rparr>))))"

definition dispatch_irq :: "platform \<Rightarrow> u64 \<Rightarrow> u64 \<Rightarrow> machine \<Rightarrow> halt + (bool \<times> machine)" where
  "dispatch_irq p freq iar m =
     (case p of
        Virt \<Rightarrow>
          (let intid = iar AND 0xFFFFFF
           in if intid = TIMER_INTID
              then and_then (timer_tick freq m) (\<lambda>m1. Inr (True, m1\<lparr>mc_eoi := mc_eoi m1 @ [iar]\<rparr>))
              else if 1020 \<le> intid \<and> intid \<le> 1023 then Inr (False, m)
              else Inl UnexpectedIrq)
      | Apple \<Rightarrow> Inl UnexpectedIrq)"

definition dispatch_fiq :: "platform \<Rightarrow> u64 \<Rightarrow> u64 \<Rightarrow> machine \<Rightarrow> halt + (bool \<times> machine)" where
  "dispatch_fiq p freq ctl m =
     (case p of
        Apple \<Rightarrow>
          if timer_pending ctl then and_then (timer_tick freq m) (\<lambda>m1. Inr (True, m1)) else Inl UnexpectedIrq
      | Virt \<Rightarrow> Inl UnexpectedIrq)"

definition irq_current :: "platform \<Rightarrow> u64 \<Rightarrow> u64 \<Rightarrow> machine \<Rightarrow> halt + machine" where
  "irq_current p freq iar m = and_then (dispatch_irq p freq iar m) (\<lambda>(_, m1). Inr m1)"

definition fiq_current :: "platform \<Rightarrow> u64 \<Rightarrow> u64 \<Rightarrow> machine \<Rightarrow> halt + machine" where
  "fiq_current p freq ctl m = and_then (dispatch_fiq p freq ctl m) (\<lambda>(_, m1). Inr m1)"

definition irq_lower :: "platform \<Rightarrow> u64 \<Rightarrow> u64 \<Rightarrow> machine \<Rightarrow> halt + machine" where
  "irq_lower p freq iar m =
     and_then (dispatch_irq p freq iar m) (\<lambda>(tick, m1).
       Inr (if tick then m1\<lparr>mc_ks := k0_preempt (mc_ks m1)\<rparr> else m1))"

definition fiq_lower :: "platform \<Rightarrow> u64 \<Rightarrow> u64 \<Rightarrow> machine \<Rightarrow> halt + machine" where
  "fiq_lower p freq ctl m =
     and_then (dispatch_fiq p freq ctl m) (\<lambda>(tick, m1).
       Inr (if tick then m1\<lparr>mc_ks := k0_preempt (mc_ks m1)\<rparr> else m1))"

section \<open>Synchronous exceptions (usermode.rs)\<close>

definition skip_insn :: "u64 \<Rightarrow> kstate \<Rightarrow> halt + kstate" where
  "skip_insn ctx ks =
     and_then (add_pn (c_elr (t_ctx (ks_tcbs ks ctx))) 4) (\<lambda>pc.
       Inr (upd_tcb ctx (\<lambda>t. t\<lparr>t_ctx := (t_ctx t)\<lparr>c_elr := pc\<rparr>\<rparr>) ks))"

definition el0_sync :: "platform \<Rightarrow> u64 \<Rightarrow> u64 \<Rightarrow> machine \<Rightarrow> halt + machine" where
  "el0_sync p esr far m =
     (let ctx = ks_ctx (mc_ks m); ec = exc_class esr
      in if ec = 0x15 then on_ks (k0_syscall p ctx) m
         else if ec = 0x01 then on_ks (skip_insn ctx) m
         else on_ks (k0_fault ctx esr far) m)"

section \<open>User execution\<close>

text \<open>
  What runs between two exceptions. The vectors save the registers of the interrupted task into its
  context; the saved program status names EL0, since that is where the exception came from. A store
  reaches memory where the installed address space maps the page writable at EL0.
\<close>

definition save_context :: "reg_context \<Rightarrow> kstate \<Rightarrow> kstate" where
  "save_context c ks = upd_tcb (ks_ctx ks) (\<lambda>t. t\<lparr>t_ctx := c\<rparr>) ks"

definition el0_store :: "platform \<Rightarrow> u64 \<Rightarrow> u64 \<Rightarrow> kstate \<Rightarrow> kstate option" where
  "el0_store p va v ks =
     (let e = user_leaf p (ks_mem ks) (current_user_root (ks_regs ks)) va
      in if va < push_bit 48 1 \<and> e \<noteq> 0 \<and> e AND push_bit 6 3 = AP_RW_ALL \<and> va mod 8 = 0
         then Some (ks\<lparr>ks_mem := (ks_mem ks)(leaf_frame p e + va mod GRANULE p + KERNEL_VA_OFFSET := v)\<rparr>)
         else None)"

inductive step :: "platform \<Rightarrow> u64 \<Rightarrow> machine \<Rightarrow> machine \<Rightarrow> bool" for p :: platform and freq :: u64 where
  run: "el0_status (c_spsr c) \<Longrightarrow> step p freq m (m\<lparr>mc_ks := save_context c (mc_ks m)\<rparr>)"
| store: "el0_store p va v (mc_ks m) = Some ks \<Longrightarrow> step p freq m (m\<lparr>mc_ks := ks\<rparr>)"
| sync: "el0_sync p esr far m = Inr m' \<Longrightarrow> step p freq m m'"
| irq: "irq_lower p freq iar m = Inr m' \<Longrightarrow> step p freq m m'"
| fiq: "fiq_lower p freq ctl m = Inr m' \<Longrightarrow> step p freq m m'"

inductive_cases step_cases: "step p freq m m'"

section \<open>The invariant of the machine\<close>

lemma k_inv_save:
  assumes inv: "k_inv p root ks" and c: "el0_status (c_spsr c)"
  shows "k_inv p root (save_context c ks)"
  unfolding save_context_def
proof (rule k_inv_upd [OF inv])
  let ?f = "\<lambda>t. t\<lparr>t_ctx := c\<rparr>"
  let ?R = "cap_roots (ks_cnode ks)" and ?T = "k_tasks root (ks_cnode ks)" and ?E = "cap_eps (ks_cnode ks)"
  have "tasks_ok ?R ?T ?E ks" using inv by (simp add: k_inv_def)
  then obtain a where a: "sim ?E ks a" "a_inv ?R ?T ?E a" by (auto simp: tasks_ok_def)
  have "a_inv ?R ?T ?E (a_upd (a_cur a) ?f a)"
    using a(2) ok_upd [of ?R ?T ?E "{a_cur a}" a "a_cur a" ?f] by (simp add: a_inv_def)
  moreover have "sim ?E (upd_tcb (ks_ctx ks) ?f ks) (a_upd (a_cur a) ?f a)"
    using sim_upd [OF a(1), of ?f "ks_ctx ks"] sim_fields(8) [OF a(1)] by simp
  ultimately show "tasks_ok ?R ?T ?E (upd_tcb (ks_ctx ks) ?f ks)" by (auto simp: tasks_ok_def)
qed (use c in simp)

lemma k_inv_skip:
  assumes inv: "k_inv p root ks"
  shows "case skip_insn (ks_ctx ks) ks of
    Inr ks' \<Rightarrow> k_inv p root ks' | Inl h \<Rightarrow> h = Panic \<and> 2 ^ 64 - 4 \<le> unat (c_elr (t_ctx (ks_tcbs ks (ks_ctx ks))))"
proof (cases "add_pn (c_elr (t_ctx (ks_tcbs ks (ks_ctx ks)))) 4")
  case (Inl h)
  then show ?thesis by (auto simp: skip_insn_def add_pn_def ok_or_def checked_add_def split: if_splits)
next
  case (Inr pc)
  let ?c = "(t_ctx (ks_tcbs ks (ks_ctx ks)))\<lparr>c_elr := pc\<rparr>"
  have "k_inv p root (save_context ?c ks)" by (rule k_inv_save [OF inv]) (use inv in \<open>simp add: k_inv_def\<close>)
  then show ?thesis using Inr by (simp add: skip_insn_def save_context_def upd_tcb_def)
qed

text \<open>The running task, and the address space it runs in, which a capability names.\<close>

lemma k_inv_running:
  assumes "k_inv p root ks"
  shows "current ks = ks_ctx ks" "ks_ctx ks \<in> k_tasks root (ks_cnode ks)" "t_state (ks_tcbs ks (ks_ctx ks)) = Running"
    "current_user_root (ks_regs ks) = t_ttbr0_pa (ks_tcbs ks (ks_ctx ks))"
    "current_user_root (ks_regs ks) \<in> cap_roots (ks_cnode ks)"
proof -
  let ?R = "cap_roots (ks_cnode ks)" and ?T = "k_tasks root (ks_cnode ks)" and ?E = "cap_eps (ks_cnode ks)"
  have t: "tasks_ok ?R ?T ?E ks" using assms by (simp add: k_inv_def)
  then show "current ks = ks_ctx ks" "ks_ctx ks \<in> ?T" "t_state (ks_tcbs ks (ks_ctx ks)) = Running"
    by (auto dest: tasks_ok_ctx)
  from t obtain a where a: "sim ?E ks a" "a_inv ?R ?T ?E a" by (auto simp: tasks_ok_def)
  then show "current_user_root (ks_regs ks) = t_ttbr0_pa (ks_tcbs ks (ks_ctx ks))"
    using sim_fields(5,7,8) [OF a(1)] by (simp add: a_inv_def)
  show "current_user_root (ks_regs ks) \<in> ?R"
    using a(2) ok_free(2) [of ?R ?T ?E "{a_cur a}" a "a_cur a"] sim_fields(7) [OF a(1)]
    by (auto simp: a_inv_def a_ok_def roots_ok_def)
qed

lemma k_inv_running_only:
  assumes inv: "k_inv p root ks" and t: "t \<in> k_tasks root (ks_cnode ks)" "t_state (ks_tcbs ks t) = Running"
  shows "t = ks_ctx ks"
proof -
  let ?R = "cap_roots (ks_cnode ks)" and ?T = "k_tasks root (ks_cnode ks)" and ?E = "cap_eps (ks_cnode ks)"
  obtain a where a: "sim ?E ks a" "a_inv ?R ?T ?E a" using inv by (auto simp: k_inv_def tasks_ok_def)
  then show ?thesis
    using t sim_fields(2,8) [OF a(1)] by (auto simp: a_inv_def a_ok_def queues_ok_def)
qed

lemma user_framesI: "r \<in> R \<Longrightarrow> user_leaf p mem r va = e \<Longrightarrow> e \<noteq> 0 \<Longrightarrow> leaf_frame p e \<in> user_frames p mem R"
  by (auto simp: user_frames_def)

lemma user_leaf_page: "page_no p va = page_no p va' \<Longrightarrow> user_leaf p mem r va = user_leaf p mem r va'"
  using indices_page_no [of p va va'] by (simp add: user_leaf_def)

lemma frames_disjoint:
  assumes "utbl_ok p s" "utbl_ok p t" "s \<noteq> t"
  shows "span s (GRANULE p) \<inter> span t (GRANULE p) = {}"
proof (rule ccontr)
  let ?g = "unat (GRANULE p)"
  assume "span s (GRANULE p) \<inter> span t (GRANULE p) \<noteq> {}"
  then obtain x where "x \<in> span s (GRANULE p)" "x \<in> span t (GRANULE p)" by blast
  then have "unat s \<le> x" "x < unat s + ?g" "unat t \<le> x" "x < unat t + ?g" by (simp_all add: span_def)
  moreover have d: "?g dvd unat s" "?g dvd unat t" using assms(1,2) by (simp_all add: utbl_ok_def aligned_dvd)
  ultimately have "x div ?g = unat s div ?g" "x div ?g = unat t div ?g"
    by (auto simp: div_nat_eqI elim!: dvdE intro!: div_nat_eqI)
  then have "unat s = unat t" using d by (metis dvd_div_mult_self)
  then show False using assms(3) by (simp add: u64_eq_iff)
qed

text \<open>A store by user code hits no table entry and no cleared table.\<close>

lemma leaf_frame_ok: "utbl_ok p (leaf_frame p e)"
proof -
  have "unat (take_bit 48 e) < 281474976710656" by (simp add: unat_take_bit_64)
  then show ?thesis
    using align_down_le [of "PAGE_SHIFT p" "take_bit 48 e"] by (simp add: utbl_ok_def leaf_frame_def ADDR_MASK_alt)
qed

lemma k_inv_store:
  assumes inv: "k_inv p root ks" and run: "el0_store p va v ks = Some ks'"
  shows "k_inv p root ks' \<and> (\<forall>r \<in> cap_roots (ks_cnode ks). \<forall>x. user_leaf p (ks_mem ks') r x = user_leaf p (ks_mem ks) r x)"
proof -
  let ?cn = "ks_cnode ks" and ?R = "cap_roots (ks_cnode ks)"
  have m: "mem_inv p root (?cn, ks_pool ks, ks_mem ks)" using inv by (simp add: k_inv_def)
  note I = mem_invD [OF m]
  let ?r = "current_user_root (ks_regs ks)"
  let ?e = "user_leaf p (ks_mem ks) ?r va"
  define f where "f = leaf_frame p ?e"
  define mem' where "mem' = (ks_mem ks)(f + va mod GRANULE p + KERNEL_VA_OFFSET := v)"
  have e: "?e \<noteq> 0" "ks' = ks\<lparr>ks_mem := mem'\<rparr>"
    using run by (auto simp: el0_store_def Let_def mem'_def f_def split: if_splits)
  have "?r \<in> ?R" by (rule k_inv_running(5) [OF inv])
  then have f: "f \<in> user_frames p (ks_mem ks) ?R" using e(1) by (auto simp: f_def user_frames_def)
  have off: "va mod GRANULE p < GRANULE p"
    using GRANULE_bounds(1) [of p] by (simp add: word_order_unat unat_mod)
  have keep: "utbl_get mem' t i = utbl_get (ks_mem ks) t i" if "utbl_ok p t" "t \<noteq> f" "i < ENTRIES p" for t i
    using word_in_frame [OF leaf_frame_ok that(1) _ that(3) off, of ?e] that(2) by (simp add: utbl_get_def mem'_def f_def)
  have kt: "utbl_get mem' t i = utbl_get (ks_mem ks) t i" if "t \<in> tables_of p (ks_mem ks) ?R" "i < ENTRIES p" for t i
    using keep [OF tables_of_ok [OF I(4) that(1)] _ that(2)] I(9) [OF f] that(1) by auto
  have L: "user_leaf p mem' r x = user_leaf p (ks_mem ks) r x" if "r \<in> ?R" for r x
    by (rule spaces_cong(3) [OF I(4) _ that]) (rule kt)
  have T: "tables_of p mem' ?R = tables_of p (ks_mem ks) ?R" by (rule spaces_cong(2) [OF I(4)]) (rule kt)
  have F: "user_frames p mem' ?R = user_frames p (ks_mem ks) ?R" by (rule user_frames_cong) (rule L)
  have "mem_inv p root (?cn, ks_pool ks, mem')"
  proof (rule mem_invI [OF I(1-3,10,11)], unfold T F)
    show "spaces_ok p mem' ?R" by (rule spaces_cong(1) [OF I(4)]) (rule kt)
    show "spaces_safe p mem' ?R" using I(5) L by (simp add: spaces_safe_def)
    show "utbl_get mem' b k = 0" if b: "CapPageTable b False \<in> set (cnode_slots ?cn)" "k < ENTRIES p" for b k
    proof -
      have ob: "cap_object (CapPageTable b False) = Some b" by (simp add: cap_object_def)
      have "b \<noteq> f"
        using I(8) [OF f] object_unique [OF I(1) b(1), of "CapFrame b True" b] object_meets_kernel [OF I(1,2) b(1) ob, of root]
        by (auto simp: cap_object_def)
      then show ?thesis using keep [OF object_low(1) [OF I(1,2) b(1) ob] _ b(2)] I(7) [OF b] by simp
    qed
  qed (use I(6,8,9) in blast)+
  moreover have "tasks_ok ?R (k_tasks root ?cn) (cap_eps ?cn) ks'"
    by (rule tasks_ok_other [of _ _ _ ks]) (use inv e(2) in \<open>simp_all add: k_inv_def\<close>)
  ultimately show ?thesis using inv L by (simp add: k_inv_def e(2))
qed

text \<open>Traps: what each dispatcher does to a machine whose kernel state satisfies the invariant.\<close>

definition fail_secure :: "halt \<Rightarrow> bool" where
  "fail_secure h \<longleftrightarrow> h \<in> {AllTasksExited, AllTasksBlocked, UnexpectedIrq}"

definition m_inv :: "platform \<Rightarrow> u64 \<Rightarrow> machine \<Rightarrow> bool" where
  "m_inv p root m \<longleftrightarrow> k_inv p root (mc_ks m)"

lemma sync_ok:
  assumes inv: "m_inv p root m"
  shows "case el0_sync p esr far m of
      Inr m' \<Rightarrow> m_inv p root m' \<and> mc_ticks m' = mc_ticks m
    | Inl h \<Rightarrow> fail_secure h \<or> h = Panic \<and> exc_class esr = 1 \<and> 2 ^ 64 - 4 \<le> unat (c_elr (t_ctx (ks_tcbs (mc_ks m) (ks_ctx (mc_ks m)))))"
proof -
  have k: "k_inv p root (mc_ks m)" using inv by (simp add: m_inv_def)
  consider "exc_class esr = 0x15" | "exc_class esr = 1" | "exc_class esr \<noteq> 0x15" "exc_class esr \<noteq> 1" by blast
  then show ?thesis
  proof cases
    case 1
    then show ?thesis
      using k_inv_syscall [OF k] by (auto simp: el0_sync_def Let_def on_ks_def m_inv_def fail_secure_def split: sum.splits)
  next
    case 2
    then show ?thesis
      using k_inv_skip [OF k] by (auto simp: el0_sync_def Let_def on_ks_def m_inv_def fail_secure_def split: sum.splits)
  next
    case 3
    then show ?thesis
      using k_inv_fault [OF k, of esr far]
      by (auto simp: el0_sync_def Let_def on_ks_def m_inv_def fail_secure_def split: sum.splits)
  qed
qed

lemma tick_ok:
  assumes inv: "m_inv p root m"
  shows "case timer_tick freq m of
      Inr m' \<Rightarrow> m_inv p root m' \<and> mc_ticks m' = mc_ticks m + 1 \<and> mc_timer m' = Some freq \<and> mc_eoi m' = mc_eoi m
    | Inl h \<Rightarrow> h = Panic \<and> mc_ticks m = 0xFFFFFFFFFFFFFFFF"
proof (cases "unat (mc_ticks m) + 1 < 18446744073709551616")
  case True
  then have "add_pn (mc_ticks m) 1 = Inr (mc_ticks m + 1)" by (intro add_pn_ok) simp
  then show ?thesis
    using inv k_inv_console [of p root "mc_ks m"] by (simp add: timer_tick_def Let_def timer_arm_def m_inv_def con_log_def)
next
  case False
  then have "unat (mc_ticks m) = 18446744073709551615" using unat_lt_64 [of "mc_ticks m"] by linarith
  then have "mc_ticks m = 0xFFFFFFFFFFFFFFFF" by (simp add: u64_eq_iff)
  then show ?thesis by (simp add: timer_tick_def add_pn_def ok_or_def checked_add_def Let_def)
qed

lemma irq_ok:
  assumes inv: "m_inv p root m"
  shows "case irq_lower p freq iar m of Inr m' \<Rightarrow> m_inv p root m' | Inl h \<Rightarrow> fail_secure h \<or> h = Panic \<and> mc_ticks m = 0xFFFFFFFFFFFFFFFF"
  using inv tick_ok [OF inv, of freq] k_inv_rotate
  by (cases p) (auto simp: irq_lower_def dispatch_irq_def Let_def fail_secure_def m_inv_def k0_preempt_def split: sum.splits)

lemma fiq_ok:
  assumes inv: "m_inv p root m"
  shows "case fiq_lower p freq ctl m of Inr m' \<Rightarrow> m_inv p root m' | Inl h \<Rightarrow> fail_secure h \<or> h = Panic \<and> mc_ticks m = 0xFFFFFFFFFFFFFFFF"
  using inv tick_ok [OF inv, of freq] k_inv_rotate
  by (cases p) (auto simp: fiq_lower_def dispatch_fiq_def Let_def fail_secure_def m_inv_def k0_preempt_def split: sum.splits)

lemma step_inv: "step p freq m m' \<Longrightarrow> m_inv p root m \<Longrightarrow> m_inv p root m'"
proof (induction rule: step.induct)
  case (run c m)
  then show ?case by (simp add: m_inv_def k_inv_save)
next
  case (store va v m ks)
  then show ?case using k_inv_store by (auto simp: m_inv_def)
next
  case (sync esr far m m')
  then show ?case using sync_ok [of p root m esr far] by simp
next
  case (irq iar m m')
  then show ?case using irq_ok [of p root m freq iar] by simp
next
  case (fiq ctl m m')
  then show ?case using fiq_ok [of p root m freq ctl] by simp
qed

lemma steps_inv: "(step p freq)\<^sup>*\<^sup>* m m' \<Longrightarrow> m_inv p root m \<Longrightarrow> m_inv p root m'"
  by (induction rule: rtranclp_induct) (auto intro: step_inv)

definition demo_m :: "bool \<Rightarrow> machine" where
  "demo_m b = \<lparr>mc_ks = (if b then demo_at True True True True demo_mem else demo_ks), mc_ticks = 0, mc_timer = None, mc_eoi = []\<rparr>"

lemma demo_m_inv: "m_inv Virt demo_root (demo_m b)"
  using demo_k_inv demo_mapped_inv by (simp add: m_inv_def demo_m_def)

section \<open>Properties\<close>

text \<open>
  C1. No reachable state can bring the kernel down. From a machine state that satisfies the
  invariant, whatever user code does and in whatever order system calls, faults and interrupts arrive,
  the invariant holds; and whatever exception comes next, the kernel handles it or parks the core for
  one of three documented reasons (all tasks exited, all tasks blocked, an interrupt that cannot be).
  It never finds a corrupt page table, and it panics only on the tick that overflows the 64-bit tick
  counter, or on a WFI that was fetched from the last word of the address space.
\<close>

theorem reachable_safe:
  assumes "m_inv p root m" "(step p freq)\<^sup>*\<^sup>* m m'"
  shows "m_inv p root m' \<and>
    (\<forall>esr far h. el0_sync p esr far m' = Inl h \<longrightarrow>
       fail_secure h \<or> exc_class esr = 1 \<and> 2 ^ 64 - 4 \<le> unat (c_elr (t_ctx (ks_tcbs (mc_ks m') (ks_ctx (mc_ks m')))))) \<and>
    (\<forall>iar h. irq_lower p freq iar m' = Inl h \<longrightarrow> fail_secure h \<or> mc_ticks m' = 0xFFFFFFFFFFFFFFFF) \<and>
    (\<forall>ctl h. fiq_lower p freq ctl m' = Inl h \<longrightarrow> fail_secure h \<or> mc_ticks m' = 0xFFFFFFFFFFFFFFFF)"
proof -
  have inv: "m_inv p root m'" by (rule steps_inv [OF assms(2,1)])
  show ?thesis
    using inv sync_ok [OF inv] irq_ok [OF inv, of freq] fiq_ok [OF inv, of freq] by (fastforce split: sum.splits)
qed

theorem reachable_safe_witness:
  "\<exists>m'. (step Virt 62500000)\<^sup>*\<^sup>* (demo_m False) m' \<and> m_inv Virt demo_root m' \<and>
     c_elr (t_ctx (ks_tcbs (mc_ks m') demo_root)) = 0x200000"
proof -
  let ?m = "(demo_m False)\<lparr>mc_ks := save_context (context_zeroed\<lparr>c_elr := 0x200000\<rparr>) (mc_ks (demo_m False))\<rparr>"
  have "step Virt 62500000 (demo_m False) ?m" by (rule step.run) (simp add: context_zeroed_def el0_status_def)
  then have s: "(step Virt 62500000)\<^sup>*\<^sup>* (demo_m False) ?m" by simp
  show ?thesis
    using s reachable_safe [OF demo_m_inv s]
    by (intro exI [of _ ?m]) (simp add: demo_m_def save_context_def upd_tcb_def demo_fields)
qed

text \<open>
  C2. User memory is isolated from the kernel. In every reachable state, a frame that some address
  space maps overlaps no other capability's memory (so no control block, endpoint, page table or free
  memory), not the static root control block, and no page table in use by any address space.
\<close>

theorem memory_isolation:
  assumes "m_inv p root m" "(step p freq)\<^sup>*\<^sup>* m m'"
    and "f \<in> user_frames p (ks_mem (mc_ks m')) (cap_roots (ks_cnode (mc_ks m')))"
  shows "(\<forall>c \<in> set (cnode_slots (ks_cnode (mc_ks m'))). c \<noteq> CapFrame f True \<longrightarrow> cap_bytes (GRANULE p) c \<inter> span f (GRANULE p) = {}) \<and>
    root_bytes root \<inter> span f (GRANULE p) = {} \<and>
    (\<forall>t \<in> tables_of p (ks_mem (mc_ks m')) (cap_roots (ks_cnode (mc_ks m'))). span t (GRANULE p) \<inter> span f (GRANULE p) = {})"
proof -
  let ?cn = "ks_cnode (mc_ks m')"
  have "m_inv p root m'" by (rule steps_inv [OF assms(2,1)])
  then have m: "mem_inv p root (?cn, ks_pool (mc_ks m'), ks_mem (mc_ks m'))" by (simp add: m_inv_def k_inv_def)
  note I = mem_invD [OF m]
  have fb: "cap_bytes (GRANULE p) (CapFrame f True) = span f (GRANULE p)" by (simp add: cap_bytes_def)
  have "utbl_ok p f" using assms(3) leaf_frame_ok by (auto simp: user_frames_def)
  then have tb: "\<forall>t \<in> tables_of p (ks_mem (mc_ks m')) (cap_roots ?cn). span t (GRANULE p) \<inter> span f (GRANULE p) = {}"
    using frames_disjoint [OF tables_of_ok [OF I(4)]] I(9) [OF assms(3)] by metis
  from I(8) [OF assms(3)] show ?thesis
  proof
    assume f: "CapFrame f True \<in> set (cnode_slots ?cn)"
    then have "span f (GRANULE p) \<subseteq> owned_bytes (GRANULE p) ?cn" using cap_bytes_owned fb by metis
    then show ?thesis
      using caps_disjoint [OF I(1) _ f] tb I(10) unfolding fb by blast
  next
    assume "span f (GRANULE p) \<inter> kernel_bytes p root ?cn = {}"
    then show ?thesis
      using tb cap_bytes_owned [of _ ?cn "GRANULE p"] unfolding kernel_bytes_def by blast
  qed
qed

theorem memory_isolation_witness:
  "root_bytes demo_root \<inter> span 0x40007000 (GRANULE Virt) = {} \<and>
   0x40007000 \<in> user_frames Virt (ks_mem (mc_ks (demo_m True))) (cap_roots (ks_cnode (mc_ks (demo_m True))))"
proof -
  have "leaf_frame Virt (0x40007000 OR user_attrs RwUser) = 0x40007000"
    by (rule leaf_frame_attrs) (simp_all add: aligned_def GRANULE_def)
  moreover have "0x40000000 \<in> cap_roots (ks_cnode (mc_ks (demo_m True)))"
    by (simp add: demo_m_def demo_at_def cap_roots_def cnode_slots_def demo_cnode_def)
  ultimately have f: "0x40007000 \<in> user_frames Virt (ks_mem (mc_ks (demo_m True))) (cap_roots (ks_cnode (mc_ks (demo_m True))))"
    using user_framesI [OF _ demo_leaf user_leaf_safe(2)] by (simp add: demo_m_def demo_at_def)
  show ?thesis using memory_isolation [OF demo_m_inv rtranclp.rtrancl_refl f] f by blast
qed



text \<open>
  C14. The running task is confined to EL0 and to its own address space. In every reachable state
  the saved context is the current task's, that task is the only running one, the installed user
  translation table is its own and one that an address space capability names; and no context, if it
  is ever restored, returns to a privileged exception level.
\<close>

theorem task_confined:
  assumes "m_inv p root m" "(step p freq)\<^sup>*\<^sup>* m m'"
  shows "let ks = mc_ks m' in
    current ks = ks_ctx ks \<and> ks_ctx ks \<in> k_tasks root (ks_cnode ks) \<and>
    (\<forall>t \<in> k_tasks root (ks_cnode ks). t_state (ks_tcbs ks t) = Running \<longleftrightarrow> t = ks_ctx ks) \<and>
    current_user_root (ks_regs ks) = t_ttbr0_pa (ks_tcbs ks (ks_ctx ks)) \<and>
    current_user_root (ks_regs ks) \<in> cap_roots (ks_cnode ks) \<and>
    (\<forall>t. el0_status (c_spsr (t_ctx (ks_tcbs ks t))))"
proof -
  have k: "k_inv p root (mc_ks m')" using steps_inv [OF assms(2,1)] by (simp add: m_inv_def)
  have "\<forall>t. el0_status (c_spsr (t_ctx (ks_tcbs (mc_ks m') t)))" using k by (simp add: k_inv_def)
  moreover have "\<forall>t \<in> k_tasks root (ks_cnode (mc_ks m')). t_state (ks_tcbs (mc_ks m') t) = Running \<longleftrightarrow> t = ks_ctx (mc_ks m')"
    using k_inv_running(3) [OF k] k_inv_running_only [OF k] by blast
  ultimately show ?thesis
    unfolding Let_def using k_inv_running [OF k] by (intro conjI)
qed

theorem task_confined_witness:
  "current_user_root (ks_regs (mc_ks (demo_m False))) \<in> cap_roots (ks_cnode (mc_ks (demo_m False))) \<and>
   ks_ctx (mc_ks (demo_m False)) = demo_root"
  using task_confined [OF demo_m_inv [of False] rtranclp.rtrancl_refl] by (auto simp: Let_def demo_m_def demo_fields)

text \<open>
  C21. What a timer interrupt does on the virt board. If it is the timer's, it is counted, logged
  and completed with the value that acknowledged it, the timer is armed again, and the processor
  passes to the task at the head of the ready queue if there is one; a spurious interrupt changes
  nothing.
\<close>

theorem timer_interrupt:
  assumes "m_inv Virt root m" "mc_ticks m \<noteq> 0xFFFFFFFFFFFFFFFF"
  shows "(iar AND 0xFFFFFF = TIMER_INTID \<longrightarrow>
      (\<exists>m'. irq_lower Virt freq iar m = Inr m' \<and> m_inv Virt root m' \<and> unat (mc_ticks m') = unat (mc_ticks m) + 1 \<and>
        mc_timer m' = Some freq \<and> mc_eoi m' = mc_eoi m @ [iar] \<and>
        ks_console (mc_ks m') = ks_console (mc_ks m) @ [Tick (mc_ticks m + 1)] \<and>
        current (mc_ks m') = (if sc_head (ks_sched (mc_ks m)) = 0 then current (mc_ks m) else sc_head (ks_sched (mc_ks m))))) \<and>
    (1020 \<le> iar AND 0xFFFFFF \<and> iar AND 0xFFFFFF \<le> 1023 \<longrightarrow> irq_lower Virt freq iar m = Inr m)"
proof -
  have "unat (mc_ticks m) \<noteq> 18446744073709551615" using assms(2) by (simp add: u64_eq_iff)
  then have u: "unat (mc_ticks m) + 1 < 18446744073709551616" using unat_lt_64 [of "mc_ticks m"] by linarith
  then have a: "add_pn (mc_ticks m) 1 = Inr (mc_ticks m + 1)" "unat (mc_ticks m + 1) = unat (mc_ticks m) + 1"
    by (simp_all add: add_pn_ok unat_add_64)
  have r: "ks_console (rotate ks) = ks_console ks"
      "current (rotate ks) = (if sc_head (ks_sched ks) = 0 then current ks else sc_head (ks_sched ks))" for ks
    by (auto simp: rotate_def sched_pop_def switch_to_def enqueue_def current_def Let_def split: prod.split)
  show ?thesis
    using irq_ok [OF assms(1), of freq iar] a r
    by (auto simp: irq_lower_def dispatch_irq_def timer_tick_def timer_arm_def k0_preempt_def con_log_def current_def Let_def TIMER_INTID_def)
qed

theorem timer_interrupt_witness:
  "\<exists>m'. irq_lower Virt 62500000 30 (demo_m False) = Inr m' \<and> current (mc_ks m') = demo_t1 \<and> mc_ticks m' = 1"
proof -
  have "(30 :: u64) AND 0xFFFFFF = TIMER_INTID" "mc_ticks (demo_m False) \<noteq> 0xFFFFFFFFFFFFFFFF"
    by (simp_all add: TIMER_INTID_def demo_m_def)
  moreover have "sc_head (ks_sched (mc_ks (demo_m False))) = demo_t1" "demo_t1 \<noteq> 0" "unat (mc_ticks (demo_m False)) = 0"
    by (simp_all add: demo_m_def demo_ks_def demo_addrs)
  ultimately show ?thesis
    using timer_interrupt [OF demo_m_inv [of False], where iar = 30 and freq = 62500000] by (auto simp: u64_eq_iff)
qed

end
