(* ===== verification/KernelProps.thy ===== *)
theory KernelProps
  imports Trap
begin

text \<open>
  What the system call handlers do on every branch: retyping hands out cleared memory and changes
  nothing when it fails, mapping changes one page of one address space and never makes it executable,
  ending a task wakes the caller it owes a reply, and output is confined to holders of the console
  capability.
\<close>

section \<open>Retyping\<close>

lemma retype_object:
  assumes inv: "k_inv p root ks"
    and run: "retype slot kind (GRANULE p) (retype_prep p) (ks_cnode ks) ks = Inr (Inr v, cn', ks1)"
  shows "\<exists>b n u carve. cnode_cap (ks_cnode ks) slot = Some (CapUntyped b n u) \<and> v = of_nat (used (ks_cnode ks)) \<and>
    cnode_cap cn' v = Some (new_cap kind carve) \<and> span carve (GRANULE p) \<subseteq> cap_bytes (GRANULE p) (CapUntyped b n u) \<and>
    (\<exists>pl. ks1 = clear_frame p (carve + KERNEL_VA_OFFSET) (ks\<lparr>ks_pool := pl\<rparr>))"
proof -
  let ?cn = "ks_cnode ks"
  have m: "mem_inv p root (?cn, ks_pool ks, ks_mem ks)" using inv by (simp add: k_inv_def)
  have ok: "cnode_ok ?cn" using mem_invD(1) [OF m] by (simp add: cap_inv_def)
  from run obtain b n u carve ce where r:
    "unat slot < used ?cn" "slots ?cn ! unat slot = CapUntyped b n u" "used ?cn \<noteq> CNODE_SLOTS"
    and c: "carve_place b u (GRANULE p) = Some (carve, ce)" "unat b + unat n < 18446744073709551616" "ce \<le> b + n"
    and prep: "retype_prep p carve ks = Inr (True, ks1)" "v = of_nat (used ?cn)"
    and cn': "cn' = ?cn\<lparr>slots := (slots ?cn)[unat slot := CapUntyped b n (ce - b), used ?cn := new_cap kind carve],
              used := used ?cn + 1\<rparr>"
    by (rule retype_success)
  have slot: "cnode_cap ?cn slot = Some (CapUntyped b n u)"
    using r ok by (simp add: cnode_cap_def nth_cnode_slots)
  have new: "cap_object (new_cap kind carve) = Some carve" by (cases kind) (simp_all add: new_cap_def cap_object_def)
  have sp: "span carve (GRANULE p) \<subseteq> cap_bytes (GRANULE p) (CapUntyped b n u)"
    using carve_bytes(2) [OF c, of kind] cap_object_bytes [OF new, of "GRANULE p"] by simp
  have own: "span carve (GRANULE p) \<subseteq> owned_bytes (GRANULE p) ?cn"
    using sp cap_bytes_owned [OF cap_in_slots [OF slot]] by blast
  have "used ?cn < 32" using ok r(3) by (simp add: cnode_ok_def CNODE_SLOTS_def)
  then have "unat v = used ?cn" using prep(2) by (simp add: unat_of_nat_small)
  moreover note retype_success_slots [OF ok r(1,3) cn']
  ultimately have "cnode_cap cn' v = Some (new_cap kind carve)"
    using ok by (simp add: cnode_cap_def nth_append)
  moreover have "\<exists>pl. ks1 = clear_frame p (carve + KERNEL_VA_OFFSET) (ks\<lparr>ks_pool := pl\<rparr>)"
    using prep(1) by (cases rule: retype_prep_cases [OF m own]) auto
  ultimately show ?thesis using slot sp prep(2) by blast
qed

section \<open>Ending a task\<close>

lemma a_kill_effect:
  assumes inv: "a_inv R T E a" and r: "a_exit (a_abort (a_cur a) a) = (b, a')"
  shows "b \<longleftrightarrow> a_ready a \<noteq> [] \<or> rp a (a_cur a) \<noteq> 0" "st a' (a_cur a) = Dead"
    "rp a (a_cur a) = k \<Longrightarrow> k \<noteq> 0 \<Longrightarrow> st a' k \<in> {Ready, Running} \<and> c_x (t_ctx (a_tcb a' k)) 0 = NO_REPLY"
proof -
  let ?c = "a_cur a"
  have ok: "a_ok R T E {?c} a" using inv by (simp add: a_inv_def)
  have c: "?c \<notin> set (a_ready a)" by (rule ok_free(3) [OF ok singletonI])
  note t = ok_take [OF ok ok_free(2) [OF ok singletonI] refl]
  show "b \<longleftrightarrow> a_ready a \<noteq> [] \<or> rp a ?c \<noteq> 0"
    using r by (auto simp: a_exit_def a_block_def a_abort_def a_enqueue_def Let_def split: list.splits if_splits)
  show "st a' ?c = Dead"
    using r c t(3) by (auto simp: a_exit_def a_block_def a_abort_def a_enqueue_def a_switch_def a_upd_def set_state_def Let_def
        append_eq_Cons_conv split: list.splits if_splits)
  assume k: "rp a ?c = k" "k \<noteq> 0"
  then have "k \<noteq> ?c" using t(3) by auto
  then show "st a' k \<in> {Ready, Running} \<and> c_x (t_ctx (a_tcb a' k)) 0 = NO_REPLY"
    using r k by (auto simp: a_exit_def a_block_def a_abort_def a_enqueue_def a_switch_def a_upd_def set_state_def put_x_def Let_def
        split: list.splits if_splits)
qed

section \<open>Properties\<close>

text \<open>
  C22. RETYPE hands out cleared memory, or changes nothing. Under the invariant the call returns;
  it reports one of six errors and leaves the state alone, or it puts a capability of the asked kind in
  the next free slot for a granule of the untyped memory it was given, every view of that granule reads
  as zero, and nothing outside it changes.
\<close>

theorem retype_clears_object:
  assumes "k_inv p root ks"
  shows "\<exists>c ks'. sys_retype p slot kind ks = Inr (c, ks') \<and> k_inv p root ks' \<and>
    (ks' = ks \<and> c \<in> {BAD_TYPE, BAD_SLOT, NOT_UNTYPED, EXHAUSTED, OUT_OF_SLOTS, KERNEL_RESOURCE} \<or>
     (\<exists>k b n u carve. kind_of kind = Some k \<and> cnode_cap (ks_cnode ks) slot = Some (CapUntyped b n u) \<and>
        c = of_nat (used (ks_cnode ks)) \<and> cnode_cap (ks_cnode ks') c = Some (new_cap k carve) \<and>
        span carve (GRANULE p) \<subseteq> cap_bytes (GRANULE p) (CapUntyped b n u) \<and>
        (\<forall>a. if in_frame p (carve + KERNEL_VA_OFFSET) a
             then ks_mem ks' a = 0 \<and> ks_tcbs ks' a = tcb_zeroed \<and> ks_eps ks' a = \<lparr>e_head = 0, e_tail = 0\<rparr>
             else ks_mem ks' a = ks_mem ks a \<and> ks_tcbs ks' a = ks_tcbs ks a \<and> ks_eps ks' a = ks_eps ks a)))"
proof -
  obtain c ks' where r: "sys_retype p slot kind ks = Inr (c, ks')" "k_inv p root ks'"
    using k_inv_retype [OF assms, of slot kind] by blast
  show ?thesis
  proof (cases "kind_of kind")
    case None
    then show ?thesis using r by (simp add: sys_retype_def)
  next
    case (Some k)
    obtain res cn' ks1 where run: "retype slot k (GRANULE p) (retype_prep p) (ks_cnode ks) ks = Inr (res, cn', ks1)"
      using r(1) Some by (cases "retype slot k (GRANULE p) (retype_prep p) (ks_cnode ks) ks") (auto simp: sys_retype_def)
    show ?thesis
    proof (cases res)
      case (Inl e)
      have "cn' = ks_cnode ks" "ks1 = ks" using retype_failed [OF assms run [unfolded Inl]] by simp_all
      then have "ks' = ks" "c = retype_code e" using r(1) Some run Inl by (simp_all add: sys_retype_def)
      then show ?thesis using r by (cases e) (simp_all add: retype_code_def)
    next
      case (Inr v)
      have e: "c = v" "ks' = ks1\<lparr>ks_cnode := cn'\<rparr>" using r(1) Some run Inr by (simp_all add: sys_retype_def)
      obtain b n u carve pl where o: "cnode_cap (ks_cnode ks) slot = Some (CapUntyped b n u)" "v = of_nat (used (ks_cnode ks))"
          "cnode_cap cn' v = Some (new_cap k carve)" "span carve (GRANULE p) \<subseteq> cap_bytes (GRANULE p) (CapUntyped b n u)"
          "ks1 = clear_frame p (carve + KERNEL_VA_OFFSET) (ks\<lparr>ks_pool := pl\<rparr>)"
        using retype_object [OF assms run [unfolded Inr]] by blast
      have cl: "\<forall>a. if in_frame p (carve + KERNEL_VA_OFFSET) a
             then ks_mem ks' a = 0 \<and> ks_tcbs ks' a = tcb_zeroed \<and> ks_eps ks' a = \<lparr>e_head = 0, e_tail = 0\<rparr>
             else ks_mem ks' a = ks_mem ks a \<and> ks_tcbs ks' a = ks_tcbs ks a \<and> ks_eps ks' a = ks_eps ks a"
        unfolding e(2) o(5) by (auto simp: clear_frame_def zero_bytes_def in_frame_def)
      have new: "cnode_cap (ks_cnode ks') c = Some (new_cap k carve)" "c = of_nat (used (ks_cnode ks))"
        using o(2,3) e by simp_all
      show ?thesis using r Some o(1,4) new cl by blast
    qed
  qed
qed

text \<open>
  C23. MAP changes one page of one address space, and never makes it executable. Under the
  invariant the call returns; an error code leaves the state alone. On success the slot named an unused
  frame, a free page of the given address space now translates to it with the permission asked for, not
  executable at EL0 or EL1, and all other translations are as before; or the slot named an unused page table and no translation
  changed. The capability cannot be used a second time.
\<close>

theorem map_effect:
  assumes "k_inv p root ks"
  shows "\<exists>c ks'. sys_map p slot va pm aspace ks = Inr (c, ks') \<and> k_inv p root ks' \<and>
    (c \<noteq> 0 \<and> ks' = ks \<or>
     c = 0 \<and> (\<exists>r b. cnode_cap (ks_cnode ks) aspace = Some (CapAddrSpace r) \<and>
       (\<exists>up. perm_of pm = Some up \<and> cnode_cap (ks_cnode ks) slot = Some (CapFrame b False) \<and> cnode_cap (ks_cnode ks') slot = Some (CapFrame b True) \<and>
          bit (b OR user_attrs up) 53 \<and> bit (b OR user_attrs up) 54 \<and> user_leaf p (ks_mem ks) r va = 0 \<and>
          (\<forall>r' \<in> cap_roots (ks_cnode ks). \<forall>va'. user_leaf p (ks_mem ks') r' va' =
             (if r' = r \<and> page_no p va' = page_no p va then b OR user_attrs up else user_leaf p (ks_mem ks) r' va')) \<or>
        cnode_cap (ks_cnode ks) slot = Some (CapPageTable b False) \<and> cnode_cap (ks_cnode ks') slot = Some (CapPageTable b True) \<and>
          (\<forall>r' \<in> cap_roots (ks_cnode ks). \<forall>va'. user_leaf p (ks_mem ks') r' va' = user_leaf p (ks_mem ks) r' va'))))"
proof -
  let ?cn = "ks_cnode ks"
  have m: "mem_inv p root (?cn, ks_pool ks, ks_mem ks)" using assms by (simp add: k_inv_def)
  have ok: "cnode_ok ?cn" using mem_invD(1) [OF m] by (simp add: cap_inv_def)
  have cap: "cnode_cap ?cn slot = Some c0 \<and> cnode_cap (?cn\<lparr>slots := (slots ?cn)[unat slot := c1]\<rparr>) slot = Some c1"
    if "unat slot < used ?cn" "slots ?cn ! unat slot = c0" for c0 c1
    using that ok by (simp add: cnode_cap_def nth_cnode_slots cnode_slots_update)
  obtain c ks' where r: "sys_map p slot va pm aspace ks = Inr (c, ks')" "k_inv p root ks'"
    using k_inv_map [OF assms, of slot va pm aspace] by blast
  from m show ?thesis
  proof (cases rule: sys_map_cases [where slot = slot and va = va and pm = pm and aspace = aspace])
    case (err c)
    then show ?thesis using assms by blast
  next
    case (frame q b up mem')
    have up: "bit (b OR user_attrs up) 53" "bit (b OR user_attrs up) 54"
      using frame(5) by (auto simp: perm_of_def user_attrs_def desc_defs bit_simps split: if_splits)
    from mem_invD(4) [OF m] frame(2)
    have e: "user_leaf p (ks_mem ks) q va = 0 \<and> (\<forall>r' \<in> cap_roots ?cn. \<forall>va'. user_leaf p mem' r' va' =
             (if r' = q \<and> page_no p va' = page_no p va then b OR user_attrs up else user_leaf p (ks_mem ks) r' va'))"
    proof (cases rule: user_map_frame_cases [where va = va and pa = b and pm = up])
      case (fail e)
      then show ?thesis using frame(6) by simp
    next
      case (mapped m')
      then show ?thesis using frame(6) by auto
    qed
    show ?thesis
      using r frame(1,5,7) cap [OF frame(3,4), of "CapFrame b True"] up e by auto
  next
    case (table q b l mem')
    then show ?thesis
      using r cap [OF table(3,4), of "CapPageTable b True"] by (auto simp: linked_def)
  qed
qed

theorem retype_clears_object_witness:
  "\<exists>c ks'. sys_retype Virt 6 OBJ_TCB demo_ks = Inr (c, ks') \<and> k_inv Virt demo_root ks'"
  using retype_clears_object [OF demo_k_inv, of 6 OBJ_TCB] by blast

theorem map_effect_witness:
  "\<exists>ks'. sys_map Virt 10 0x200000 PERM_RW 1 (demo_at True True True False
       ((\<lambda>_. 0)(0xFFFF000040000000 := 0x40004003, 0xFFFF000040004000 := 0x40005003, 0xFFFF000040005008 := 0x40006003))) = Inr (0, ks') \<and>
     k_inv Virt demo_root ks' \<and> user_leaf Virt (ks_mem ks') 0x40000000 0x200000 \<noteq> 0"
proof -
  show ?thesis
    using map_effect [OF demo_tables_inv, of 10 "0x200000" PERM_RW 1] demo_maps(5) [of True True True] demo_leaf user_leaf_safe(2)
    by (auto simp: demo_at_def)
qed

text \<open>
  C24. A dying task leaves nobody behind. Ending the current task marks it dead and passes the
  processor on; the caller it owed a reply, if there is one, is runnable afterwards with NO_REPLY as its
  result. The core parks only when no task is ready and no reply was owed.
\<close>

theorem kill_wakes_caller:
  assumes "k_inv p root ks"
  shows "case kill_current ks of
      Inl h \<Rightarrow> h = AllTasksExited \<and> sc_head (ks_sched ks) = 0 \<and> t_reply_to (ks_tcbs ks (ks_ctx ks)) = 0
    | Inr ks' \<Rightarrow> k_inv p root ks' \<and> t_state (ks_tcbs ks' (ks_ctx ks)) = Dead \<and>
        (t_reply_to (ks_tcbs ks (ks_ctx ks)) \<noteq> 0 \<longrightarrow>
           t_state (ks_tcbs ks' (t_reply_to (ks_tcbs ks (ks_ctx ks)))) \<in> {Ready, Running} \<and>
           reg ks' (t_reply_to (ks_tcbs ks (ks_ctx ks))) 0 = NO_REPLY)"
proof -
  let ?R = "cap_roots (ks_cnode ks)" and ?T = "k_tasks root (ks_cnode ks)" and ?E = "cap_eps (ks_cnode ks)"
  let ?c = "ks_ctx ks"
  obtain a where a: "sim ?E ks a" "a_inv ?R ?T ?E a" using assms by (auto simp: k_inv_def tasks_ok_def)
  obtain b ks' where e: "exit_current (abort_reply (current ks) ks) = (b, ks')" by fastforce
  obtain b' a' where x: "a_exit (a_abort (a_cur a) a) = (b', a')" by fastforce
  have s: "b' = b" "sim ?E ks' a'" using sim_kill [OF a] e x by (auto simp: sim_res_def)
  note f = sim_fields [OF a(1)] and g = sim_fields [OF s(2)] and eff = a_kill_effect [OF a(2) x]
  have hd: "sc_head (ks_sched ks) = 0" if "a_ready a = []" using a(1) that by (simp add: sim_def q_rep_def)
  show ?thesis
  proof (cases b)
    case True
    then have "kill_current ks = Inr ks'" by (simp add: kill_current_def Let_def e)
    then show ?thesis
      using k_inv_kill [OF assms] eff(2,3) f(3,8) g(2,4) by simp
  next
    case False
    then have "kill_current ks = Inl AllTasksExited" by (simp add: kill_current_def Let_def e)
    then show ?thesis using False eff(1) s(1) f(3,8) hd by simp
  qed
qed

theorem kill_wakes_caller_witness:
  "\<exists>ks'. kill_current demo_owed = Inr ks' \<and> reg ks' demo_t1 0 = NO_REPLY"
proof -
  have "t_reply_to (ks_tcbs demo_owed (ks_ctx demo_owed)) = demo_t1" "demo_t1 \<noteq> 0"
    by (simp_all add: demo_owed_def upd_tcb_def demo_fields demo_addrs)
  then show ?thesis
    using kill_wakes_caller [OF demo_owed_k_inv] by (auto split: sum.splits)
qed


end
