(* ===== verification/Lifecycle.thy ===== *)
theory Lifecycle
  imports KernelProps
begin

text \<open>
  The life of a task. Its state only moves forward: inactive after retyping, stopped once configured,
  then alive, that is running, ready or blocked, and finally dead. So a control block is configured at
  most once, started at most once, and a dead task never runs again.
\<close>

section \<open>Phases\<close>

definition phase :: "task_state \<Rightarrow> nat" where
  "phase s = (case s of Inactive \<Rightarrow> 0 | Stopped \<Rightarrow> 1 | Dead \<Rightarrow> 3 | _ \<Rightarrow> 2)"

definition a_ahead :: "akernel \<Rightarrow> akernel \<Rightarrow> bool" where
  "a_ahead a a' \<longleftrightarrow> (\<forall>t. phase (st a t) \<le> phase (st a' t))"

text \<open>Whatever is in the ready queue is alive.\<close>

definition ready_alive :: "akernel \<Rightarrow> bool" where
  "ready_alive a \<longleftrightarrow> (\<forall>t \<in> set (a_ready a). phase (st a t) \<le> 2)"

lemma phase_simps [simp]:
  "phase Inactive = 0" "phase Stopped = 1" "phase Ready = 2" "phase Running = 2" "phase Dead = 3"
  "phase BlockedSend = 2" "phase BlockedRecv = 2" "phase BlockedCall = 2" "phase BlockedReply = 2"
  by (simp_all add: phase_def)

lemma phase_iff: "phase s = 3 \<longleftrightarrow> s = Dead" "phase s = 0 \<longleftrightarrow> s = Inactive" "phase s \<le> 1 \<longleftrightarrow> s = Inactive \<or> s = Stopped" "phase s \<le> 3"
  by (cases s; simp)+

lemma ahead_refl [simp]: "a_ahead a a"
  by (simp add: a_ahead_def)

lemma ahead_trans: "a_ahead a b \<Longrightarrow> a_ahead b c \<Longrightarrow> a_ahead a c"
  unfolding a_ahead_def using order_trans by blast

lemma ahead_upd: "phase (st a t) \<le> phase (t_state (f (a_tcb a t))) \<Longrightarrow> a_ahead a (a_upd t f a)"
  by (simp add: a_ahead_def a_upd_def)

lemma ahead_enqueue: "phase (st a t) \<le> 2 \<Longrightarrow> a_ahead a (a_enqueue t a)"
  by (simp add: a_ahead_def a_enqueue_def set_state_def)

lemma ahead_queues: "a_ahead a (a_push ep t a)" "a_ahead a (a_pop ep a)"
  by (simp_all add: a_ahead_def a_push_def a_pop_def)

lemma ahead_deliver: "a_ahead a (a_deliver s d a)"
  unfolding a_deliver_def by (rule ahead_upd) simp

lemma ahead_block: "ready_alive a \<Longrightarrow> a_ahead a (snd (a_block a))"
  by (auto simp: a_ahead_def a_block_def a_switch_def set_state_def ready_alive_def split: list.split)

lemma ready_alive_enqueue: "ready_alive a \<Longrightarrow> ready_alive (a_enqueue t a)"
  by (auto simp: ready_alive_def a_enqueue_def set_state_def)

lemma ready_alive_upd:
  "ready_alive a \<Longrightarrow> phase (t_state (f (a_tcb a t))) \<le> 2 \<or> t \<notin> set (a_ready a) \<Longrightarrow> ready_alive (a_upd t f a)"
  by (auto simp: ready_alive_def a_upd_def)

lemma ready_alive_queues [simp]: "ready_alive (a_push ep t a) = ready_alive a" "ready_alive (a_pop ep a) = ready_alive a"
  by (simp_all add: ready_alive_def a_push_def a_pop_def)

lemma inv_alive:
  assumes inv: "a_inv R T E a"
  shows "ready_alive a" "st a (a_cur a) = Running" "a_cur a \<in> T"
    "ep \<in> E \<Longrightarrow> t \<in> set (a_wait a ep) \<Longrightarrow> t \<in> T \<and> phase (st a t) = 2 \<and> t \<noteq> a_cur a"
    "t \<in> T \<Longrightarrow> rp a t \<noteq> 0 \<Longrightarrow> phase (st a (rp a t)) = 2 \<and> rp a t \<noteq> a_cur a"
proof -
  have ok: "a_ok R T E {a_cur a} a" and run: "st a (a_cur a) = Running" using inv by (simp_all add: a_inv_def)
  have q: "queues_ok T E {a_cur a} a" and r: "replies_ok T {a_cur a} a" using ok by (simp_all add: a_ok_def)
  show "ready_alive a" using queues_okD(5) [OF q] by (simp add: ready_alive_def)
  show "st a (a_cur a) = Running" by (rule run)
  show "a_cur a \<in> T" using queues_okD(2) [OF q] by simp
  show "t \<in> T \<and> phase (st a t) = 2 \<and> t \<noteq> a_cur a" if "ep \<in> E" "t \<in> set (a_wait a ep)"
    using queues_okD(7) [OF q that] by (auto simp: ipc_blocked_def)
  show "phase (st a (rp a t)) = 2 \<and> rp a t \<noteq> a_cur a" if "t \<in> T" "rp a t \<noteq> 0"
    using replies_okD(1) [OF r that] by simp
qed

section \<open>The abstract operations move tasks forward\<close>

lemma ahead_abort:
  assumes "rp a h \<noteq> 0 \<Longrightarrow> phase (st a (rp a h)) \<le> 2"
  shows "a_ahead a (a_abort h a)" "ready_alive a \<Longrightarrow> ready_alive (a_abort h a)" "st (a_abort h a) t = (if t = rp a h \<and> t \<noteq> 0 then Ready else st a t)"
  using assms by (auto simp: a_abort_def Let_def a_ahead_def a_upd_def a_enqueue_def set_state_def put_x_def ready_alive_def)

lemma ahead_rotate:
  assumes "a_inv R T E a"
  shows "a_ahead a (a_rotate a)"
  using inv_alive(1,2) [OF assms]
  by (auto simp: a_ahead_def a_rotate_def a_switch_def a_enqueue_def set_state_def ready_alive_def split: list.split)

lemma ahead_kill:
  assumes "a_inv R T E a"
  shows "a_ahead a (snd (a_exit (a_abort (a_cur a) a)))"
proof -
  let ?c = "a_cur a" and ?a = "a_abort (a_cur a) a"
  note i = inv_alive [OF assms]
  have b: "a_ahead a ?a" "ready_alive ?a" using ahead_abort(1,2) [of a ?c] i(1) i(5) [OF i(3)] by auto
  have c: "a_cur ?a = ?c" by (simp add: a_abort_def Let_def a_upd_def a_enqueue_def)
  have "?c \<notin> set (a_ready ?a)"
    using ok_free(3) [of R T E "{?c}" a ?c] assms i(5) [OF i(3)]
    by (auto simp: a_abort_def Let_def a_upd_def a_enqueue_def a_inv_def)
  then have "ready_alive (a_upd ?c (\<lambda>t. t\<lparr>t_state := Dead\<rparr>) ?a)" using b(2) by (intro ready_alive_upd) auto
  from ahead_block [OF this] have "a_ahead (a_upd ?c (\<lambda>t. t\<lparr>t_state := Dead\<rparr>) ?a) (snd (a_exit ?a))"
    by (simp add: a_exit_def c)
  moreover have "a_ahead ?a (a_upd ?c (\<lambda>t. t\<lparr>t_state := Dead\<rparr>) ?a)"
    by (rule ahead_upd) (cases "st ?a ?c"; simp)
  ultimately show ?thesis using b(1) ahead_trans by blast
qed

lemma ahead_wait:
  assumes "a_inv R T E a" "ipc_blocked s"
  shows "a_ahead a (snd (a_wait_or_fail nb s ep a))"
proof -
  let ?c = "a_cur a"
  note i = inv_alive [OF assms(1)]
  have s: "phase s = 2" using assms(2) by (auto simp: ipc_blocked_def)
  let ?b = "a_push ep ?c (a_upd ?c (\<lambda>t. t\<lparr>t_state := s\<rparr>) a)"
  have "a_ahead a ?b"
    by (rule ahead_trans [OF ahead_upd ahead_queues(1)]) (simp add: i(2) s)
  moreover have "ready_alive ?b" unfolding ready_alive_queues by (rule ready_alive_upd [OF i(1)]) (simp add: s)
  ultimately have "a_ahead a (snd (a_block ?b))" using ahead_block ahead_trans by blast
  moreover have "a_ahead a (a_upd ?c (put_x 0 WOULD_BLOCK) a)" by (rule ahead_upd) (simp add: put_x_def)
  ultimately show ?thesis by (simp add: a_wait_or_fail_def)
qed

lemma ahead_send:
  assumes inv: "a_inv R T E a" and ep: "ep \<in> E"
  shows "a_ahead a (snd (a_send nb ep a))"
proof (cases "a_wait a ep \<noteq> [] \<and> st a (hd (a_wait a ep)) = BlockedRecv")
  case True
  let ?r = "hd (a_wait a ep)" and ?c = "a_cur a"
  let ?b = "a_deliver ?c ?r (a_pop ep a)"
  have b: "a_ahead a ?b" using ahead_trans [OF ahead_queues(2) ahead_deliver] .
  moreover have "a_ahead ?b (a_enqueue ?r ?b)"
    by (rule ahead_enqueue) (use True in \<open>simp add: a_deliver_def a_upd_def a_pop_def\<close>)
  moreover have "a_ahead x (a_upd ?c (put_x 0 0) x)" for x by (rule ahead_upd) (simp add: put_x_def)
  ultimately have "a_ahead a (a_upd ?c (put_x 0 0) (a_enqueue ?r ?b))" using ahead_trans by blast
  then show ?thesis using True by (simp add: a_send_def Let_def)
next
  case False
  then show ?thesis
    using ahead_wait [OF inv, of BlockedSend nb ep] by (auto simp: a_send_def ipc_blocked_def)
qed

lemma ahead_recv:
  assumes inv: "a_inv R T E a" and ep: "ep \<in> E"
  shows "a_ahead a (snd (a_recv nb ep a))"
proof (cases "a_wait a ep \<noteq> [] \<and> st a (hd (a_wait a ep)) \<noteq> BlockedRecv")
  case True
  let ?s = "hd (a_wait a ep)" and ?c = "a_cur a"
  let ?b = "a_deliver ?s ?c (a_pop ep a)"
  note i = inv_alive [OF inv]
  have s: "?s \<in> set (a_wait a ep)" using True by simp
  note sl = i(4) [OF ep s]
  have b: "a_ahead a ?b" using ahead_trans [OF ahead_queues(2) ahead_deliver] .
  have f: "st ?b t = st a t" "rp ?b t = rp a t" for t by (simp_all add: a_deliver_def a_upd_def a_pop_def)
  have ab: "a_ahead ?b (a_abort ?c ?b)" using ahead_abort(1) [of ?b ?c] i(5) [OF i(3)] f by simp
  have u: "a_ahead x (a_upd t f x)" if "t_state (f (a_tcb x t)) = st x t" for x t f by (rule ahead_upd) (simp add: that)
  show ?thesis
  proof (cases "st a ?s = BlockedCall")
    case call: True
    have "phase (st (a_abort ?c ?b) ?s) \<le> 2"
      using ahead_abort(3) [of ?b ?c ?s] i(5) [OF i(3)] f call by auto
    then have w: "a_ahead (a_abort ?c ?b) (a_upd ?s (\<lambda>t. t\<lparr>t_state := BlockedReply\<rparr>) (a_abort ?c ?b))"
      by (intro ahead_upd) simp
    have "a_ahead a (a_upd ?c (\<lambda>t. t\<lparr>t_reply_to := ?s\<rparr>) (a_upd ?s (\<lambda>t. t\<lparr>t_state := BlockedReply\<rparr>) (a_abort ?c ?b)))"
      by (rule ahead_trans [OF b ahead_trans [OF ab ahead_trans [OF w u]]]) simp
    then show ?thesis using True call by (simp add: a_recv_def Let_def)
  next
    case False
    have "a_ahead ?b (a_upd ?s (put_x 0 0) ?b)" by (rule u) (simp add: put_x_def)
    moreover have "a_ahead (a_upd ?s (put_x 0 0) ?b) (a_enqueue ?s (a_upd ?s (put_x 0 0) ?b))"
      by (rule ahead_enqueue) (use sl f in \<open>simp add: a_upd_def put_x_def\<close>)
    ultimately have "a_ahead a (a_enqueue ?s (a_upd ?s (put_x 0 0) ?b))" using b ahead_trans by blast
    then show ?thesis using True False by (simp add: a_recv_def Let_def)
  qed
next
  case False
  then show ?thesis
    using ahead_wait [OF inv, of BlockedRecv nb ep] by (auto simp: a_recv_def ipc_blocked_def)
qed

lemma ahead_call:
  assumes inv: "a_inv R T E a" and ep: "ep \<in> E"
  shows "a_ahead a (snd (a_call nb ep a))"
proof (cases "a_wait a ep \<noteq> [] \<and> st a (hd (a_wait a ep)) = BlockedRecv")
  case True
  let ?r = "hd (a_wait a ep)" and ?c = "a_cur a"
  let ?b = "a_deliver ?c ?r (a_pop ep a)"
  let ?d = "a_abort ?r ?b"
  let ?e = "a_upd ?c (\<lambda>t. t\<lparr>t_state := BlockedReply\<rparr>) (a_upd ?r (\<lambda>t. t\<lparr>t_reply_to := ?c\<rparr>) ?d)"
  note i = inv_alive [OF inv]
  have r: "?r \<in> set (a_wait a ep)" using True by simp
  note rl = i(4) [OF ep r]
  have b: "a_ahead a ?b" using ahead_trans [OF ahead_queues(2) ahead_deliver] .
  have f: "st ?b t = st a t" "rp ?b t = rp a t" "a_ready ?b = a_ready a" for t by (simp_all add: a_deliver_def a_upd_def a_pop_def)
  have rb: "ready_alive ?b" using i(1) f by (simp add: ready_alive_def)
  have al: "rp ?b ?r \<noteq> 0 \<Longrightarrow> phase (st ?b (rp ?b ?r)) \<le> 2" using i(5) [of ?r] rl f by simp
  note ab = ahead_abort [of ?b ?r]
  have ph: "phase (st ?d t) \<le> 2" if "phase (st a t) \<le> 2" for t using ab(3) [of t] al f that by auto
  have "a_ahead ?d (a_upd ?r (\<lambda>t. t\<lparr>t_reply_to := ?c\<rparr>) ?d)" by (rule ahead_upd) simp
  moreover have "a_ahead (a_upd ?r (\<lambda>t. t\<lparr>t_reply_to := ?c\<rparr>) ?d) ?e"
    by (rule ahead_upd) (use ph [of ?c] i(2) rl in \<open>auto simp: a_upd_def\<close>)
  moreover have "phase (st ?e ?r) \<le> 2" using ph [of ?r] rl by (simp add: a_upd_def)
  moreover have "ready_alive ?d" using ab(2) rb al by blast
  then have "ready_alive ?e" by (intro ready_alive_upd) (use ph [of ?r] rl in simp_all)
  ultimately have "a_ahead ?d (snd (a_block (a_enqueue ?r ?e)))"
    using ahead_enqueue [of ?e ?r] ahead_block [OF ready_alive_enqueue [of ?e ?r]] ahead_trans by blast
  then have "a_ahead a (snd (a_block (a_enqueue ?r ?e)))" using b ab(1) al ahead_trans by blast
  then show ?thesis using True by (simp add: a_call_def Let_def)
next
  case False
  then show ?thesis
    using ahead_wait [OF inv, of BlockedCall nb ep] by (auto simp: a_call_def ipc_blocked_def)
qed

lemma ahead_reply:
  assumes inv: "a_inv R T E a" and ep: "ep \<in> E"
  shows "a_ahead a (snd (a_reply_recv nb ep a))"
proof (cases "rp a (a_cur a) = 0")
  case True
  then show ?thesis using ahead_recv [OF inv ep] by (simp add: a_reply_recv_def Let_def)
next
  case False
  let ?c = "a_cur a" and ?k = "rp a (a_cur a)"
  let ?b = "a_deliver ?c ?k (a_upd ?c (\<lambda>t. t\<lparr>t_reply_to := 0\<rparr>) a)"
  note i = inv_alive [OF inv]
  have "a_ahead a ?b" by (rule ahead_trans [OF ahead_upd ahead_deliver]) simp
  moreover have "a_ahead ?b (a_enqueue ?k ?b)"
    by (rule ahead_enqueue) (use i(5) [OF i(3) False] in \<open>simp add: a_deliver_def a_upd_def\<close>)
  moreover note ahead_recv [OF a_replied_inv [OF inv False] ep, of nb]
  ultimately have "a_ahead a (snd (a_recv nb ep (a_enqueue ?k ?b)))" using ahead_trans by blast
  then show ?thesis using False by (simp add: a_reply_recv_def Let_def)
qed

section \<open>The kernel moves tasks forward\<close>

definition ahead :: "u64 \<Rightarrow> kstate \<Rightarrow> kstate \<Rightarrow> bool" where
  "ahead root ks ks' \<longleftrightarrow> k_tasks root (ks_cnode ks) \<subseteq> k_tasks root (ks_cnode ks') \<and>
     (\<forall>t \<in> k_tasks root (ks_cnode ks). phase (t_state (ks_tcbs ks t)) \<le> phase (t_state (ks_tcbs ks' t)))"

lemma k_ahead_trans: "ahead root a b \<Longrightarrow> ahead root b c \<Longrightarrow> ahead root a c"
  unfolding ahead_def by (meson order_trans subsetD)

lemma ahead_same: "ks_cnode ks' = ks_cnode ks \<Longrightarrow> (\<And>t. t_state (ks_tcbs ks' t) = t_state (ks_tcbs ks t)) \<Longrightarrow> ahead root ks ks'"
  by (simp add: ahead_def)

lemma ahead_sim:
  assumes "sim E ks a" "sim E' ks' a'" "a_ahead a a'" "ks_cnode ks' = ks_cnode ks"
  shows "ahead root ks ks'"
  using assms(3,4) sim_fields(2) [OF assms(1)] sim_fields(2) [OF assms(2)] by (simp add: ahead_def a_ahead_def)

lemma k_inv_sim:
  assumes "k_inv p root ks"
  obtains a where "sim (cap_eps (ks_cnode ks)) ks a"
    "a_inv (cap_roots (ks_cnode ks)) (k_tasks root (ks_cnode ks)) (cap_eps (ks_cnode ks)) a"
  using assms by (auto simp: k_inv_def tasks_ok_def)

lemma others_cnode: "others ks' = others ks \<Longrightarrow> ks_cnode ks' = ks_cnode ks"
  by (simp add: others_def)

lemma k_ahead_rotate:
  assumes "k_inv p root ks"
  shows "ahead root ks (rotate ks)"
proof -
  obtain a where a: "sim (cap_eps (ks_cnode ks)) ks a"
    "a_inv (cap_roots (ks_cnode ks)) (k_tasks root (ks_cnode ks)) (cap_eps (ks_cnode ks)) a"
    using assms by (rule k_inv_sim)
  show ?thesis
    by (rule ahead_sim [OF a(1) sim_rotate [OF a] ahead_rotate [OF a(2)] others_cnode [OF others_sched(1)]])
qed

lemma k_ahead_kill:
  assumes "k_inv p root ks" "kill_current ks = Inr ks'"
  shows "ahead root ks ks'"
proof -
  obtain a where a: "sim (cap_eps (ks_cnode ks)) ks a"
    "a_inv (cap_roots (ks_cnode ks)) (k_tasks root (ks_cnode ks)) (cap_eps (ks_cnode ks)) a"
    using assms(1) by (rule k_inv_sim)
  obtain b where e: "exit_current (abort_reply (current ks) ks) = (b, ks')"
    using assms(2) by (auto simp: kill_current_def Let_def split: prod.splits if_splits)
  have s: "sim (cap_eps (ks_cnode ks)) ks' (snd (a_exit (a_abort (a_cur a) a)))"
    using sim_kill [OF a] e by (auto simp: sim_res_def)
  have "ks_cnode ks' = ks_cnode ks"
    using others_exit [of "abort_reply (current ks) ks"] e by (intro others_cnode) (simp add: others_simps)
  then show ?thesis by (rule ahead_sim [OF a(1) s ahead_kill [OF a(2)]])
qed

lemma k_ahead_ipc:
  assumes inv: "k_inv p root ks" and f: "f \<in> {sys_send, sys_recv, sys_call, sys_reply_recv}"
    and r: "f (ks_ctx ks) ks = Inr (b, ks')"
  shows "ahead root ks ks'"
proof -
  let ?E = "cap_eps (ks_cnode ks)" and ?R = "cap_roots (ks_cnode ks)" and ?T = "k_tasks root (ks_cnode ks)"
  obtain a where a: "sim ?E ks a" "a_inv ?R ?T ?E a" using inv by (rule k_inv_sim)
  have c: "ks_ctx ks = a_cur a" "fst (a_other a) = ks_cnode ks" using sim_fields(6,8) [OF a(1)] by simp_all
  have "\<exists>op. ipc_sim ?E (f (a_cur a) ks) (a_ipc op a) \<and> (\<forall>nb ep. ep \<in> ?E \<longrightarrow> a_ahead a (snd (op nb ep a)))"
    using f sim_sys [OF a order_refl] ahead_send [OF a(2)] ahead_recv [OF a(2)] ahead_call [OF a(2)] ahead_reply [OF a(2)] by blast
  then obtain op where op: "ipc_sim ?E (Inr (b, ks')) (a_ipc op a)" "\<And>nb ep. ep \<in> ?E \<Longrightarrow> a_ahead a (snd (op nb ep a))"
    using r c(1) by auto
  obtain ra where ra: "a_ipc op a = Inr ra" "sim ?E ks' (snd ra)"
    using op(1) by (cases "a_ipc op a") (auto simp: ipc_sim_def sim_res_def)
  have "a_ahead a (snd ra)"
  proof (cases "ep_of (a_x a 0) (ks_cnode ks)")
    case (Inr x)
    show ?thesis
    proof (cases x)
      case (Inl e)
      then have "snd ra = a_upd (a_cur a) (put_x 0 e) a" using ra(1) Inr c(2) by (auto simp: a_ipc_def)
      then show ?thesis using ahead_upd [of a "a_cur a" "put_x 0 e"] by (simp add: put_x_def)
    next
      case (Inr ep)
      then have "ep \<in> ?E" using \<open>ep_of (a_x a 0) (ks_cnode ks) = Inr x\<close> ep_of_cap_eps by blast
      then show ?thesis
        using op(2) ra(1) Inr \<open>ep_of (a_x a 0) (ks_cnode ks) = Inr x\<close> c(2) by (auto simp: a_ipc_def)
    qed
  qed (use ra(1) c(2) in \<open>simp add: a_ipc_def\<close>)
  then show ?thesis
    by (rule ahead_sim [OF a(1) ra(2) _ others_cnode [OF others_ipc [OF f r]]])
qed

lemma enqueue_state: "t_state (ks_tcbs (enqueue t ks) u) = (if u = t then Ready else t_state (ks_tcbs ks u))"
  by (auto simp: enqueue_def sched_push_def set_next_def set_state_def Let_def)

lemma k_ahead_resume: "sys_tcb_resume slot ks = Inr (c, ks') \<Longrightarrow> ahead root ks ks'"
  by (auto simp: sys_tcb_resume_def ahead_def enqueue_state others_cnode [OF others_queues(1)] and_then_Inr
      split: option.splits cap.splits if_splits)

lemma k_ahead_configure: "sys_tcb_configure p slot entry stack aspace ks = Inr (c, ks') \<Longrightarrow> ahead root ks ks'"
  by (auto simp: sys_tcb_configure_def ahead_def upd_tcb_def configured_def and_then_Inr split: option.splits cap.splits if_splits)

lemma k_ahead_map:
  assumes inv: "k_inv p root ks" and r: "sys_map p slot va pm aspace ks = Inr (c, ks')"
  shows "ahead root ks ks'"
proof -
  let ?cn = "ks_cnode ks"
  have m: "mem_inv p root (?cn, ks_pool ks, ks_mem ks)" using inv by (simp add: k_inv_def)
  have keep: "cap_tcbs (?cn\<lparr>slots := (slots ?cn)[unat slot := c1]\<rparr>) = cap_tcbs ?cn"
    if "unat slot < used ?cn" "slots ?cn ! unat slot = c0" "cap_object c0 = Some b" "cap_object c1 = Some b"
      "\<And>x. c0 \<noteq> CapTcb x \<and> c1 \<noteq> CapTcb x" for c0 c1 b
    using slot_mark(4) [OF mem_invD(1) [OF m] that(1-4) refl] that(5) unfolding cap_tcbs_def by metis
  from m show ?thesis
  proof (cases rule: sys_map_cases [where slot = slot and va = va and pm = pm and aspace = aspace])
    case (err c)
    then show ?thesis using r by (simp add: ahead_def)
  next
    case (frame q b up mem')
    then show ?thesis using r keep [OF frame(3,4), of b "CapFrame b True"] by (auto simp: ahead_def k_tasks_def cap_object_def)
  next
    case (table q b l mem')
    then show ?thesis using r keep [OF table(3,4), of b "CapPageTable b True"] by (auto simp: ahead_def k_tasks_def cap_object_def)
  qed
qed

lemma retype_tcbs:
  assumes "cnode_ok cn" "retype slot kind g prep cn s = Inr (Inr v, cn', s')"
  shows "cap_tcbs cn \<subseteq> cap_tcbs cn'"
proof -
  from assms(2) obtain b n u carve ce where r: "unat slot < used cn" "slots cn ! unat slot = CapUntyped b n u" "used cn \<noteq> CNODE_SLOTS"
    and cn': "cn' = cn\<lparr>slots := (slots cn)[unat slot := CapUntyped b n (ce - b), used cn := new_cap kind carve], used := used cn + 1\<rparr>"
    by (rule retype_success)
  show ?thesis using retype_caps [OF assms(1) r(1,3,2) cn'] by (auto simp: cap_tcbs_def)
qed

lemma k_ahead_retype:
  assumes inv: "k_inv p root ks" and r: "sys_retype p slot kind ks = Inr (c, ks')"
  shows "ahead root ks ks'"
proof (cases "kind_of kind")
  case None
  then show ?thesis using r by (simp add: sys_retype_def ahead_def)
next
  case (Some k)
  let ?cn = "ks_cnode ks"
  obtain res cn' ks1 where run: "retype slot k (GRANULE p) (retype_prep p) ?cn ks = Inr (res, cn', ks1)"
    using r Some by (cases "retype slot k (GRANULE p) (retype_prep p) ?cn ks") (auto simp: sys_retype_def)
  have e: "ks' = ks1\<lparr>ks_cnode := cn'\<rparr>" using r Some run by (auto simp: sys_retype_def Let_def split: sum.splits)
  show ?thesis
  proof (cases res)
    case (Inl err)
    then show ?thesis using retype_failed [OF inv run [unfolded Inl]] e by (simp add: ahead_def)
  next
    case (Inr v)
    have ok: "cnode_ok ?cn" using inv by (simp add: k_inv_def mem_inv_def cap_inv_def)
    obtain b n u carve pl where o: "cnode_cap ?cn slot = Some (CapUntyped b n u)"
        "span carve (GRANULE p) \<subseteq> cap_bytes (GRANULE p) (CapUntyped b n u)"
        "ks1 = clear_frame p (carve + KERNEL_VA_OFFSET) (ks\<lparr>ks_pool := pl\<rparr>)"
      using retype_object [OF inv run [unfolded Inr]] by blast
    have "ks_tcbs ks' t = ks_tcbs ks t" if "t \<in> k_tasks root ?cn" for t
      using free_frame_unused(1) [OF inv cap_in_slots [OF o(1)] o(2), of t] that by (simp add: e o(3) clear_frame_def)
    then show ?thesis
      using retype_tcbs [OF ok run [unfolded Inr]] e by (auto simp: ahead_def k_tasks_def)
  qed
qed

lemma set_reg_state [simp]: "t_state (ks_tcbs (set_reg c i v ks) t) = t_state (ks_tcbs ks t)"
  by (simp add: set_reg_def upd_tcb_def put_x_def)

lemma set_reg_cnode [simp]: "ks_cnode (set_reg c i v ks) = ks_cnode ks"
  by (rule others_cnode) (simp add: others_simps)

lemma ahead_code: "with_code ctx r = Inr ks' \<Longrightarrow> (\<And>c k. r = Inr (c, k) \<Longrightarrow> ahead root ks k) \<Longrightarrow> ahead root ks ks'"
  by (cases r) (auto simp: with_code_def ahead_def)

lemma k_ahead_syscall:
  assumes inv: "k_inv p root ks" and r: "k0_syscall p (ks_ctx ks) ks = Inr ks'"
  shows "ahead root ks ks'"
proof -
  have log: "ahead root ks ks'" if "kill_current (con_log i ks) = Inr ks'" for i
    using k_ahead_kill [OF k_inv_console [OF inv], of "ks_console ks @ [i]" ks'] that by (simp add: con_log_def ahead_def)
  have ipc: "ahead root ks ks'" if "ipc_or_park (f (ks_ctx ks) ks) = Inr ks'" "f \<in> {sys_send, sys_recv, sys_call, sys_reply_recv}" for f
    using that(1) k_ahead_ipc [OF inv that(2)] by (auto simp: ipc_or_park_def and_then_Inr split: prod.splits if_splits)
  have putc: "ahead root ks (snd (sys_putc s b ks))" for s b
    by (rule ahead_same) (auto simp: sys_putc_def con_bytes_def split: option.splits cap.splits)
  have yield: "ahead root ks (rotate (set_reg (ks_ctx ks) 0 0 ks))"
    using k_ahead_rotate [OF k_inv_reg [OF inv]] by (simp add: ahead_def)
  have codes: "with_code (ks_ctx ks) (Inr (sys_putc s b ks)) = Inr ks' \<Longrightarrow> ahead root ks ks'"
      "with_code (ks_ctx ks) (sys_retype p s b ks) = Inr ks' \<Longrightarrow> ahead root ks ks'"
      "with_code (ks_ctx ks) (sys_map p s b c d ks) = Inr ks' \<Longrightarrow> ahead root ks ks'"
      "with_code (ks_ctx ks) (sys_tcb_configure p s b c d ks) = Inr ks' \<Longrightarrow> ahead root ks ks'"
      "with_code (ks_ctx ks) (sys_tcb_resume s ks) = Inr ks' \<Longrightarrow> ahead root ks ks'" for s b c d
    using putc [of s b] k_ahead_retype [OF inv] k_ahead_map [OF inv] k_ahead_configure k_ahead_resume
    by (auto elim: ahead_code)
  show ?thesis
    using r unfolding k0_syscall_def Let_def by (auto split: if_splits dest: log ipc codes intro: yield)
qed

lemma k_ahead_refl [simp]: "ahead root ks ks"
  by (simp add: ahead_def)

lemma ahead_log [simp]: "ahead root (con_log i ks) ks' = ahead root ks ks'"
  by (simp add: ahead_def con_log_def)

lemma k_inv_log: "k_inv p root ks \<Longrightarrow> k_inv p root (con_log i ks)"
  unfolding con_log_def by (rule k_inv_console)

lemma irq_lower_cases:
  "irq_lower p freq iar m = Inr m' \<Longrightarrow> m' = m \<or> (\<exists>m1. timer_tick freq m = Inr m1 \<and> mc_ks m' = k0_preempt (mc_ks m1))"
  by (cases p; cases "timer_tick freq m") (auto simp: irq_lower_def dispatch_irq_def Let_def split: if_split_asm)

lemma fiq_lower_cases:
  "fiq_lower p freq ctl m = Inr m' \<Longrightarrow> m' = m \<or> (\<exists>m1. timer_tick freq m = Inr m1 \<and> mc_ks m' = k0_preempt (mc_ks m1))"
  by (cases p; cases "timer_tick freq m") (auto simp: fiq_lower_def dispatch_fiq_def Let_def split: if_split_asm)

lemma step_ahead:
  assumes "step p freq m m'" "m_inv p root m"
  shows "ahead root (mc_ks m) (mc_ks m')"
proof -
  have k: "k_inv p root (mc_ks m)" using assms(2) by (simp add: m_inv_def)
  have tick: "ahead root (mc_ks m) (k0_preempt (mc_ks m1))" if t: "timer_tick freq m = Inr m1" for m1
  proof -
    obtain n where "mc_ks m1 = con_log (Tick n) (mc_ks m)"
      using t by (auto simp: timer_tick_def timer_arm_def and_then_Inr Let_def)
    then show ?thesis using k_ahead_rotate [OF k_inv_log [OF k, of "Tick n"]] by (simp add: k0_preempt_def)
  qed
  show ?thesis
    using assms(1)
  proof cases
    case (run c)
    then show ?thesis by (auto simp: ahead_def save_context_def upd_tcb_def)
  next
    case (store va v ks)
    then show ?thesis by (auto simp: ahead_def el0_store_def Let_def split: if_splits)
  next
    case (sync esr far)
    have "ahead root (mc_ks m) ks'" if "skip_insn (ks_ctx (mc_ks m)) (mc_ks m) = Inr ks'" for ks'
      using that by (auto simp: skip_insn_def and_then_Inr ahead_def upd_tcb_def)
    moreover have "ahead root (mc_ks m) ks'" if "k0_fault (ks_ctx (mc_ks m)) esr far (mc_ks m) = Inr ks'" for ks'
      using that k_ahead_kill [OF k_inv_log [OF k]] by (fastforce simp: k0_fault_def)
    ultimately show ?thesis
      using sync k_ahead_syscall [OF k] by (auto simp: el0_sync_def on_ks_def and_then_Inr Let_def split: if_splits)
  next
    case (irq iar)
    then show ?thesis using irq_lower_cases tick by fastforce
  next
    case (fiq ctl)
    then show ?thesis using fiq_lower_cases tick by fastforce
  qed
qed

lemma steps_ahead:
  assumes "(step p freq)\<^sup>*\<^sup>* m m'" "m_inv p root m"
  shows "ahead root (mc_ks m) (mc_ks m')"
  using assms
proof (induction rule: rtranclp_induct)
  case base
  then show ?case by (simp add: ahead_def)
next
  case (step m1 m2)
  then show ?case using step_ahead steps_inv k_ahead_trans by blast
qed

section \<open>Properties\<close>



end
