(* ===== verification/Fdt.thy ===== *)
theory Fdt
  imports K0_Prelude "HOL-Library.Sublist"
begin

text \<open>
  The device tree parser (\<^verbatim>\<open>crates/k0-boot/src/fdt.rs\<close>). The blob comes from the boot loader and is
  not trusted, so what matters here is what happens on arbitrary bytes.

  A \<^verbatim>\<open>usize\<close> is a natural number, and every operation that could leave 64 bits is written out:
  \<open>add_us\<close> is a plain \<open>+\<close>, which panics, \<open>checked_us\<close> is \<^verbatim>\<open>checked_add\<close>, \<open>wrap_us\<close> is
  \<^verbatim>\<open>wrapping_add\<close>. Indexing or slicing out of range panics. A parser function returns
  \<open>(halt + boot_error) + 'a\<close>: a panic is \<open>Inl (Inl Panic)\<close>, a Rust \<^verbatim>\<open>Err\<close> is \<open>Inl (Inr e)\<close>.

  The loops are total functions: the cursor moves forward in every round and stays inside the blob.
\<close>

section \<open>Data\<close>

datatype boot_error =
    NullPointer
  | MisalignedDtb
  | BadMagic
  | BadHeader
  | UnsupportedVersion
  | OverlapsKernel
  | Truncated
  | BadStructure
  | TooDeep
  | BadString
  | UnsupportedCells
  | BadReg
  | TooManyRegions
  | NoMemory

definition MAX_MEM_REGIONS :: nat where "MAX_MEM_REGIONS = 8"
definition MAX_RSV_REGIONS :: nat where "MAX_RSV_REGIONS = 8"
definition MAX_ENTROPY :: nat where "MAX_ENTROPY = 72"
definition FDT_MAGIC :: u32 where "FDT_MAGIC = 0xd00dfeed"
definition HEADER_SIZE :: u32 where "HEADER_SIZE = 40"
definition MAX_DTB_SIZE :: u32 where "MAX_DTB_SIZE = 2 * 1024 * 1024"
definition MAX_DEPTH :: nat where "MAX_DEPTH = 32"
definition SUPPORTED_VERSION :: u32 where "SUPPORTED_VERSION = 17"
definition FDT_BEGIN_NODE :: u32 where "FDT_BEGIN_NODE = 1"
definition FDT_END_NODE :: u32 where "FDT_END_NODE = 2"
definition FDT_PROP :: u32 where "FDT_PROP = 3"
definition FDT_NOP :: u32 where "FDT_NOP = 4"
definition FDT_END :: u32 where "FDT_END = 9"

lemmas fdt_limits = MAX_MEM_REGIONS_def MAX_RSV_REGIONS_def MAX_ENTROPY_def MAX_DEPTH_def
lemmas fdt_tokens = FDT_BEGIN_NODE_def FDT_END_NODE_def FDT_PROP_def FDT_NOP_def FDT_END_def

record mem_region =
  mr_base :: u64
  mr_size :: u64

record boot_info =
  bi_dtb :: "nat \<times> nat"
  bi_regions :: "mem_region list"
  bi_region_count :: nat
  bi_reserved :: "mem_region list"
  bi_reserved_count :: nat
  bi_entropy :: "u8 list"
  bi_entropy_len :: nat

definition bi_memory_list :: "boot_info \<Rightarrow> mem_region list" where
  "bi_memory_list info = take (bi_region_count info) (bi_regions info)"

definition bi_reserved_list :: "boot_info \<Rightarrow> mem_region list" where
  "bi_reserved_list info = take (bi_reserved_count info) (bi_reserved info)"

definition bi_entropy_bytes :: "boot_info \<Rightarrow> u8 list" where
  "bi_entropy_bytes info = take (bi_entropy_len info) (bi_entropy info)"

section \<open>Arithmetic and slices\<close>

type_synonym 'a parsed = "(halt + boot_error) + 'a"

abbreviation Err :: "boot_error \<Rightarrow> 'a parsed" where "Err e \<equiv> Inl (Inr e)"
abbreviation panicked :: "'a parsed" where "panicked \<equiv> Inl (Inl Panic)"

definition add_us :: "nat \<Rightarrow> nat \<Rightarrow> nat parsed" where
  "add_us a b = (if a + b < 2 ^ 64 then Inr (a + b) else panicked)"

definition sub_us :: "nat \<Rightarrow> nat \<Rightarrow> nat parsed" where
  "sub_us a b = (if b \<le> a then Inr (a - b) else panicked)"

definition add_u32 :: "nat \<Rightarrow> nat \<Rightarrow> nat parsed" where
  "add_u32 a b = (if a + b < 2 ^ 32 then Inr (a + b) else panicked)"

definition checked_us :: "nat \<Rightarrow> nat \<Rightarrow> nat option" where
  "checked_us a b = (if a + b < 2 ^ 64 then Some (a + b) else None)"

definition wrap_us :: "nat \<Rightarrow> nat \<Rightarrow> nat" where
  "wrap_us a b = (a + b) mod 2 ^ 64"

text \<open>\<^verbatim>\<open>xs.get(a..b)\<close>, \<^verbatim>\<open>xs[a..b]\<close> and \<^verbatim>\<open>xs[i] = v\<close>.\<close>

definition get_range :: "'a list \<Rightarrow> nat \<Rightarrow> nat \<Rightarrow> 'a list option" where
  "get_range xs a b = (if a \<le> b \<and> b \<le> length xs then Some (take (b - a) (drop a xs)) else None)"

definition slice :: "'a list \<Rightarrow> nat \<Rightarrow> nat \<Rightarrow> 'a list parsed" where
  "slice xs a b = ok_or (get_range xs a b) (Inl Panic)"

definition store_at :: "'a list \<Rightarrow> nat \<Rightarrow> 'a \<Rightarrow> 'a list parsed" where
  "store_at xs i v = (if i < length xs then Inr (xs[i := v]) else panicked)"

text \<open>\<^verbatim>\<open>iter().position(|&b| b == 0)\<close>\<close>

definition position0 :: "u8 list \<Rightarrow> nat option" where
  "position0 xs = (if 0 \<in> set xs then Some (length (takeWhile (\<lambda>b. b \<noteq> 0) xs)) else None)"

text \<open>\<^verbatim>\<open>u32::from_be_bytes\<close>, \<^verbatim>\<open>u64::from_be_bytes\<close> and the fold of \<^verbatim>\<open>read_cells\<close>.\<close>

definition from_be :: "u8 list \<Rightarrow> 'w::len word" where
  "from_be bs = foldl (\<lambda>acc b. push_bit 8 acc OR ucast b) 0 bs"

definition be32 :: "u8 list \<Rightarrow> nat \<Rightarrow> u32 parsed" where
  "be32 blob off = and_then (ok_or (get_range blob off (wrap_us off 4)) (Inr Truncated)) (\<lambda>b. Inr (from_be b))"

definition be64 :: "u8 list \<Rightarrow> nat \<Rightarrow> u64 parsed" where
  "be64 blob off = and_then (ok_or (get_range blob off (wrap_us off 8)) (Inr Truncated)) (\<lambda>b. Inr (from_be b))"

text \<open>\<^verbatim>\<open>be32(blob, off)? as usize\<close>\<close>

definition be32_us :: "u8 list \<Rightarrow> nat \<Rightarrow> nat parsed" where
  "be32_us blob off = and_then (be32 blob off) (\<lambda>v. Inr (unat v))"

text \<open>\<^verbatim>\<open>v & !3\<close> clears the two low bits.\<close>

definition align4 :: "nat \<Rightarrow> nat parsed" where
  "align4 off = ok_or (map_option (\<lambda>v. v - v mod 4) (checked_us off 3)) (Inr Truncated)"

text \<open>\<^verbatim>\<open>a.checked_add(b).filter(|&e| e <= limit).ok_or(e)\<close>\<close>

definition end_within :: "nat \<Rightarrow> nat \<Rightarrow> nat \<Rightarrow> boot_error \<Rightarrow> nat parsed" where
  "end_within a b limit e = (case checked_us a b of Some x \<Rightarrow> if x \<le> limit then Inr x else Err e | None \<Rightarrow> Err e)"

section \<open>Properties and regions\<close>

definition prop_name :: "u8 list \<Rightarrow> nat \<Rightarrow> nat \<Rightarrow> nat \<Rightarrow> u8 list parsed" where
  "prop_name blob off_strings strings_end name_off =
     (case checked_us off_strings name_off of
        Some start \<Rightarrow>
          if start < strings_end then
            and_then (slice blob start strings_end) (\<lambda>rest.
            and_then (ok_or (position0 rest) (Inr BadString)) (\<lambda>rel.
            and_then (add_us start rel) (\<lambda>e. slice blob start e)))
          else Err BadString
      | None \<Rightarrow> Err BadString)"

definition cell_count :: "u8 list \<Rightarrow> u32 parsed" where
  "cell_count value = (if length value \<noteq> 4 then Err UnsupportedCells else Inr (from_be value))"

definition read_cells :: "u8 list \<Rightarrow> u64" where
  "read_cells bytes = foldl (\<lambda>acc b. push_bit 8 acc OR ucast b) 0 bytes"

definition valid_cells :: "u32 \<Rightarrow> bool" where
  "valid_cells c \<longleftrightarrow> 1 \<le> c \<and> c \<le> 2"

text \<open>\<^verbatim>\<open>value.chunks_exact(entry)\<close>; \<open>parse_reg\<close> calls it with a positive \<open>entry\<close>.\<close>

fun chunks_exact :: "nat \<Rightarrow> 'a list \<Rightarrow> 'a list list" where
  "chunks_exact n xs = (if n = 0 \<or> length xs < n then [] else take n xs # chunks_exact n (drop n xs))"

declare chunks_exact.simps [simp del]

fun reg_loop :: "nat \<Rightarrow> u8 list list \<Rightarrow> mem_region list \<Rightarrow> nat \<Rightarrow> (mem_region list \<times> nat) parsed" where
  "reg_loop split [] out count = Inr (out, count)"
| "reg_loop split (chunk # cs) out count =
     (let base = read_cells (take split chunk); size = read_cells (drop split chunk) in
      if size = 0 then reg_loop split cs out count
      else if checked_add base size = None then Err BadReg
      else if count = length out then Err TooManyRegions
      else and_then (store_at out count \<lparr>mr_base = base, mr_size = size\<rparr>) (\<lambda>out'. reg_loop split cs out' (count + 1)))"

definition parse_reg :: "u8 list \<Rightarrow> u32 \<Rightarrow> u32 \<Rightarrow> mem_region list \<Rightarrow> nat \<Rightarrow> (mem_region list \<times> nat) parsed" where
  "parse_reg value addr_cells size_cells out count =
     (if \<not> valid_cells addr_cells \<or> \<not> valid_cells size_cells then Err UnsupportedCells
      else let entry = unat ((addr_cells + size_cells) * 4) in
        if value = [] \<or> length value mod entry \<noteq> 0 then Err BadReg
        else reg_loop (unat (addr_cells * 4)) (chunks_exact entry value) out count)"

definition push_regions :: "u8 list \<Rightarrow> u32 \<Rightarrow> u32 \<Rightarrow> boot_info \<Rightarrow> boot_info parsed" where
  "push_regions value addr_cells size_cells info =
     and_then (parse_reg value addr_cells size_cells (bi_regions info) (bi_region_count info)) (\<lambda>(out, count).
       Inr (info\<lparr>bi_regions := out, bi_region_count := count\<rparr>))"

definition push_reserved_regions :: "u8 list \<Rightarrow> u32 \<Rightarrow> u32 \<Rightarrow> boot_info \<Rightarrow> boot_info parsed" where
  "push_reserved_regions value addr_cells size_cells info =
     and_then (parse_reg value addr_cells size_cells (bi_reserved info) (bi_reserved_count info)) (\<lambda>(out, count).
       Inr (info\<lparr>bi_reserved := out, bi_reserved_count := count\<rparr>))"

definition push_reserved :: "boot_info \<Rightarrow> u64 \<Rightarrow> u64 \<Rightarrow> boot_info parsed" where
  "push_reserved info base sz =
     (if checked_add base sz = None then Err BadReg
      else if bi_reserved_count info = MAX_RSV_REGIONS then Err TooManyRegions
      else and_then (store_at (bi_reserved info) (bi_reserved_count info) \<lparr>mr_base = base, mr_size = sz\<rparr>) (\<lambda>out.
        Inr (info\<lparr>bi_reserved := out, bi_reserved_count := bi_reserved_count info + 1\<rparr>)))"

definition push_entropy :: "u8 list \<Rightarrow> boot_info \<Rightarrow> boot_info parsed" where
  "push_entropy value info =
     and_then (sub_us MAX_ENTROPY (bi_entropy_len info)) (\<lambda>cap.
     let n = min (length value) cap; i = bi_entropy_len info in
     and_then (slice (bi_entropy info) i (i + n)) (\<lambda>_.
     Inr (info\<lparr>bi_entropy := take i (bi_entropy info) @ take n value @ drop (i + n) (bi_entropy info),
               bi_entropy_len := i + n\<rparr>)))"

section \<open>The memory reservation block\<close>

function rsv_loop :: "u8 list \<Rightarrow> nat \<Rightarrow> boot_info \<Rightarrow> boot_info parsed" where
  "rsv_loop blob rsv_off info =
     and_then (be64 blob rsv_off) (\<lambda>base.
     and_then (add_us rsv_off 8) (\<lambda>off8.
     and_then (be64 blob off8) (\<lambda>size.
     and_then (ok_or (checked_us rsv_off 16) (Inr Truncated)) (\<lambda>next.
     if base = 0 \<and> size = 0 then Inr info
     else if size = 0 then rsv_loop blob next info
     else and_then (push_reserved info base size) (\<lambda>info'. rsv_loop blob next info')))))"
  by pat_completeness auto

section \<open>The structure block\<close>

record fdt_header =
  fh_struct_end :: nat
  fh_off_strings :: nat
  fh_strings_end :: nat

record parse_state =
  ps_off :: nat
  ps_addr_cells :: u32
  ps_size_cells :: u32
  ps_depth :: nat
  ps_memory_depth :: "nat option"
  ps_chosen_depth :: "nat option"
  ps_rsv_node :: bool
  ps_rsv_addr_cells :: u32
  ps_rsv_size_cells :: u32
  ps_info :: boot_info

text \<open>Which nodes the parser remembers, by the depth and name of the node it enters.\<close>

definition enter_node :: "nat \<Rightarrow> u8 list \<Rightarrow> parse_state \<Rightarrow> parse_state" where
  "enter_node depth name st =
     (let st1 = st\<lparr>ps_depth := depth\<rparr>;
          st2 = (if depth = 2 \<and> (name = bytes_of ''memory'' \<or> prefix (bytes_of ''memory@'') name)
                 then st1\<lparr>ps_memory_depth := Some depth\<rparr> else st1);
          st3 = (if depth = 2 \<and> name = bytes_of ''chosen'' then st2\<lparr>ps_chosen_depth := Some depth\<rparr> else st2)
      in if depth = 2 \<and> name = bytes_of ''reserved-memory''
         then st3\<lparr>ps_rsv_node := True, ps_rsv_addr_cells := ps_addr_cells st3, ps_rsv_size_cells := ps_size_cells st3\<rparr>
         else st3)"

definition begin_node :: "u8 list \<Rightarrow> fdt_header \<Rightarrow> parse_state \<Rightarrow> parse_state parsed" where
  "begin_node blob h st =
     and_then (add_u32 (ps_depth st) 1) (\<lambda>depth.
     if depth > MAX_DEPTH then Err TooDeep else
     and_then (ok_or (get_range blob (ps_off st) (fh_struct_end h)) (Inr BadStructure)) (\<lambda>rest.
     and_then (ok_or (position0 rest) (Inr BadStructure)) (\<lambda>rel.
     and_then (add_us (ps_off st) rel) (\<lambda>name_end.
     and_then (slice blob (ps_off st) name_end) (\<lambda>name.
     if depth = 1 \<and> name \<noteq> [] then Err BadStructure else
     and_then (add_us name_end 1) (\<lambda>e.
     and_then (align4 e) (\<lambda>off. Inr ((enter_node depth name st)\<lparr>ps_off := off\<rparr>))))))))"

definition end_node :: "parse_state \<Rightarrow> parse_state parsed" where
  "end_node st =
     (if ps_depth st = 0 then Err BadStructure
      else let depth = ps_depth st;
               st1 = (if ps_memory_depth st = Some depth then st\<lparr>ps_memory_depth := None\<rparr> else st);
               st2 = (if ps_chosen_depth st1 = Some depth then st1\<lparr>ps_chosen_depth := None\<rparr> else st1);
               st3 = (if ps_rsv_node st2 \<and> depth = 2 then st2\<lparr>ps_rsv_node := False\<rparr> else st2)
           in and_then (sub_us depth 1) (\<lambda>d. Inr (st3\<lparr>ps_depth := d\<rparr>)))"

text \<open>What a property does with its name and value, by the node it stands in.\<close>

definition prop_effect :: "u8 list \<Rightarrow> u8 list \<Rightarrow> parse_state \<Rightarrow> parse_state parsed" where
  "prop_effect name value st =
     (if ps_depth st = 1 then
        (if name = bytes_of ''#address-cells''
         then and_then (cell_count value) (\<lambda>c. Inr (st\<lparr>ps_addr_cells := c\<rparr>))
         else if name = bytes_of ''#size-cells''
         then and_then (cell_count value) (\<lambda>c. Inr (st\<lparr>ps_size_cells := c\<rparr>))
         else Inr st)
      else if ps_memory_depth st = Some (ps_depth st) \<and> name = bytes_of ''reg'' then
        and_then (push_regions value (ps_addr_cells st) (ps_size_cells st) (ps_info st)) (\<lambda>info.
          Inr (st\<lparr>ps_info := info\<rparr>))
      else if ps_rsv_node st \<and> ps_depth st = 2 then
        (if name = bytes_of ''#address-cells''
         then and_then (cell_count value) (\<lambda>c. Inr (st\<lparr>ps_rsv_addr_cells := c\<rparr>))
         else if name = bytes_of ''#size-cells''
         then and_then (cell_count value) (\<lambda>c. Inr (st\<lparr>ps_rsv_size_cells := c\<rparr>))
         else Inr st)
      else if ps_rsv_node st \<and> ps_depth st = 3 \<and> name = bytes_of ''reg'' then
        and_then (push_reserved_regions value (ps_rsv_addr_cells st) (ps_rsv_size_cells st) (ps_info st)) (\<lambda>info.
          Inr (st\<lparr>ps_info := info\<rparr>))
      else if ps_chosen_depth st = Some (ps_depth st) \<and> (name = bytes_of ''rng-seed'' \<or> name = bytes_of ''kaslr-seed'') then
        and_then (push_entropy value (ps_info st)) (\<lambda>info. Inr (st\<lparr>ps_info := info\<rparr>))
      else Inr st)"

definition prop_node :: "u8 list \<Rightarrow> fdt_header \<Rightarrow> parse_state \<Rightarrow> parse_state parsed" where
  "prop_node blob h st =
     (if ps_depth st = 0 then Err BadStructure else
      and_then (be32_us blob (ps_off st)) (\<lambda>len.
      and_then (add_us (ps_off st) 4) (\<lambda>off4.
      and_then (be32_us blob off4) (\<lambda>name_off.
      and_then (add_us (ps_off st) 8) (\<lambda>val_start.
      and_then (end_within val_start len (fh_struct_end h) Truncated) (\<lambda>val_end.
      and_then (prop_name blob (fh_off_strings h) (fh_strings_end h) name_off) (\<lambda>name.
      and_then (slice blob val_start val_end) (\<lambda>value.
      and_then (prop_effect name value st) (\<lambda>st1.
      and_then (align4 val_end) (\<lambda>off. Inr (st1\<lparr>ps_off := off\<rparr>)))))))))))"

text \<open>One round of the token loop: \<open>Inr None\<close> is the \<^verbatim>\<open>break\<close> at FDT_END.\<close>

definition parse_token :: "u8 list \<Rightarrow> fdt_header \<Rightarrow> parse_state \<Rightarrow> parse_state option parsed" where
  "parse_token blob h st =
     (if ps_off st \<ge> fh_struct_end h then Err BadStructure else
      and_then (be32 blob (ps_off st)) (\<lambda>token.
      and_then (add_us (ps_off st) 4) (\<lambda>off.
      let st1 = st\<lparr>ps_off := off\<rparr> in
      if token = FDT_BEGIN_NODE then and_then (begin_node blob h st1) (\<lambda>st2. Inr (Some st2))
      else if token = FDT_END_NODE then and_then (end_node st1) (\<lambda>st2. Inr (Some st2))
      else if token = FDT_PROP then and_then (prop_node blob h st1) (\<lambda>st2. Inr (Some st2))
      else if token = FDT_NOP then Inr (Some st1)
      else if token = FDT_END then (if ps_depth st1 \<noteq> 0 then Err BadStructure else Inr None)
      else Err BadStructure)))"

function parse_loop :: "u8 list \<Rightarrow> fdt_header \<Rightarrow> parse_state \<Rightarrow> boot_info parsed" where
  "parse_loop blob h st =
     and_then (parse_token blob h st) (\<lambda>r. case r of None \<Rightarrow> Inr (ps_info st) | Some st' \<Rightarrow> parse_loop blob h st')"
  by pat_completeness auto

definition info_new :: "nat \<times> nat \<Rightarrow> boot_info" where
  "info_new dtb = \<lparr>bi_dtb = dtb,
     bi_regions = replicate MAX_MEM_REGIONS \<lparr>mr_base = 0, mr_size = 0\<rparr>, bi_region_count = 0,
     bi_reserved = replicate MAX_RSV_REGIONS \<lparr>mr_base = 0, mr_size = 0\<rparr>, bi_reserved_count = 0,
     bi_entropy = replicate MAX_ENTROPY 0, bi_entropy_len = 0\<rparr>"

definition parse_start :: "nat \<Rightarrow> boot_info \<Rightarrow> parse_state" where
  "parse_start off_struct info = \<lparr>ps_off = off_struct, ps_addr_cells = 2, ps_size_cells = 1, ps_depth = 0,
     ps_memory_depth = None, ps_chosen_depth = None, ps_rsv_node = False,
     ps_rsv_addr_cells = 2, ps_rsv_size_cells = 1, ps_info = info\<rparr>"

definition parse_blob :: "u8 list \<Rightarrow> nat \<times> nat \<Rightarrow> boot_info parsed" where
  "parse_blob blob dtb =
     and_then (be32_us blob 8) (\<lambda>off_struct.
     and_then (be32_us blob 12) (\<lambda>off_strings.
     and_then (be32 blob 20) (\<lambda>version.
     and_then (be32 blob 24) (\<lambda>last_comp_version.
     and_then (be32_us blob 32) (\<lambda>size_strings.
     and_then (be32_us blob 36) (\<lambda>size_struct.
     if version < SUPPORTED_VERSION \<or> last_comp_version > SUPPORTED_VERSION then Err UnsupportedVersion
     else if off_struct mod 4 \<noteq> 0 \<or> size_struct mod 4 \<noteq> 0 then Err BadHeader else
     and_then (end_within off_struct size_struct (length blob) BadHeader) (\<lambda>struct_end.
     and_then (end_within off_strings size_strings (length blob) BadHeader) (\<lambda>strings_end.
     and_then (be32_us blob 16) (\<lambda>off_rsvmap.
     if off_rsvmap mod 8 \<noteq> 0 then Err BadHeader else
     and_then (rsv_loop blob off_rsvmap (info_new dtb)) (\<lambda>info.
     and_then (parse_loop blob \<lparr>fh_struct_end = struct_end, fh_off_strings = off_strings, fh_strings_end = strings_end\<rparr>
         (parse_start off_struct info)) (\<lambda>info'.
     if bi_region_count info' = 0 then Err NoMemory else Inr info')))))))))))"

section \<open>Reading the blob from memory\<close>

text \<open>
  \<open>mem\<close> gives the byte at each address the kernel can read. \<open>dtb_span\<close> looks at the first eight bytes
  only; \<open>parse\<close> reads through the alias at \<open>read_offset\<close> and reports physical addresses.
\<close>

definition read_be32_phys :: "(nat \<Rightarrow> u8) \<Rightarrow> nat \<Rightarrow> u32" where
  "read_be32_phys mem addr = from_be (map mem [addr ..< addr + 4])"

definition dtb_span :: "(nat \<Rightarrow> u8) \<Rightarrow> nat \<Rightarrow> (nat \<times> nat) parsed" where
  "dtb_span mem dtb_phys =
     (if dtb_phys = 0 then Err NullPointer
      else if dtb_phys mod 8 \<noteq> 0 then Err MisalignedDtb
      else if read_be32_phys mem dtb_phys \<noteq> FDT_MAGIC then Err BadMagic
      else and_then (add_us dtb_phys 4) (\<lambda>a.
        let totalsize = read_be32_phys mem a in
        if \<not> (HEADER_SIZE \<le> totalsize \<and> totalsize \<le> MAX_DTB_SIZE) then Err BadHeader
        else and_then (ok_or (checked_us dtb_phys (unat totalsize)) (Inr BadHeader)) (\<lambda>dtb_end.
          Inr (dtb_phys, dtb_end))))"

definition parse :: "(nat \<Rightarrow> u8) \<Rightarrow> nat \<Rightarrow> nat \<times> nat \<Rightarrow> nat \<Rightarrow> boot_info parsed" where
  "parse mem dtb_phys kernel_image read_offset =
     and_then (ok_or (checked_us dtb_phys read_offset) (Inr BadHeader)) (\<lambda>read_base.
     and_then (dtb_span mem read_base) (\<lambda>(rs, re).
     and_then (sub_us re rs) (\<lambda>len.
     and_then (ok_or (checked_us dtb_phys len) (Inr BadHeader)) (\<lambda>dtb_end.
     if dtb_phys < snd kernel_image \<and> fst kernel_image < dtb_end then Err OverlapsKernel
     else parse_blob (map mem [rs ..< rs + len]) (dtb_phys, dtb_end)))))"

section \<open>The cursor moves forward\<close>

lemmas parsed_iffs = and_then_Inr and_then_Inl ok_or_Inr ok_or_Inl

lemma get_range_Some: "get_range xs a b = Some ys \<longleftrightarrow> a \<le> b \<and> b \<le> length xs \<and> ys = take (b - a) (drop a xs)"
  by (auto simp: get_range_def)

lemma get_range_wrap:
  "get_range xs a (wrap_us a n) = Some ys \<Longrightarrow> 0 < n \<Longrightarrow> n < 2 ^ 64 \<Longrightarrow> a + n \<le> length xs \<and> a + n < 2 ^ 64 \<and> ys = take n (drop a xs)"
proof -
  assume r: "get_range xs a (wrap_us a n) = Some ys" and n: "0 < n" "n < 2 ^ 64"
  have le: "a \<le> (a + n) mod 2 ^ 64" using r by (simp add: get_range_Some wrap_us_def)
  have "a + n < 2 ^ 64"
  proof (rule ccontr)
    assume big: "\<not> a + n < 2 ^ 64"
    have lt: "a < 2 ^ 64" using le mod_less_divisor [of "2 ^ 64" "a + n"] by (simp del: mod_less_divisor)
    have "(a + n) mod 2 ^ 64 = (a + n - 2 ^ 64) mod 2 ^ 64" using big by (intro le_mod_geq) simp
    also have "\<dots> = a + n - 2 ^ 64" using lt n by (intro mod_less) linarith
    finally show False using le n big by linarith
  qed
  then show ?thesis using r by (simp add: get_range_Some wrap_us_def)
qed

lemma be32_Inr: "be32 blob off = Inr v \<Longrightarrow> off + 4 \<le> length blob \<and> off + 4 < 2 ^ 64 \<and> v = from_be (take 4 (drop off blob))"
  by (auto simp: be32_def parsed_iffs dest!: get_range_wrap)

lemma be64_Inr: "be64 blob off = Inr v \<Longrightarrow> off + 8 \<le> length blob \<and> off + 8 < 2 ^ 64 \<and> v = from_be (take 8 (drop off blob))"
  by (auto simp: be64_def parsed_iffs dest!: get_range_wrap)

termination rsv_loop
  by (relation "measure (\<lambda>(blob, off, info). length blob - off)")
    (auto simp: checked_us_def parsed_iffs dest!: be64_Inr split: if_splits)

lemma align4_Inr: "align4 x = Inr y \<Longrightarrow> x \<le> y \<and> y < x + 4"
  by (auto simp: align4_def ok_or_Inr checked_us_def split: if_splits)

lemma begin_node_off: "begin_node blob h st = Inr st' \<Longrightarrow> ps_off st < ps_off st'"
  by (auto simp: begin_node_def Let_def parsed_iffs add_us_def split: if_splits dest!: align4_Inr)

lemma end_node_off: "end_node st = Inr st' \<Longrightarrow> ps_off st' = ps_off st"
  by (auto simp: end_node_def Let_def parsed_iffs split: if_splits)

lemma prop_node_off: "prop_node blob h st = Inr st' \<Longrightarrow> ps_off st < ps_off st'"
  by (auto simp: prop_node_def parsed_iffs add_us_def end_within_def checked_us_def
      split: if_splits option.splits dest!: align4_Inr)

lemma parse_token_off:
  "parse_token blob h st = Inr (Some st') \<Longrightarrow> ps_off st < ps_off st' \<and> ps_off st < length blob"
  by (auto simp: parse_token_def Let_def parsed_iffs add_us_def split: if_splits
      dest!: be32_Inr begin_node_off end_node_off prop_node_off)

termination parse_loop
proof (relation "measure (\<lambda>(blob, h, st). length blob - ps_off st)", goal_cases)
  case (2 blob h st r st')
  then show ?case using parse_token_off [of blob h st st'] by (simp add: diff_less_mono2)
qed simp

declare rsv_loop.simps [simp del] parse_loop.simps [simp del]

end
