(* ===== verification/Boot.thy ===== *)
theory Boot
  imports Trap Fdt
begin

text \<open>
  The boot sequence (\<^verbatim>\<open>kernel/src/main.rs\<close>, \<^verbatim>\<open>crates/k0-boot/src/{entropy,roottask}.rs\<close>): from the
  device tree the boot loader passed to the first instruction of the root task.

  What the boot code reads but does not compute is a parameter: the linker symbols, the identification
  and random number registers, the answers of the AT instruction, the hash function of the \<^verbatim>\<open>sha2\<close> crate
  and the root task image that the build embeds. The log goes to the console of the state the boot ends
  in; what a rejected boot printed before it parked is not modelled.
\<close>

section \<open>Inputs\<close>

text \<open>The symbols of the linker script and the statics whose address matters, as physical load addresses.\<close>

record symbols =
  sy_kernel_start :: u64
  sy_kernel_end :: u64
  sy_rodata_start :: u64
  sy_data_start :: u64
  sy_stack_bottom :: u64
  sy_stack_top :: u64
  sy_pool :: u64
  sy_root_tcb :: u64

text \<open>After the jump a symbol is its link address in the higher half.\<close>

definition sym_va :: "u64 \<Rightarrow> u64" where
  "sym_va s = s + KERNEL_VA_OFFSET"

datatype at_op = S1E1R | S1E1W | S1E1RP | S1E0R | S1E0W

text \<open>\<open>hw_at\<close> is the value PAR_EL1 holds after an AT instruction, under given registers and tables.\<close>

record hardware =
  hw_pc :: u64
  hw_mmfr0 :: u64
  hw_cntpct :: u64
  hw_isar0 :: u64
  hw_rndr :: u64
  hw_rndr_ok :: bool
  hw_isar1 :: u64
  hw_pfr1 :: u64
  hw_mmfr1 :: u64
  hw_dfr0 :: u64
  hw_gic :: "nat \<Rightarrow> u32"
  hw_sre :: u64
  hw_freq :: u64
  hw_at :: "at_op \<Rightarrow> mmu_regs \<Rightarrow> pool \<Rightarrow> memory \<Rightarrow> u64 \<Rightarrow> u64"

section \<open>The root task image\<close>

datatype rt_seg_kind = RtText | RtRo | RtRw

record rt_segment =
  rt_va :: u64
  rt_memsz :: u64
  rt_kind :: rt_seg_kind

text \<open>The constants of the generated \<^verbatim>\<open>roottask_gen.rs\<close>.\<close>

record root_image =
  ri_image :: "u8 list"
  ri_sha256 :: "u8 list"
  ri_base :: u64
  ri_entry :: u64
  ri_segments :: "rt_segment list"

record verified_root_task =
  vr_image :: "u8 list"
  vr_sha256 :: "u8 list"
  vr_base :: u64
  vr_entry :: u64
  vr_segments :: "rt_segment list"

datatype verify_error = HashMismatch

definition verify_root_task :: "(u8 list \<Rightarrow> u8 list) \<Rightarrow> root_image \<Rightarrow> verify_error + verified_root_task" where
  "verify_root_task sha256 ri =
     (let hash = sha256 (ri_image ri)
      in if hash \<noteq> ri_sha256 ri then Inl HashMismatch
         else Inr \<lparr>vr_image = ri_image ri, vr_sha256 = hash, vr_base = ri_base ri, vr_entry = ri_entry ri,
                   vr_segments = ri_segments ri\<rparr>)"

section \<open>Boot keys (entropy.rs)\<close>

definition le_bytes :: "u64 \<Rightarrow> u8 list" where
  "le_bytes w = map (\<lambda>i. ucast (drop_bit (8 * i) w)) [0..<8]"

definition from_le :: "u8 list \<Rightarrow> u64" where
  "from_le bs = foldr (\<lambda>b acc. push_bit 8 acc OR ucast b) bs 0"

definition key_material :: "u8 list \<Rightarrow> u64 list \<Rightarrow> u8 \<Rightarrow> u8 list" where
  "key_material dtb_entropy extra counter =
     bytes_of ''k0-pac-boot-key-v1'' @ [counter] @ le_bytes (of_nat (length dtb_entropy)) @ dtb_entropy
     @ concat (map le_bytes extra)"

function pac_loop :: "(u8 list \<Rightarrow> u8 list) \<Rightarrow> u8 list \<Rightarrow> u64 list \<Rightarrow> nat \<Rightarrow> u64 list \<Rightarrow> halt + u64 list" where
  "pac_loop sha256 dtb_entropy extra counter keys =
     (if length keys < 10 then
        (let block = sha256 (key_material dtb_entropy extra (of_nat counter));
             keys' = keys @ take (10 - length keys) (map from_le (chunks_exact 8 block))
         in if counter + 1 < 256 then pac_loop sha256 dtb_entropy extra (counter + 1) keys' else Inl Panic)
      else Inr keys)"
  by pat_completeness auto
termination
  by (relation "measure (\<lambda>(_, _, _, counter, _). 256 - counter)") auto

declare pac_loop.simps [simp del]

definition derive_pac_keys :: "(u8 list \<Rightarrow> u8 list) \<Rightarrow> u8 list \<Rightarrow> u64 list \<Rightarrow> halt + u64 list" where
  "derive_pac_keys sha256 dtb_entropy extra = pac_loop sha256 dtb_entropy extra 0 []"

section \<open>The address space before the jump\<close>

definition sub_pn :: "u64 \<Rightarrow> u64 \<Rightarrow> halt + u64" where
  "sub_pn a b = (if b \<le> a then Inr (a - b) else Inl Panic)"

definition sym_pa :: "u64 \<Rightarrow> halt + u64" where
  "sym_pa s = sub_pn s KERNEL_VA_OFFSET"

definition MMIO_BASE :: "platform \<Rightarrow> u64" where
  "MMIO_BASE p = (case p of Virt \<Rightarrow> 0x09000000 | Apple \<Rightarrow> 0x235200000)"

definition device_windows :: "platform \<Rightarrow> range list" where
  "device_windows p =
     (let uart = \<lparr>r_start = MMIO_BASE p, r_end = MMIO_BASE p + GRANULE p\<rparr>
      in case p of
           Virt \<Rightarrow> [uart, \<lparr>r_start = GICD_BASE, r_end = GICD_BASE + GICD_SIZE\<rparr>, \<lparr>r_start = GICR_BASE, r_end = GICR_BASE + GICR_SIZE\<rparr>]
         | Apple \<Rightarrow> [uart, \<lparr>r_start = 0, r_end = 0\<rparr>, \<lparr>r_start = 0, r_end = 0\<rparr>])"

definition boot_layout :: "platform \<Rightarrow> symbols \<Rightarrow> nat \<times> nat \<Rightarrow> halt + kernel_layout" where
  "boot_layout p sy dtb =
     and_then (sub_pn (sy_stack_bottom sy) (GRANULE p)) (\<lambda>guard.
       Inr \<lparr>kl_text = \<lparr>r_start = sy_kernel_start sy, r_end = sy_rodata_start sy\<rparr>,
            kl_rodata = \<lparr>r_start = sy_rodata_start sy, r_end = sy_data_start sy\<rparr>,
            kl_rw0 = \<lparr>r_start = sy_data_start sy, r_end = guard\<rparr>,
            kl_rw1 = \<lparr>r_start = sy_stack_bottom sy, r_end = sy_stack_top sy\<rparr>,
            kl_dtb = \<lparr>r_start = of_nat (fst dtb), r_end = of_nat (snd dtb)\<rparr>,
            kl_devices = device_windows p\<rparr>)"

definition enable_mmu ::
  "platform \<Rightarrow> symbols \<Rightarrow> hardware \<Rightarrow> nat \<times> nat \<Rightarrow> mmu_regs \<Rightarrow> halt + (pool \<times> mmu_regs)" where
  "enable_mmu p sy hw dtb regs =
     and_then (boot_layout p sy dtb) (\<lambda>layout.
     and_then (enable_paging p (hw_mmfr0 hw) layout (POOL (sy_pool sy)) regs) (\<lambda>r.
       case r of Inl e \<Rightarrow> Inl BootRejected | Inr res \<Rightarrow> Inr res))"

text \<open>
  The bytes of memory, at the addresses of the TTBR1 alias. Before the jump the code reads through the
  identity mapping, where physical memory is the same.
\<close>

definition mem_byte :: "memory \<Rightarrow> nat \<Rightarrow> u8" where
  "mem_byte mem a = ucast (drop_bit (8 * (a mod 8)) (mem (of_nat (a - a mod 8))))"

definition parsed_or_park :: "'a parsed \<Rightarrow> halt + 'a" where
  "parsed_or_park r = (case r of Inl (Inl h) \<Rightarrow> Inl h | Inl (Inr e) \<Rightarrow> Inl BootRejected | Inr x \<Rightarrow> Inr x)"

definition kernel_init ::
  "platform \<Rightarrow> symbols \<Rightarrow> hardware \<Rightarrow> nat \<Rightarrow> memory \<Rightarrow> mmu_regs
     \<Rightarrow> halt + (pool \<times> mmu_regs \<times> console_item list)" where
  "kernel_init p sy hw dtb_phys mem regs =
     and_then (parsed_or_park (dtb_span (\<lambda>a. mem_byte mem (a + unat KERNEL_VA_OFFSET)) dtb_phys)) (\<lambda>dtb.
     and_then (enable_mmu p sy hw dtb regs) (\<lambda>(pl, regs1).
       Inr (pl, regs1, [BootLog ''k0: entry phase 1 (pre-MMU)'' [], BootLog ''k0: dtb = '' [of_nat dtb_phys],
                        BootLog ''k0: mmu on (identity + higher-half alias)'' [], BootLog ''k0: jumping to higher half'' []])))"

section \<open>Self-checks with the AT instruction\<close>

definition probe :: "at_op \<Rightarrow> hardware \<Rightarrow> mmu_regs \<Rightarrow> pool \<Rightarrow> memory \<Rightarrow> u64 \<Rightarrow> bool" where
  "probe op hw regs pl mem va \<longleftrightarrow> hw_at hw op regs pl mem va AND 1 = 0"

definition can_read :: "hardware \<Rightarrow> mmu_regs \<Rightarrow> pool \<Rightarrow> memory \<Rightarrow> u64 \<Rightarrow> bool" where
  "can_read = probe S1E1R"
definition can_write :: "hardware \<Rightarrow> mmu_regs \<Rightarrow> pool \<Rightarrow> memory \<Rightarrow> u64 \<Rightarrow> bool" where
  "can_write = probe S1E1W"
definition can_read_pan_checked :: "hardware \<Rightarrow> mmu_regs \<Rightarrow> pool \<Rightarrow> memory \<Rightarrow> u64 \<Rightarrow> bool" where
  "can_read_pan_checked = probe S1E1RP"
definition can_user_read :: "hardware \<Rightarrow> mmu_regs \<Rightarrow> pool \<Rightarrow> memory \<Rightarrow> u64 \<Rightarrow> bool" where
  "can_user_read = probe S1E0R"
definition can_user_write :: "hardware \<Rightarrow> mmu_regs \<Rightarrow> pool \<Rightarrow> memory \<Rightarrow> u64 \<Rightarrow> bool" where
  "can_user_write = probe S1E0W"

lemmas probe_defs = can_read_def can_write_def can_read_pan_checked_def can_user_read_def can_user_write_def

text \<open>A table of (measured, wanted): the boot goes on when every row agrees.\<close>

definition run_checks :: "(bool \<times> bool) list \<Rightarrow> halt + unit" where
  "run_checks checks = (if list_all (\<lambda>(got, want). got = want) checks then Inr () else Inl BootRejected)"

definition check_wx :: "platform \<Rightarrow> symbols \<Rightarrow> hardware \<Rightarrow> mmu_regs \<Rightarrow> pool \<Rightarrow> memory \<Rightarrow> halt + unit" where
  "check_wx p sy hw regs pl mem =
     (let text = sym_va (sy_kernel_start sy)
      in and_then (sub_pn (sym_va (sy_stack_bottom sy)) (GRANULE p)) (\<lambda>guard.
         and_then (sub_pn (sym_va (sy_stack_top sy)) (GRANULE p)) (\<lambda>stack.
         and_then (sub_pn text KERNEL_VA_OFFSET) (\<lambda>ident.
           run_checks
             [(can_read hw regs pl mem text, True),
              (can_write hw regs pl mem text, False),
              (can_write hw regs pl mem (sym_va (sy_rodata_start sy)), False),
              (can_read hw regs pl mem guard, False),
              (can_write hw regs pl mem stack, True),
              (can_read hw regs pl mem ident, True)]))))"

definition check_user_wx ::
  "platform \<Rightarrow> symbols \<Rightarrow> hardware \<Rightarrow> load_seg list \<Rightarrow> hardening \<Rightarrow> mmu_regs \<Rightarrow> pool \<Rightarrow> memory \<Rightarrow> halt + unit" where
  "check_user_wx p sy hw segs hard regs pl mem =
     (case find (\<lambda>s. ls_kind s = SegText) segs of
        None \<Rightarrow> Inl BootRejected
      | Some s \<Rightarrow>
          (let text = ls_va s; g = GRANULE p; ktext_va = sym_va (sy_kernel_start sy)
           in and_then (sub_pn USER_STACK_TOP USER_STACK_SIZE) (\<lambda>low.
              and_then (sub_pn low g) (\<lambda>guard.
              and_then (sub_pn USER_STACK_TOP g) (\<lambda>stack.
              and_then (sub_pn ktext_va KERNEL_VA_OFFSET) (\<lambda>ident.
                run_checks
                  [(can_user_read hw regs pl mem text, True),
                   (can_user_write hw regs pl mem text, False),
                   (can_user_write hw regs pl mem stack, True),
                   (can_user_read hw regs pl mem guard, False),
                   (can_user_read hw regs pl mem ktext_va, False),
                   (can_user_read hw regs pl mem BOOTINFO_VA, True),
                   (can_user_write hw regs pl mem BOOTINFO_VA, False),
                   (if hd_pan2 hard then (can_read_pan_checked hw regs pl mem text, False)
                    else (can_read hw regs pl mem text, True)),
                   (can_read hw regs pl mem ident, False)]))))))"

section \<open>The memory map\<close>

fun clear_of :: "range \<Rightarrow> mem_region list \<Rightarrow> halt + unit" where
  "clear_of dev [] = Inr ()"
| "clear_of dev (m # ms) =
     (if mr_base m < r_end dev
      then and_then (add_pn (mr_base m) (mr_size m)) (\<lambda>e.
             if r_start dev < e then Inl BootRejected else clear_of dev ms)
      else clear_of dev ms)"

fun clear_of_devices :: "range list \<Rightarrow> mem_region list \<Rightarrow> halt + unit" where
  "clear_of_devices [] ms = Inr ()"
| "clear_of_devices (dev # devs) ms =
     (if r_end dev \<le> r_start dev then clear_of_devices devs ms
      else and_then (clear_of dev ms) (\<lambda>_. clear_of_devices devs ms))"

definition check_memory_map :: "platform \<Rightarrow> boot_info \<Rightarrow> halt + unit" where
  "check_memory_map p info = clear_of_devices (device_windows p) (bi_memory_list info)"

section \<open>The boot window\<close>

definition WINDOW_SIZE :: u64 where "WINDOW_SIZE = 2 * 1024 * 1024"

text \<open>One pass over the obstacles: the new start and whether it moved; \<open>None\<close> is the \<^verbatim>\<open>?\<close> of an overflow.\<close>

fun bump :: "platform \<Rightarrow> u64 \<Rightarrow> mem_region list \<Rightarrow> u64 \<Rightarrow> bool \<Rightarrow> (u64 \<times> bool) option" where
  "bump p end [] start bumped = Some (start, bumped)"
| "bump p end (r # rs) start bumped =
     (case checked_add (mr_base r) (mr_size r) of
        None \<Rightarrow> None
      | Some re \<Rightarrow>
          if re > start \<and> mr_base r < end
          then (case align_up p re of
                  None \<Rightarrow> None
                | Some a \<Rightarrow> bump p end rs (max start a) True)
          else bump p end rs start bumped)"

fun inside_some :: "u64 \<Rightarrow> u64 \<Rightarrow> mem_region list \<Rightarrow> halt + bool" where
  "inside_some start end [] = Inr False"
| "inside_some start end (m # ms) =
     (if mr_base m \<le> start
      then and_then (add_pn (mr_base m) (mr_size m)) (\<lambda>e.
             if end \<le> e then Inr True else inside_some start end ms)
      else inside_some start end ms)"

fun min_of :: "u64 list \<Rightarrow> u64 option" where
  "min_of [] = None"
| "min_of (x # xs) = (case min_of xs of None \<Rightarrow> Some x | Some y \<Rightarrow> Some (min x y))"

fun pick_loop :: "platform \<Rightarrow> mem_region list \<Rightarrow> mem_region list \<Rightarrow> nat \<Rightarrow> u64 \<Rightarrow> halt + range option" where
  "pick_loop p obstacles memory 0 start = Inr None"
| "pick_loop p obstacles memory (Suc n) start =
     (case checked_add start WINDOW_SIZE of
        None \<Rightarrow> Inr None
      | Some end \<Rightarrow>
          (case bump p end obstacles start False of
             None \<Rightarrow> Inr None
           | Some (start', True) \<Rightarrow> pick_loop p obstacles memory n start'
           | Some (start', False) \<Rightarrow>
               and_then (inside_some start' end memory) (\<lambda>inside.
                 if inside then Inr (Some \<lparr>r_start = start', r_end = end\<rparr>)
                 else (case min_of (filter (\<lambda>b. b > start') (map mr_base memory)) of
                         None \<Rightarrow> Inr None
                       | Some nxt \<Rightarrow>
                           (case align_up p nxt of None \<Rightarrow> Inr None | Some s \<Rightarrow> pick_loop p obstacles memory n s)))))"

definition dtb_region :: "boot_info \<Rightarrow> halt + mem_region" where
  "dtb_region info =
     (if fst (bi_dtb info) \<le> snd (bi_dtb info)
      then Inr \<lparr>mr_base = of_nat (fst (bi_dtb info)), mr_size = of_nat (snd (bi_dtb info) - fst (bi_dtb info))\<rparr>
      else Inl Panic)"

definition pick_window :: "platform \<Rightarrow> boot_info \<Rightarrow> u64 \<Rightarrow> halt + range option" where
  "pick_window p info kernel_end =
     and_then (dtb_region info) (\<lambda>dtb.
       case align_up p kernel_end of
         None \<Rightarrow> Inr None
       | Some start \<Rightarrow> pick_loop p (dtb # bi_reserved_list info) (bi_memory_list info) 64 start)"

section \<open>The sequence\<close>

definition phys_of :: "mem_region \<Rightarrow> phys_region" where
  "phys_of r = \<lparr>pr_base = mr_base r, pr_size = mr_size r\<rparr>"

definition seg_of :: "rt_segment \<Rightarrow> load_seg" where
  "seg_of s = \<lparr>ls_va = rt_va s, ls_memsz = rt_memsz s,
     ls_kind = (case rt_kind s of RtText \<Rightarrow> SegText | RtRo \<Rightarrow> SegRo | RtRw \<Rightarrow> SegRw)\<rparr>"

text \<open>The kernel image, the device tree and the window, then what the device tree reserves.\<close>

definition reserved_regions :: "u64 \<Rightarrow> u64 \<Rightarrow> boot_info \<Rightarrow> range \<Rightarrow> halt + phys_region list" where
  "reserved_regions image_start image_end info window =
     and_then (sub_pn image_end image_start) (\<lambda>image_size.
     and_then (dtb_region info) (\<lambda>dtb.
     and_then (sub_pn (r_end window) (r_start window)) (\<lambda>window_size.
       Inr ([\<lparr>pr_base = image_start, pr_size = image_size\<rparr>, phys_of dtb, \<lparr>pr_base = r_start window, pr_size = window_size\<rparr>]
            @ map phys_of (bi_reserved_list info)))))"

text \<open>A fallible step of the boot: an error parks the core.\<close>

definition or_park :: "halt + (('e + 'a) \<times> 'b) \<Rightarrow> halt + ('a \<times> 'b)" where
  "or_park m = and_then m (\<lambda>(r, s). case r of Inl e \<Rightarrow> Inl BootRejected | Inr x \<Rightarrow> Inr (x, s))"

definition flag :: "bool \<Rightarrow> u64" where
  "flag b = (if b then 1 else 0)"

text \<open>Phases 1 and 2: checks, device tree, root task image, keys and hardening, interrupts.\<close>

record boot_facts =
  bf_image_start :: u64
  bf_image_end :: u64
  bf_info :: boot_info
  bf_task :: verified_root_task
  bf_hard :: hardening
  bf_hard_regs :: hard_regs
  bf_interval :: u64
  bf_io :: "io_write list"
  bf_log :: "console_item list"

definition region_log :: "string \<Rightarrow> mem_region \<Rightarrow> console_item" where
  "region_log s r = BootLog s [mr_base r, mr_size r]"

definition boot_phase2 ::
  "platform \<Rightarrow> symbols \<Rightarrow> hardware \<Rightarrow> (u8 list \<Rightarrow> u8 list) \<Rightarrow> root_image \<Rightarrow> nat \<Rightarrow> hard_regs
     \<Rightarrow> mmu_regs \<Rightarrow> pool \<Rightarrow> memory \<Rightarrow> console_item list \<Rightarrow> halt + boot_facts" where
  "boot_phase2 p sy hw sha256 ri dtb_phys hr regs pl mem con =
     and_then (check_wx p sy hw regs pl mem) (\<lambda>_.
     and_then (sym_pa (sym_va (sy_kernel_start sy))) (\<lambda>image_start.
     and_then (sym_pa (sym_va (sy_kernel_end sy))) (\<lambda>image_end.
     and_then (parsed_or_park (parse (mem_byte mem) dtb_phys (unat image_start, unat image_end) (unat KERNEL_VA_OFFSET))) (\<lambda>info.
     and_then (check_memory_map p info) (\<lambda>_.
     case verify_root_task sha256 ri of
       Inl e \<Rightarrow> Inl BootRejected
     | Inr rt \<Rightarrow>
         let rnd = rndr (hw_isar0 hw) (hw_rndr hw) (hw_rndr_ok hw);
             entropy = bi_entropy_bytes info
         in and_then (derive_pac_keys sha256 entropy [hw_cntpct hw, (case rnd of Some v \<Rightarrow> v | None \<Rightarrow> 0)]) (\<lambda>pac_keys.
            let (hard, hr') = hardening_enable (hw_isar1 hw) (hw_pfr1 hw) (hw_mmfr1 hw) (hw_dfr0 hw) pac_keys
                                (hr\<lparr>hr_sctlr := sctlr_el1 regs\<rparr>)
            in case irq_init p (hw_gic hw) (hw_sre hw) (hw_freq hw) of
                 (Inl e, ws) \<Rightarrow> Inl BootRejected
               | (Inr (interval, daif), ws) \<Rightarrow>
                   Inr \<lparr>bf_image_start = image_start, bf_image_end = image_end, bf_info = info, bf_task = rt,
                        bf_hard = hard, bf_hard_regs = hr', bf_interval = interval, bf_io = ws,
                        bf_log = con
                          @ [BootLog ''k0: higher half'' [hw_pc hw], BootLog ''k0: w^x checks pass'' [GRANULE p div 1024]]
                          @ map (region_log ''k0: memory'') (bi_memory_list info)
                          @ map (region_log ''k0: dtb reserved'') (bi_reserved_list info)
                          @ [BootLog ''k0: root task integrity ok'' (of_nat (length (vr_image rt)) # map ucast (take 4 (vr_sha256 rt))),
                             BootLog ''k0: entropy'' [of_nat (length entropy), flag (rnd \<noteq> None)]]
                          @ (if entropy = [] \<and> rnd = None then [BootLog ''k0: WARNING pac key entropy low'' []] else [])
                          @ [BootLog ''k0: hardening'' [flag (hd_pac hard), flag (hd_bti hard), flag (hd_pan hard)],
                             BootLog ''k0: irq on'' []]\<rparr>))))))"

text \<open>
  Phase 3: window, frames, root task, capabilities, bootinfo, and the handoff. \<open>root\<close> is the address of
  \<^verbatim>\<open>ROOT_TCB\<close>; before it no control block and no endpoint exists, so the two views of memory start zeroed.
\<close>

definition boot_phase3 ::
  "platform \<Rightarrow> symbols \<Rightarrow> hardware \<Rightarrow> boot_facts \<Rightarrow> mmu_regs \<Rightarrow> pool \<Rightarrow> memory \<Rightarrow> halt + kstate" where
  "boot_phase3 p sy hw bf regs pl mem =
     (let info = bf_info bf; rt = bf_task bf; root = sym_va (sy_root_tcb sy)
      in and_then (pick_window p info (bf_image_end bf)) (\<lambda>w.
         case w of None \<Rightarrow> Inl BootRejected | Some window \<Rightarrow>
         and_then (or_park (map_kernel_window p window pl)) (\<lambda>(_, pl1).
         case frame_alloc_new p window of Inl e \<Rightarrow> Inl BootRejected | Inr fa0 \<Rightarrow>
         and_then (or_park (frame_alloc_alloc p fa0 mem)) (\<lambda>(bi_frame, fa1, mem1).
         if 4 < length (vr_segments rt) then Inl BootRejected else
         let segs = map seg_of (vr_segments rt)
         in and_then (or_park (spawn_root p (vr_image rt) (vr_base rt) (vr_entry rt) segs bi_frame fa1 mem1 tcb_zeroed))
              (\<lambda>((tcb, user_root), fa2, mem2).
         and_then (reserved_regions (bf_image_start bf) (bf_image_end bf) info window) (\<lambda>reserved.
         and_then (bootstrap (map phys_of (bi_memory_list info)) reserved user_root) (\<lambda>c.
         case c of Inl e \<Rightarrow> Inl BootRejected | Inr cn \<Rightarrow>
         and_then (write_bootinfo p bi_frame cn mem2) (\<lambda>mem3.
         let regs1 = install_user_ttbr0 user_root (regs\<lparr>sctlr_el1 := hr_sctlr (bf_hard_regs bf)\<rparr>)
         in and_then (check_user_wx p sy hw segs (bf_hard bf) regs1 pl1 mem3) (\<lambda>_.
         let untyped = filter (\<lambda>c. case c of CapUntyped _ _ _ \<Rightarrow> True | _ \<Rightarrow> False) (cnode_slots cn)
         in Inr (handoff root
              \<lparr>ks_cnode = cn, ks_pool = pl1, ks_sched = \<lparr>sc_current = 0, sc_head = 0, sc_tail = 0\<rparr>,
               ks_tcbs = (\<lambda>_. tcb_zeroed)(root := tcb), ks_eps = (\<lambda>_. \<lparr>e_head = 0, e_tail = 0\<rparr>),
               ks_mem = mem3, ks_regs = regs1, ks_ctx = 0,
               ks_console = bf_log bf
                 @ [BootLog ''k0: kernel table pool'' [of_nat (fst (table_pool_usage pl1)), of_nat (snd (table_pool_usage pl1))],
                    BootLog ''k0: root task loaded'' [vr_entry rt, user_root]]
                 @ map (\<lambda>c. case c of CapUntyped b n _ \<Rightarrow> BootLog ''k0: untyped'' [b, n] | _ \<Rightarrow> BootLog [] []) untyped
                 @ [BootLog ''k0: root cnode ready'' [of_nat (length (cnode_slots cn)), of_nat (length untyped)],
                    BootLog ''k0: bootinfo page ready'' [], BootLog ''k0: user w^x checks pass'' [],
                    BootLog ''k0: entering root task (el0)'' []]\<rparr>))))))))))"

definition kernel_main ::
  "platform \<Rightarrow> symbols \<Rightarrow> hardware \<Rightarrow> (u8 list \<Rightarrow> u8 list) \<Rightarrow> root_image \<Rightarrow> nat \<Rightarrow> hard_regs
     \<Rightarrow> mmu_regs \<Rightarrow> pool \<Rightarrow> memory \<Rightarrow> console_item list \<Rightarrow> halt + machine" where
  "kernel_main p sy hw sha256 ri dtb_phys hr regs pl mem con =
     and_then (boot_phase2 p sy hw sha256 ri dtb_phys hr regs pl mem con) (\<lambda>bf.
     and_then (boot_phase3 p sy hw bf regs pl mem) (\<lambda>ks.
       Inr \<lparr>mc_ks = ks, mc_ticks = 0, mc_timer = Some (bf_interval bf), mc_eoi = []\<rparr>))"

text \<open>From the entry of the Rust code to the root task.\<close>

definition kernel_boot ::
  "platform \<Rightarrow> symbols \<Rightarrow> hardware \<Rightarrow> (u8 list \<Rightarrow> u8 list) \<Rightarrow> root_image \<Rightarrow> nat \<Rightarrow> hard_regs
     \<Rightarrow> mmu_regs \<Rightarrow> memory \<Rightarrow> halt + machine" where
  "kernel_boot p sy hw sha256 ri dtb_phys hr regs mem =
     and_then (kernel_init p sy hw dtb_phys mem regs) (\<lambda>(pl, regs1, con).
       kernel_main p sy hw sha256 ri dtb_phys hr regs1 pl mem con)"

end
