(* ===== verification/FdtSafe.thy ===== *)
theory FdtSafe
  imports Fdt
begin

text \<open>
  The device tree parser on arbitrary input: it never panics, it reads the blob only, its token loop ends,
  and a result is within the bounds the rest of the boot sequence relies on.
\<close>

section \<open>No input makes the parser panic\<close>

text \<open>\<open>safe P r\<close>: \<open>r\<close> is not a panic, and if it is a value, the value satisfies \<open>P\<close>.\<close>

definition safe :: "('a \<Rightarrow> bool) \<Rightarrow> 'a parsed \<Rightarrow> bool" where
  "safe P r \<longleftrightarrow> (case r of Inl (Inl _) \<Rightarrow> False | Inl (Inr _) \<Rightarrow> True | Inr a \<Rightarrow> P a)"

lemma safe_simps [simp]: "safe P (Inr a) = P a" "safe P (Err e)" "\<not> safe P panicked"
  by (simp_all add: safe_def)

lemma safe_bind: "safe P m \<Longrightarrow> (\<And>a. P a \<Longrightarrow> safe Q (f a)) \<Longrightarrow> safe Q (and_then m f)"
  by (fastforce simp: safe_def and_then_def split: sum.splits)

lemma safe_mono: "safe P m \<Longrightarrow> (\<And>a. P a \<Longrightarrow> Q a) \<Longrightarrow> safe Q m"
  by (auto simp: safe_def split: sum.splits)

lemma safe_if: "(c \<Longrightarrow> safe P a) \<Longrightarrow> (\<not> c \<Longrightarrow> safe P b) \<Longrightarrow> safe P (if c then a else b)"
  by simp

named_theorems safe_intros \<open>outcomes of the parser's primitives\<close>

lemma safe_ok_or [safe_intros]: "safe (\<lambda>x. m = Some x) (ok_or m (Inr e))"
  by (cases m) simp_all

lemma safe_be32 [safe_intros]: "safe (\<lambda>v. off + 4 \<le> length blob \<and> v = from_be (take 4 (drop off blob))) (be32 blob off)"
  by (cases "get_range blob off (wrap_us off 4)") (auto simp: be32_def dest!: get_range_wrap)

lemma safe_be64 [safe_intros]: "safe (\<lambda>v. off + 8 \<le> length blob) (be64 blob off)"
  by (cases "get_range blob off (wrap_us off 8)") (auto simp: be64_def dest!: get_range_wrap)

lemma safe_be32_us [safe_intros]: "safe (\<lambda>v. off + 4 \<le> length blob \<and> v < 2 ^ 32) (be32_us blob off)"
proof -
  have "unat (w :: u32) < 2 ^ 32" for w using unsigned_less [of w] by simp
  then show ?thesis unfolding be32_us_def by (intro safe_bind [OF safe_be32]) auto
qed

lemma safe_add_us [safe_intros]: "a + b < 2 ^ 64 \<Longrightarrow> safe (\<lambda>x. x = a + b) (add_us a b)"
  by (simp add: add_us_def)

lemma safe_slice [safe_intros]: "a \<le> b \<Longrightarrow> b \<le> length xs \<Longrightarrow> safe (\<lambda>ys. ys = take (b - a) (drop a xs)) (slice xs a b)"
  by (simp add: slice_def get_range_def)

lemma safe_align4 [safe_intros]: "safe (\<lambda>_. True) (align4 x)"
  by (auto simp: align4_def checked_us_def)

lemma safe_end_within [safe_intros]: "safe (\<lambda>x. x = a + b \<and> x \<le> limit) (end_within a b limit e)"
  by (simp add: end_within_def checked_us_def)

lemma position0_le: "position0 xs = Some n \<Longrightarrow> n < length xs"
  by (induction xs arbitrary: n) (auto simp: position0_def split: if_splits)

lemma safe_prop_name:
  "strings_end \<le> length blob \<Longrightarrow> length blob < 2 ^ 63 \<Longrightarrow> safe (\<lambda>_. True) (prop_name blob off_strings strings_end name_off)"
  unfolding prop_name_def
  by (auto simp: checked_us_def intro!: safe_if safe_bind [OF safe_slice] safe_bind [OF safe_ok_or] safe_bind [OF safe_add_us]
      safe_mono [OF safe_slice] dest!: position0_le)

text \<open>The part of the result that the loops maintain.\<close>

definition regions_ok :: "mem_region list \<Rightarrow> nat \<Rightarrow> bool" where
  "regions_ok rs n \<longleftrightarrow> n \<le> length rs \<and>
     (\<forall>r \<in> set (take n rs). mr_size r \<noteq> 0 \<and> unat (mr_base r) + unat (mr_size r) < 2 ^ 64)"

definition info_ok :: "boot_info \<Rightarrow> bool" where
  "info_ok info \<longleftrightarrow>
     length (bi_regions info) = MAX_MEM_REGIONS \<and> regions_ok (bi_regions info) (bi_region_count info) \<and>
     length (bi_reserved info) = MAX_RSV_REGIONS \<and> regions_ok (bi_reserved info) (bi_reserved_count info) \<and>
     length (bi_entropy info) = MAX_ENTROPY \<and> bi_entropy_len info \<le> MAX_ENTROPY"

lemma regions_ok_store:
  "regions_ok rs n \<Longrightarrow> n < length rs \<Longrightarrow> sz \<noteq> 0 \<Longrightarrow> checked_add b sz \<noteq> None \<Longrightarrow>
     regions_ok (rs[n := \<lparr>mr_base = b, mr_size = sz\<rparr>]) (Suc n)"
  by (auto simp: regions_ok_def take_Suc_conv_app_nth checked_add_def split: if_splits)

lemma safe_reg_loop:
  "regions_ok out count \<Longrightarrow> safe (\<lambda>(out', count'). length out' = length out \<and> regions_ok out' count') (reg_loop split cs out count)"
proof (induction cs arbitrary: out count)
  case (Cons c cs)
  have "count \<le> length out" using Cons.prems by (simp add: regions_ok_def)
  then show ?case
    using Cons.IH [OF Cons.prems] Cons.IH [OF regions_ok_store [OF Cons.prems]]
    by (auto simp: Let_def store_at_def)
qed simp

lemma safe_parse_reg:
  "regions_ok out count \<Longrightarrow> safe (\<lambda>(out', count'). length out' = length out \<and> regions_ok out' count') (parse_reg v a s out count)"
  by (simp add: parse_reg_def Let_def safe_reg_loop)

lemma safe_push_regions: "info_ok info \<Longrightarrow> safe (\<lambda>i. info_ok i \<and> bi_dtb i = bi_dtb info) (push_regions v a s info)"
  unfolding push_regions_def by (rule safe_bind [OF safe_parse_reg]) (auto simp: info_ok_def)

lemma safe_push_reserved_regions:
  "info_ok info \<Longrightarrow> safe (\<lambda>i. info_ok i \<and> bi_dtb i = bi_dtb info) (push_reserved_regions v a s info)"
  unfolding push_reserved_regions_def by (rule safe_bind [OF safe_parse_reg]) (auto simp: info_ok_def)

lemma safe_push_reserved:
  "info_ok info \<Longrightarrow> sz \<noteq> 0 \<Longrightarrow> safe (\<lambda>i. info_ok i \<and> bi_dtb i = bi_dtb info) (push_reserved info b sz)"
  using regions_ok_store [of "bi_reserved info" "bi_reserved_count info" sz b]
  by (auto simp: push_reserved_def store_at_def info_ok_def regions_ok_def)

lemma safe_push_entropy: "info_ok info \<Longrightarrow> safe (\<lambda>i. info_ok i \<and> bi_dtb i = bi_dtb info) (push_entropy v info)"
  by (auto simp: push_entropy_def sub_us_def slice_def get_range_def info_ok_def Let_def)

lemma safe_rsv_loop:
  "info_ok info \<Longrightarrow> length blob < 2 ^ 63 \<Longrightarrow> safe (\<lambda>i. info_ok i \<and> bi_dtb i = bi_dtb info) (rsv_loop blob off info)"
proof (induction "length blob - off" arbitrary: off info rule: less_induct)
  case less
  let ?Q = "\<lambda>i. info_ok i \<and> bi_dtb i = bi_dtb info"
  have rest: "safe ?Q (if base = 0 \<and> sz = 0 then Inr info else if sz = 0 then rsv_loop blob n info
      else and_then (push_reserved info base sz) (\<lambda>info'. rsv_loop blob n info'))"
    if n: "off + 8 \<le> length blob" "n = off + 16" for base sz n
  proof -
    have m: "length blob - n < length blob - off" using n by simp
    have "safe ?Q (and_then (push_reserved info base sz) (\<lambda>info'. rsv_loop blob n info'))" if "sz \<noteq> 0"
      by (rule safe_bind [OF safe_push_reserved [OF less.prems(1) that]])
        (use less.hyps [OF m _ less.prems(2)] in fastforce)
    then show ?thesis using less.hyps [OF m less.prems] less.prems(1) by simp
  qed
  show ?case
    unfolding rsv_loop.simps [of blob off info]
    by (intro safe_bind [OF safe_be64] safe_bind [OF safe_add_us] safe_bind [OF safe_ok_or])
      (use less.prems(2) rest in \<open>auto simp: checked_us_def split: if_splits\<close>)
qed

definition ps_ok :: "parse_state \<Rightarrow> bool" where
  "ps_ok st \<longleftrightarrow> ps_depth st \<le> MAX_DEPTH \<and> info_ok (ps_info st)"

definition hd_ok :: "u8 list \<Rightarrow> fdt_header \<Rightarrow> bool" where
  "hd_ok blob h \<longleftrightarrow> length blob < 2 ^ 63 \<and> fh_struct_end h \<le> length blob \<and> fh_strings_end h \<le> length blob"

abbreviation kept :: "parse_state \<Rightarrow> parse_state \<Rightarrow> bool" where
  "kept st st' \<equiv> ps_ok st' \<and> bi_dtb (ps_info st') = bi_dtb (ps_info st)"

lemma enter_node_simps:
  "ps_depth (enter_node d name st) = d" "ps_info (enter_node d name st) = ps_info st"
  by (simp_all add: enter_node_def Let_def)

lemma safe_begin_node:
  assumes "hd_ok blob h" "ps_ok st" "ps_off st \<le> length blob"
  shows "safe (kept st) (begin_node blob h st)"
proof -
  have d: "add_u32 (ps_depth st) 1 = Inr (ps_depth st + 1)"
    using assms(2) by (simp add: ps_ok_def add_u32_def MAX_DEPTH_def)
  show ?thesis
    unfolding begin_node_def d and_then_simps Let_def
    apply (intro safe_if safe_bind [OF safe_ok_or] safe_simps(2))
    apply (rule safe_bind [OF safe_add_us])
    apply (use assms in \<open>auto simp: hd_ok_def get_range_Some dest!: position0_le\<close>) []
    apply (rule safe_bind [OF safe_slice])
    apply simp
    apply (use assms in \<open>auto simp: hd_ok_def get_range_Some dest!: position0_le\<close>) []
    apply (intro safe_if safe_simps(2))
    apply (rule safe_bind [OF safe_add_us])
    apply (use assms in \<open>auto simp: hd_ok_def get_range_Some dest!: position0_le\<close>) []
    apply (rule safe_bind [OF safe_align4])
    apply (use assms(2) in \<open>auto simp: ps_ok_def enter_node_simps\<close>)
    done
qed

lemma safe_end_node: "ps_ok st \<Longrightarrow> safe (kept st) (end_node st)"
  by (auto simp: end_node_def Let_def sub_us_def ps_ok_def)

lemma safe_cell_count [safe_intros]: "safe (\<lambda>_. True) (cell_count v)"
  by (simp add: cell_count_def)

lemma safe_prop_effect:
  assumes "ps_ok st"
  shows "safe (kept st) (prop_effect name v st)"
proof -
  have i: "info_ok (ps_info st)" using assms by (simp add: ps_ok_def)
  show ?thesis
    unfolding prop_effect_def
    by (intro safe_if safe_bind [OF safe_cell_count] safe_bind [OF safe_push_regions [OF i]]
        safe_bind [OF safe_push_reserved_regions [OF i]] safe_bind [OF safe_push_entropy [OF i]])
      (use assms in \<open>simp_all add: ps_ok_def\<close>)
qed

lemma safe_prop_node:
  assumes "hd_ok blob h" "ps_ok st" "ps_off st \<le> length blob"
  shows "safe (kept st) (prop_node blob h st)"
proof -
  have b: "fh_struct_end h \<le> length blob" "fh_strings_end h \<le> length blob" "length blob < 2 ^ 63"
    using assms(1) by (simp_all add: hd_ok_def)
  show ?thesis
    unfolding prop_node_def
    apply (intro safe_if safe_simps(2))
    apply (rule safe_bind [OF safe_be32_us])
    apply (rule safe_bind [OF safe_add_us])
    apply (use assms(3) b in simp)
    apply (rule safe_bind [OF safe_be32_us])
    apply (rule safe_bind [OF safe_add_us])
    apply (use assms(3) b in simp)
    apply (rule safe_bind [OF safe_end_within])
    apply (rule safe_bind [OF safe_prop_name [OF b(2,3)]])
    apply (rule safe_bind [OF safe_slice])
    apply simp
    apply (use b in simp)
    apply (rule safe_bind [OF safe_prop_effect [OF assms(2)]])
    apply (rule safe_bind [OF safe_align4])
    apply (simp add: ps_ok_def)
    done
qed

lemma safe_parse_token:
  assumes "hd_ok blob h" "ps_ok st"
  shows "safe (\<lambda>r. case r of None \<Rightarrow> True | Some st' \<Rightarrow> kept st st') (parse_token blob h st)"
proof -
  have k: "kept st s \<Longrightarrow> safe (\<lambda>r. case r of None \<Rightarrow> True | Some st' \<Rightarrow> kept st st') (Inr (Some s))" for s by simp
  have o: "kept (st\<lparr>ps_off := n\<rparr>) s \<longleftrightarrow> kept st s" "ps_ok (st\<lparr>ps_off := n\<rparr>) = ps_ok st" for n s by (simp_all add: ps_ok_def)
  show ?thesis
    unfolding parse_token_def Let_def
    apply (intro safe_if safe_simps(2))
    apply (rule safe_bind [OF safe_be32])
    apply (rule safe_bind [OF safe_add_us])
    apply (use assms(1) in \<open>simp add: hd_ok_def\<close>)
    apply (intro safe_if safe_simps(2))
    apply (rule safe_bind [OF safe_begin_node [OF assms(1)]], simp_all add: o assms)
    apply (rule safe_bind [OF safe_end_node], simp_all add: o assms)
    apply (rule safe_bind [OF safe_prop_node [OF assms(1)]], simp_all add: o assms)
    done
qed

lemma safe_parse_loop:
  "hd_ok blob h \<Longrightarrow> ps_ok st \<Longrightarrow> safe (\<lambda>i. info_ok i \<and> bi_dtb i = bi_dtb (ps_info st)) (parse_loop blob h st)"
proof (induction "length blob - ps_off st" arbitrary: st rule: less_induct)
  case less
  have next_ok: "safe (\<lambda>i. info_ok i \<and> bi_dtb i = bi_dtb (ps_info st)) (parse_loop blob h st')"
    if "parse_token blob h st = Inr (Some st')" "kept st st'" for st'
    using less.hyps [of st'] parse_token_off [OF that(1)] that(2) less.prems by (simp add: diff_less_mono2)
  show ?case
  proof (cases "parse_token blob h st")
    case (Inl e)
    then show ?thesis using safe_parse_token [OF less.prems] by (subst parse_loop.simps) (simp add: safe_def split: sum.splits)
  next
    case (Inr r)
    then show ?thesis
      using safe_parse_token [OF less.prems] next_ok less.prems(2)
      by (subst parse_loop.simps) (auto simp: ps_ok_def split: option.splits)
  qed
qed

lemma info_new_ok: "info_ok (info_new dtb)" "bi_dtb (info_new dtb) = dtb"
  by (simp_all add: info_ok_def regions_ok_def info_new_def)

lemma safe_parse_blob:
  assumes "length blob < 2 ^ 63"
  shows "safe (\<lambda>i. info_ok i \<and> bi_dtb i = dtb \<and> bi_region_count i \<noteq> 0) (parse_blob blob dtb)"
  unfolding parse_blob_def
  apply (intro safe_if safe_simps(2) safe_bind [OF safe_be32] safe_bind [OF safe_be32_us] safe_bind [OF safe_end_within]
      safe_bind [OF safe_rsv_loop] info_new_ok(1) assms)
  apply (rule safe_bind [OF safe_parse_loop])
  apply (use assms in \<open>simp add: hd_ok_def\<close>)
  apply (simp add: ps_ok_def parse_start_def)
  apply (simp add: parse_start_def info_new_ok)
  done

section \<open>Rounds of the token loop\<close>

text \<open>The token loop stopped after \<open>n\<close> rounds; \<open>None\<close> when it is still running then.\<close>

fun parse_rounds :: "nat \<Rightarrow> u8 list \<Rightarrow> fdt_header \<Rightarrow> parse_state \<Rightarrow> boot_info parsed option" where
  "parse_rounds 0 blob h st = None"
| "parse_rounds (Suc n) blob h st =
     (case parse_token blob h st of
        Inl e \<Rightarrow> Some (Inl e)
      | Inr None \<Rightarrow> Some (Inr (ps_info st))
      | Inr (Some st') \<Rightarrow> parse_rounds n blob h st')"

lemma parse_token_off4: "parse_token blob h st = Inr (Some st') \<Longrightarrow> ps_off st + 4 \<le> ps_off st' \<and> ps_off st + 4 \<le> length blob"
  by (auto simp: parse_token_def Let_def parsed_iffs add_us_def split: if_splits
      dest!: be32_Inr begin_node_off end_node_off prop_node_off)

lemma parse_rounds_enough: "length blob < ps_off st + 4 * n \<Longrightarrow> parse_rounds n blob h st = Some (parse_loop blob h st) \<or> n = 0"
proof (induction n arbitrary: st)
  case (Suc n)
  show ?case
  proof (cases "parse_token blob h st")
    case (Inr r)
    show ?thesis
    proof (cases r)
      case (Some st')
      then have o: "ps_off st + 4 \<le> ps_off st'" "ps_off st + 4 \<le> length blob" using parse_token_off4 Inr by blast+
      then have "parse_rounds n blob h st' = Some (parse_loop blob h st')" using Suc.IH [of st'] Suc.prems by (cases n) auto
      then show ?thesis using Inr Some by (subst parse_loop.simps) simp
    qed (use Inr in \<open>subst parse_loop.simps, simp\<close>)
  qed (subst parse_loop.simps, simp)
qed simp

section \<open>Properties\<close>

lemma safe_dtb_span:
  assumes "a < 2 ^ 64"
  shows "safe (\<lambda>(s, e). s = a \<and> a + 40 \<le> e \<and> e \<le> a + 2 * 1024 * 1024 \<and> e < 2 ^ 64) (dtb_span mem a)"
proof (cases "a mod 8 = 0")
  case True
  then obtain q where "a = 8 * q" by auto
  then have a4: "add_us a 4 = Inr (a + 4)" using assms by (simp add: add_us_def)
  show ?thesis
    unfolding dtb_span_def a4 and_then_simps Let_def
    by (intro safe_if safe_simps(2) safe_bind [OF safe_ok_or])
      (auto simp: checked_us_def HEADER_SIZE_def MAX_DTB_SIZE_def word_le_nat_alt split: if_splits)
qed (simp add: dtb_span_def)

lemma safe_parse:
  "safe (\<lambda>i. info_ok i \<and> bi_region_count i \<noteq> 0 \<and> fst (bi_dtb i) = dtb_phys \<and> dtb_phys + 40 \<le> snd (bi_dtb i) \<and>
     snd (bi_dtb i) \<le> dtb_phys + 2 * 1024 * 1024 \<and> (snd img \<le> dtb_phys \<or> snd (bi_dtb i) \<le> fst img)) (parse mem dtb_phys img off)"
proof -
  have rest: "safe (\<lambda>i. info_ok i \<and> bi_region_count i \<noteq> 0 \<and> fst (bi_dtb i) = dtb_phys \<and> dtb_phys + 40 \<le> snd (bi_dtb i) \<and>
     snd (bi_dtb i) \<le> dtb_phys + 2 * 1024 * 1024 \<and> (snd img \<le> dtb_phys \<or> snd (bi_dtb i) \<le> fst img))
     (if dtb_phys < snd img \<and> fst img < e then Err OverlapsKernel else parse_blob (map mem [rs ..< rs + len]) (dtb_phys, e))"
    if "e = dtb_phys + len" "40 \<le> len" "len \<le> 2 * 1024 * 1024" for rs e len
  proof (intro safe_if safe_simps(2), rule safe_mono [OF safe_parse_blob])
    show "length (map mem [rs ..< rs + len]) < 2 ^ 63" using that(3) by simp
  qed (use that in auto)
  have "safe (\<lambda>i. info_ok i \<and> bi_region_count i \<noteq> 0 \<and> fst (bi_dtb i) = dtb_phys \<and> dtb_phys + 40 \<le> snd (bi_dtb i) \<and>
     snd (bi_dtb i) \<le> dtb_phys + 2 * 1024 * 1024 \<and> (snd img \<le> dtb_phys \<or> snd (bi_dtb i) \<le> fst img))
     (case x of (rs, re) \<Rightarrow> and_then (sub_us re rs) (\<lambda>len. and_then (ok_or (checked_us dtb_phys len) (Inr BadHeader)) (\<lambda>dtb_end.
        if dtb_phys < snd img \<and> fst img < dtb_end then Err OverlapsKernel else parse_blob (map mem [rs ..< rs + len]) (dtb_phys, dtb_end))))"
    if x0: "case x of (s, e) \<Rightarrow> s = a \<and> a + 40 \<le> e \<and> e \<le> a + 2 * 1024 * 1024 \<and> e < 2 ^ 64" for x a
  proof -
    obtain e where x: "x = (a, e)" "a + 40 \<le> e" "e \<le> a + 2 * 1024 * 1024" using x0 by (cases x) auto
    then have sub: "sub_us e a = Inr (e - a)" by (simp add: sub_us_def)
    show ?thesis
      unfolding x(1) prod.case sub and_then_simps
      by (rule safe_bind [OF safe_ok_or]) (rule rest, use x in \<open>auto simp: checked_us_def split: if_splits\<close>)
  qed
  then show ?thesis
    unfolding parse_def
    by (intro safe_bind [OF safe_ok_or]) (rule safe_bind [OF safe_dtb_span], auto simp: checked_us_def split: if_splits)
qed

text \<open>
  C27. No device tree blob brings the parser down. Whatever the memory holds at whatever address the
  boot loader passed, parsing returns an error or a result and never panics, so no index leaves the blob
  and no sum wraps. A result names a blob of 40 bytes to 2 MiB that does not meet the kernel image, between
  one and eight memory regions, at most eight reserved ones and at most 72 bytes of entropy; no region is
  empty or wraps around.
\<close>

theorem parse_safe:
  "case parse mem dtb_phys img off of
     Inl (Inl h) \<Rightarrow> False
   | Inl (Inr e) \<Rightarrow> True
   | Inr info \<Rightarrow>
       fst (bi_dtb info) = dtb_phys \<and> dtb_phys + 40 \<le> snd (bi_dtb info) \<and> snd (bi_dtb info) \<le> dtb_phys + 2 * 1024 * 1024 \<and>
       (snd img \<le> dtb_phys \<or> snd (bi_dtb info) \<le> fst img) \<and>
       bi_memory_list info \<noteq> [] \<and> length (bi_memory_list info) \<le> 8 \<and> length (bi_reserved_list info) \<le> 8 \<and>
       length (bi_entropy_bytes info) \<le> 72 \<and>
       list_all (\<lambda>r. mr_size r \<noteq> 0 \<and> unat (mr_base r) + unat (mr_size r) < 2 ^ 64) (bi_memory_list info @ bi_reserved_list info)"
  using safe_parse [of dtb_phys img mem off]
  by (auto simp: safe_def info_ok_def regions_ok_def bi_memory_list_def bi_reserved_list_def bi_entropy_bytes_def fdt_limits
      list_all_iff split: sum.splits)

text \<open>
  C30. The parser reads the blob and nothing else: the first eight bytes, and the bytes up to the
  size they announce. Two memories that agree there give the same result.
\<close>

theorem parse_reads_only:
  assumes "\<And>a. dtb_phys + off \<le> a \<Longrightarrow> a < dtb_phys + off + max 8 (unat (read_be32_phys mem (dtb_phys + off + 4))) \<Longrightarrow> mem a = mem' a"
  shows "parse mem dtb_phys img off = parse mem' dtb_phys img off"
proof -
  let ?b = "dtb_phys + off"
  have bytes: "map mem [?b + i ..< ?b + j] = map mem' [?b + i ..< ?b + j]" if "j \<le> max 8 (unat (read_be32_phys mem (?b + 4)))" for i j
    using that assms by (intro map_cong refl) simp
  have hdr: "read_be32_phys mem ?b = read_be32_phys mem' ?b" "read_be32_phys mem (?b + 4) = read_be32_phys mem' (?b + 4)"
    using bytes [of 4 0] bytes [of 8 4] by (simp_all add: read_be32_phys_def add.assoc max_def del: map_eq_conv split: if_splits)
  then have span: "dtb_span mem ?b = dtb_span mem' ?b"
    by (simp add: dtb_span_def add_us_def)
  have blob: "map mem [s ..< s + (e - s)] = map mem' [s ..< s + (e - s)]" if "dtb_span mem ?b = Inr (s, e)" for s e
  proof -
    have "s = ?b" "e = ?b + unat (read_be32_phys mem (?b + 4))"
      using that by (auto simp: dtb_span_def add_us_def Let_def parsed_iffs checked_us_def split: if_splits)
    then show ?thesis using bytes [of "e - s" 0] by (simp del: map_eq_conv)
  qed
  show ?thesis
  proof (cases "dtb_span mem ?b")
    case (Inl e)
    then show ?thesis using span by (simp add: parse_def checked_us_def)
  next
    case (Inr se)
    obtain s e where se: "se = (s, e)" by (cases se)
    have sp: "dtb_span mem ?b = Inr (s, e)" "dtb_span mem' ?b = Inr (s, e)" using Inr se span by simp_all
    have eq: "s \<le> e \<Longrightarrow> map mem [s ..< e] = map mem' [s ..< e]" using blob [OF sp(1)] by (simp del: map_eq_conv)
    show ?thesis by (simp add: parse_def checked_us_def sub_us_def sp eq del: map_eq_conv)
  qed
qed

theorem parse_reads_only_witness:
  "parse (\<lambda>_. 0) 0x48000000 (0, 0) 0 = parse (\<lambda>a. if a < 0x48000008 then 0 else 1) 0x48000000 (0, 0) 0"
  using parse_reads_only [of "0x48000000" 0 "\<lambda>_. 0" "\<lambda>a. if a < 0x48000008 then 0 else 1" "(0, 0)"]
  by (simp add: read_be32_phys_def from_be_def upt_rec)

text \<open>
  C29. The token loop of the parser ends: it makes at most one round for every four bytes of the
  blob and one more, whatever the blob holds and wherever it starts.
\<close>

theorem parse_loop_ends: "parse_rounds (length blob div 4 + 1) blob h st = Some (parse_loop blob h st)"
proof -
  have "length blob < 4 * (length blob div 4 + 1)" by (metis add.commute dividend_less_div_times mult.commute mult_Suc_right plus_1_eq_Suc zero_less_numeral)
  then show ?thesis using parse_rounds_enough [of blob st "length blob div 4 + 1" h] by simp
qed

end
