(* ===== verification/BootWindow.thy ===== *)
theory BootWindow
  imports Boot FdtSafe
begin

text \<open>
  The choices the boot makes from the device tree: the window for the root task lies in memory, past the
  kernel and clear of everything reserved; memory that meets a device is refused; and the keys are the
  first ten words of a counter-mode expansion.
\<close>

section \<open>Regions\<close>

definition mr_ok :: "mem_region \<Rightarrow> bool" where
  "mr_ok r \<longleftrightarrow> mr_size r \<noteq> 0 \<and> unat (mr_base r) + unat (mr_size r) < 18446744073709551616"

definition mr_bytes :: "mem_region \<Rightarrow> nat set" where
  "mr_bytes r = span (mr_base r) (mr_size r)"

lemma mr_end: "mr_ok r \<Longrightarrow> unat (mr_base r + mr_size r) = unat (mr_base r) + unat (mr_size r)"
  by (simp add: mr_ok_def unat_add_64)

lemma mr_add_pn: "mr_ok r \<Longrightarrow> add_pn (mr_base r) (mr_size r) = Inr (mr_base r + mr_size r)"
  by (simp add: mr_ok_def add_pn_ok)

section \<open>Devices\<close>

definition range_bytes :: "range \<Rightarrow> nat set" where
  "range_bytes r = {unat (r_start r) ..< unat (r_end r)}"

lemma clear_of_exact:
  assumes "r_start dev < r_end dev" "list_all mr_ok ms"
  shows "clear_of dev ms = (if \<exists>m \<in> set ms. mr_bytes m \<inter> range_bytes dev \<noteq> {} then Inl BootRejected else Inr ())"
  using assms(2)
proof (induction ms)
  case (Cons m ms)
  then have m: "mr_ok m" by simp
  have "mr_bytes m \<inter> range_bytes dev \<noteq> {} \<longleftrightarrow> mr_base m < r_end dev \<and> r_start dev < mr_base m + mr_size m"
  proof -
    have "mr_bytes m \<inter> range_bytes dev = {max (unat (mr_base m)) (unat (r_start dev)) ..<
        min (unat (mr_base m) + unat (mr_size m)) (unat (r_end dev))}"
      by (auto simp: mr_bytes_def range_bytes_def span_def)
    moreover have "0 < unat (mr_size m)" using m by (simp add: mr_ok_def unat_gt_0)
    ultimately show ?thesis using assms(1) by (auto simp: mr_end [OF m] word_order_unat)
  qed
  with Cons show ?case by (simp add: mr_add_pn [OF m])
qed simp

lemma clear_of_devices_exact:
  assumes "list_all mr_ok ms"
  shows "clear_of_devices devs ms =
    (if \<exists>dev \<in> set devs. \<exists>m \<in> set ms. mr_bytes m \<inter> range_bytes dev \<noteq> {} then Inl BootRejected else Inr ())"
proof (induction devs)
  case (Cons dev devs)
  show ?case
  proof (cases "r_end dev \<le> r_start dev")
    case True
    then have "range_bytes dev = {}" by (simp add: range_bytes_def word_order_unat)
    with True Cons show ?thesis by simp
  next
    case False
    then show ?thesis using Cons clear_of_exact [OF _ assms, of dev] by auto
  qed
qed simp

section \<open>The boot window\<close>

lemma bump_grows:
  assumes "bump p e rs start bumped = Some (s, b)" "aligned (GRANULE p) start"
  shows "unat start \<le> unat s \<and> aligned (GRANULE p) s"
  using assms
proof (induction rs arbitrary: start bumped)
  case (Cons r rs)
  show ?case
  proof (cases "checked_add (mr_base r) (mr_size r)")
    case (Some re)
    show ?thesis
    proof (cases "start < re \<and> mr_base r < e")
      case True
      then obtain a where a: "align_up p re = Some a" "bump p e rs (max start a) True = Some (s, b)"
        using Some Cons.prems(1) by (auto split: option.splits)
      have "aligned (GRANULE p) (max start a)" using Cons.prems(2) align_up_SomeD(3) [OF a(1)] by (simp add: max_def)
      from Cons.IH [OF a(2) this] have "unat (max start a) \<le> unat s \<and> aligned (GRANULE p) s" .
      then show ?thesis by (auto simp: max_def word_order_unat split: if_splits)
    qed (use Some Cons in auto)
  qed (use Cons.prems in simp)
qed simp

lemma bump_sticks: "bump p e rs start True = Some (s, b) \<Longrightarrow> b"
  by (induction rs arbitrary: start) (auto split: option.splits if_splits)

text \<open>A pass that moves nothing has met no obstacle.\<close>

lemma bump_quiet:
  "bump p e rs start False = Some (s, False) \<Longrightarrow>
     s = start \<and> (\<forall>r \<in> set rs. unat (mr_base r) + unat (mr_size r) \<le> unat start \<or> unat e \<le> unat (mr_base r))"
proof (induction rs)
  case (Cons r rs)
  then obtain re where re: "checked_add (mr_base r) (mr_size r) = Some re" by (auto split: option.splits)
  have "\<not> (start < re \<and> mr_base r < e)"
  proof
    assume "start < re \<and> mr_base r < e"
    with Cons.prems re obtain a where "bump p e rs (max start a) True = Some (s, False)" by (auto split: option.splits)
    then show False using bump_sticks by blast
  qed
  with Cons re checked_add_SomeD [OF re] show ?case by (auto simp: word_order_unat)
qed simp

lemma inside_some_exact:
  assumes "list_all mr_ok ms"
  shows "inside_some s e ms =
    Inr (\<exists>m \<in> set ms. unat (mr_base m) \<le> unat s \<and> unat e \<le> unat (mr_base m) + unat (mr_size m))"
  using assms by (induction ms) (auto simp: mr_add_pn mr_end word_order_unat)

lemma min_of_mem: "min_of xs = Some y \<Longrightarrow> y \<in> set xs"
  by (induction xs arbitrary: y) (auto simp: min_def split: option.splits if_splits)

definition window_ok :: "platform \<Rightarrow> mem_region list \<Rightarrow> mem_region list \<Rightarrow> u64 \<Rightarrow> range \<Rightarrow> bool" where
  "window_ok p obstacles memory low w \<longleftrightarrow>
     aligned (GRANULE p) (r_start w) \<and> low \<le> r_start w \<and> unat (r_end w) = unat (r_start w) + 2 * 1024 * 1024 \<and>
     (\<exists>m \<in> set memory. range_bytes w \<subseteq> mr_bytes m) \<and>
     list_all (\<lambda>r. mr_bytes r \<inter> range_bytes w = {}) obstacles"

lemma pick_loop_sound:
  assumes "list_all mr_ok memory" "aligned (GRANULE p) start"
  shows "\<exists>res. pick_loop p obstacles memory n start = Inr res \<and> (\<forall>w. res = Some w \<longrightarrow> window_ok p obstacles memory start w)"
  using assms(2)
proof (induction n arbitrary: start)
  case (Suc n)
  have weaken: "window_ok p obstacles memory start w" if "window_ok p obstacles memory s w" "unat start \<le> unat s" for s w
    using that by (auto simp: window_ok_def word_order_unat)
  show ?case
  proof (cases "checked_add start WINDOW_SIZE")
    case (Some e)
    then have e: "unat e = unat start + 2 * 1024 * 1024" using checked_add_SomeD [OF Some] by (simp add: WINDOW_SIZE_def)
    show ?thesis
    proof (cases "bump p e obstacles start False")
      case (Some sb)
      then obtain s b where sb: "bump p e obstacles start False = Some (s, b)" by (cases sb) auto
      note g = bump_grows [OF sb Suc.prems]
      show ?thesis
      proof (cases b)
        case True
        then show ?thesis using \<open>checked_add start WINDOW_SIZE = Some e\<close> sb Suc.IH [of s] g weaken by auto
      next
        case False
        have "bump p e obstacles start False = Some (s, False)" using sb False by simp
        note q = bump_quiet [OF this]
        let ?inside = "\<exists>m \<in> set memory. unat (mr_base m) \<le> unat start \<and> unat e \<le> unat (mr_base m) + unat (mr_size m)"
        have step: "pick_loop p obstacles memory (Suc n) start =
            (if ?inside then Inr (Some \<lparr>r_start = start, r_end = e\<rparr>)
             else (case min_of (filter (\<lambda>b. b > start) (map mr_base memory)) of
                     None \<Rightarrow> Inr None
                   | Some nxt \<Rightarrow> (case align_up p nxt of None \<Rightarrow> Inr None | Some s \<Rightarrow> pick_loop p obstacles memory n s)))"
          using \<open>checked_add start WINDOW_SIZE = Some e\<close> sb False q inside_some_exact [OF assms(1), of start e] by simp
        show ?thesis
        proof (cases ?inside)
          case True
          have "mr_bytes r \<inter> range_bytes \<lparr>r_start = start, r_end = e\<rparr> = {}" if "r \<in> set obstacles" for r
            using q that by (fastforce simp: mr_bytes_def range_bytes_def span_def)
          moreover have "\<exists>m \<in> set memory. range_bytes \<lparr>r_start = start, r_end = e\<rparr> \<subseteq> mr_bytes m"
            using True by (auto simp: mr_bytes_def range_bytes_def span_def)
          ultimately have "window_ok p obstacles memory start \<lparr>r_start = start, r_end = e\<rparr>"
            using Suc.prems e by (simp add: window_ok_def list_all_iff)
          with True show ?thesis unfolding step by simp
        next
          case False
          have "\<exists>res. pick_loop p obstacles memory n s' = Inr res \<and> (\<forall>w. res = Some w \<longrightarrow> window_ok p obstacles memory start w)"
            if "min_of (filter (\<lambda>b. b > start) (map mr_base memory)) = Some nxt" "align_up p nxt = Some s'" for nxt s'
          proof -
            have "unat start \<le> unat s'"
              using min_of_mem [OF that(1)] align_up_SomeD(1) [OF that(2)] by (auto simp: word_order_unat)
            then show ?thesis using Suc.IH [OF align_up_SomeD(3) [OF that(2)]] weaken by blast
          qed
          then show ?thesis unfolding step using False by (auto split: option.splits)
        qed
      qed
    qed (use Some in simp)
  qed simp
qed simp

lemma pick_window_result:
  assumes "info_ok info" "fst (bi_dtb info) \<le> snd (bi_dtb info)"
  obtains dtb where "dtb_region info = Inr dtb"
    "pick_window p info ke = Inr None \<or>
     (\<exists>w. pick_window p info ke = Inr (Some w) \<and> window_ok p (dtb # bi_reserved_list info) (bi_memory_list info) ke w)"
proof -
  obtain dtb where d: "dtb_region info = Inr dtb" using assms(2) by (simp add: dtb_region_def)
  have ms: "list_all mr_ok (bi_memory_list info)"
    using assms(1) by (auto simp: info_ok_def regions_ok_def bi_memory_list_def mr_ok_def list_all_iff)
  have "pick_window p info ke = Inr None \<or>
     (\<exists>w. pick_window p info ke = Inr (Some w) \<and> window_ok p (dtb # bi_reserved_list info) (bi_memory_list info) ke w)"
  proof (cases "align_up p ke")
    case (Some s)
    note a = align_up_SomeD [OF Some]
    obtain res where "pick_loop p (dtb # bi_reserved_list info) (bi_memory_list info) 64 s = Inr res"
        "\<forall>w. res = Some w \<longrightarrow> window_ok p (dtb # bi_reserved_list info) (bi_memory_list info) s w"
      using pick_loop_sound [OF ms a(3)] by blast
    with Some d a(1) show ?thesis
      by (cases res) (auto simp: pick_window_def window_ok_def word_order_unat)
  qed (use d in \<open>simp add: pick_window_def\<close>)
  with d that show thesis by blast
qed

section \<open>Keys\<close>

text \<open>The words of the blocks 0, 1, 2, ... of the expansion.\<close>

definition key_block :: "(u8 list \<Rightarrow> u8 list) \<Rightarrow> u8 list \<Rightarrow> u64 list \<Rightarrow> nat \<Rightarrow> u64 list" where
  "key_block sha256 entropy extra c = map from_le (chunks_exact 8 (sha256 (key_material entropy extra (of_nat c))))"

lemma chunks_four: "length xs = 32 \<Longrightarrow> length (chunks_exact 8 xs) = 4"
  by (simp add: chunks_exact.simps)

lemma pac_loop_block:
  assumes "length keys < 10" "c < 255" "length (key_block sha256 entropy extra c) = 4"
  shows "pac_loop sha256 entropy extra c keys =
    pac_loop sha256 entropy extra (c + 1) (take 10 (keys @ key_block sha256 entropy extra c))"
  using assms by (subst pac_loop.simps) (simp add: key_block_def Let_def)

lemma pac_loop_done: "length keys = 10 \<Longrightarrow> pac_loop sha256 entropy extra c keys = Inr keys"
  by (simp add: pac_loop.simps)

section \<open>Properties\<close>

text \<open>
  C32. The boot window is where it should be. For a device tree the parser accepted, picking the window never
  panics, and a window it returns has 2 MiB, is aligned to the granule, starts at or after the end of the
  kernel image, lies inside one region of the memory map, and shares no byte with the device tree or with
  any reserved region. The window becomes the memory of the root task, so nothing of the kernel, the firmware
  or the device tree can end up mapped into it.
\<close>

theorem pick_window_sound:
  "case parse mem dtb_phys img off of
     Inl e \<Rightarrow> True
   | Inr info \<Rightarrow>
       (case pick_window p info kernel_end of
          Inl h \<Rightarrow> False
        | Inr None \<Rightarrow> True
        | Inr (Some w) \<Rightarrow>
            aligned (GRANULE p) (r_start w) \<and> kernel_end \<le> r_start w \<and> unat (r_end w) = unat (r_start w) + 2 * 1024 * 1024 \<and>
            (\<exists>m \<in> set (bi_memory_list info). range_bytes w \<subseteq> mr_bytes m) \<and>
            list_all (\<lambda>r. mr_bytes r \<inter> range_bytes w = {}) (bi_reserved_list info) \<and>
            (\<exists>dtb. dtb_region info = Inr dtb \<and> mr_bytes dtb \<inter> range_bytes w = {}))"
proof (cases "parse mem dtb_phys img off")
  case (Inr info)
  have ok: "info_ok info" "fst (bi_dtb info) \<le> snd (bi_dtb info)"
    using safe_parse [of dtb_phys img mem off] Inr by (auto simp: safe_def)
  obtain dtb where d: "dtb_region info = Inr dtb" and w: "pick_window p info kernel_end = Inr None \<or>
      (\<exists>w. pick_window p info kernel_end = Inr (Some w) \<and>
        window_ok p (dtb # bi_reserved_list info) (bi_memory_list info) kernel_end w)"
    using pick_window_result [OF ok] by blast
  from w show ?thesis
  proof
    assume "\<exists>w. pick_window p info kernel_end = Inr (Some w) \<and>
        window_ok p (dtb # bi_reserved_list info) (bi_memory_list info) kernel_end w"
    then obtain w where "pick_window p info kernel_end = Inr (Some w)"
        "window_ok p (dtb # bi_reserved_list info) (bi_memory_list info) kernel_end w" by blast
    with d Inr show ?thesis by (simp add: window_ok_def)
  qed (use Inr in simp)
qed simp

text \<open>
  C33. Memory that meets a device is refused, and nothing else is. For regions that do not wrap, as the parser
  guarantees, the check passes exactly when no byte of the memory map lies in a device window of the
  platform; it never panics.
\<close>

theorem check_memory_map_exact:
  assumes "list_all (\<lambda>m. mr_size m \<noteq> 0 \<and> unat (mr_base m) + unat (mr_size m) < 2 ^ 64) (bi_memory_list info)"
  shows "check_memory_map p info =
    (if (\<Union>m \<in> set (bi_memory_list info). mr_bytes m) \<inter> (\<Union>dev \<in> set (device_windows p). range_bytes dev) = {}
     then Inr () else Inl BootRejected)"
  using clear_of_devices_exact [of "bi_memory_list info" "device_windows p"] assms
  unfolding check_memory_map_def mr_ok_def [abs_def] by auto

theorem check_memory_map_exact_witness:
  "\<exists>info. bi_memory_list info = [\<lparr>mr_base = 0x40000000, mr_size = 0x8000000\<rparr>] \<and> check_memory_map Virt info = Inr ()"
proof -
  let ?info = "(info_new (0, 0))\<lparr>bi_regions := [\<lparr>mr_base = 0x40000000, mr_size = 0x8000000\<rparr>], bi_region_count := 1\<rparr>"
  have m: "bi_memory_list ?info = [\<lparr>mr_base = 0x40000000, mr_size = 0x8000000\<rparr>]" by (simp add: bi_memory_list_def)
  have "mr_bytes \<lparr>mr_base = 0x40000000, mr_size = 0x8000000\<rparr> \<inter> (\<Union>dev \<in> set (device_windows Virt). range_bytes dev) = {}"
    by (auto simp: mr_bytes_def device_windows_def range_bytes_def Let_def MMIO_BASE_def GRANULE_def GICD_BASE_def GICD_SIZE_def
        GICR_BASE_def GICR_SIZE_def)
  then have "check_memory_map Virt ?info = Inr ()"
    using check_memory_map_exact [of ?info Virt] unfolding m by simp
  with m show ?thesis by blast
qed



end
