(* ===== verification/BootSpawn.thy ===== *)
theory BootSpawn
  imports KernelInv
begin

text \<open>
  Loading the root task: every table of its address space and every frame it maps comes from the boot
  window, no frame is a table, and the address space maps exactly the segments of the image, the stack and
  the bootinfo page.
\<close>

section \<open>Frames of the window\<close>

definition frames_in :: "platform \<Rightarrow> u64 \<Rightarrow> u64 \<Rightarrow> u64 set" where
  "frames_in p lo len = {f. aligned (GRANULE p) f \<and> unat lo \<le> unat f \<and> unat f < unat lo + unat len}"

definition grown :: "frame_alloc \<Rightarrow> frame_alloc \<Rightarrow> bool" where
  "grown fa fa' \<longleftrightarrow> fa_start fa' = fa_start fa \<and> fa_end fa' = fa_end fa \<and> fa_next fa \<le> fa_next fa'"

lemma grown_refl [simp]: "grown fa fa"
  by (simp add: grown_def)

lemma grown_trans: "grown fa fa1 \<Longrightarrow> grown fa1 fa2 \<Longrightarrow> grown fa fa2"
  by (auto simp: grown_def)

lemma aligned_gap: "aligned g t \<Longrightarrow> aligned g b \<Longrightarrow> unat t < unat b \<Longrightarrow> unat t + unat g \<le> unat b"
  using dvd_imp_le [of "unat g" "unat b - unat t"] by (auto simp: aligned_dvd)

lemma alloc_contig_cases:
  assumes fa: "fa_ok p fa"
  obtains (full) "alloc_contig p n fa mem = Inr (Inl OutOfFrames, fa, mem)"
    | (frames) fa' len where
      "alloc_contig p n fa mem = Inr (Inr (fa_next fa), fa', zero_bytes (fa_next fa + KERNEL_VA_OFFSET) len mem)"
      "fa' = fa\<lparr>fa_next := fa_next fa + len\<rparr>" "fa_ok p fa'" "unat len = unat n * unat (GRANULE p)" "len \<noteq> 0"
      "unat (fa_next fa') = unat (fa_next fa) + unat len" "unat (fa_next fa) + unat len \<le> 281474976710656" "grown fa fa'"
proof (cases "unat n * unat (GRANULE p) \<noteq> 0 \<and> unat (fa_next fa) + unat n * unat (GRANULE p) \<le> unat (fa_end fa)")
  case True
  let ?len = "n * GRANULE p"
  have e: "unat (fa_end fa) \<le> 281474976710656" using fa by (simp add: fa_ok_def)
  have b: "unat n * unat (GRANULE p) < 18446744073709551616" using True e by linarith
  then have len: "unat ?len = unat n * unat (GRANULE p)" by (simp add: unat_word_ariths)
  have m: "checked_mul n (GRANULE p) = Some ?len" using b by (simp add: checked_mul_def)
  have l: "unat (fa_next fa) + unat ?len \<le> 281474976710656" "?len \<noteq> 0"
    using True e len by (auto simp: u64_eq_iff)
  have s: "unat (fa_next fa + ?len) = unat (fa_next fa) + unat ?len" using l by (intro unat_add_64) simp
  have lt: "unat (fa_next fa) < 281474976710656"
    using l True len by linarith
  have a: "checked_add (fa_next fa) ?len = Some (fa_next fa + ?len)" "\<not> fa_end fa < fa_next fa + ?len"
    using l s True len by (auto simp: checked_add_def word_order_unat)
  have o: "add_pn (fa_next fa) KERNEL_VA_OFFSET = Inr (fa_next fa + KERNEL_VA_OFFSET)"
    using lt by (intro add_pn_ok) (simp add: KERNEL_VA_OFFSET_def)
  have run: "alloc_contig p n fa mem = Inr (Inr (fa_next fa), fa\<lparr>fa_next := fa_next fa + ?len\<rparr>,
      zero_bytes (fa_next fa + KERNEL_VA_OFFSET) ?len mem)"
    using m l(2) a o by (simp add: alloc_contig_def Let_def)
  have "aligned (GRANULE p) (fa_next fa + ?len)" using fa s len by (simp add: fa_ok_def aligned_dvd)
  then have ok: "fa_ok p (fa\<lparr>fa_next := fa_next fa + ?len\<rparr>)"
    using fa s a(2) by (simp add: fa_ok_def word_order_unat)
  show thesis
    by (rule frames [OF run refl ok len l(2) _ l(1)]) (use s in \<open>simp_all add: grown_def word_order_unat\<close>)
next
  case False
  have "alloc_contig p n fa mem = Inr (Inl OutOfFrames, fa, mem)"
  proof (cases "unat n * unat (GRANULE p) < 18446744073709551616")
    case True
    then have "checked_mul n (GRANULE p) = Some (n * GRANULE p)" and len: "unat (n * GRANULE p) = unat n * unat (GRANULE p)"
      by (simp_all add: checked_mul_def unat_word_ariths)
    then show ?thesis
      using False by (auto simp: alloc_contig_def Let_def checked_add_def word_order_unat unat_add_64 u64_eq_iff)
  qed (simp add: alloc_contig_def checked_mul_def)
  then show thesis by (rule full)
qed

section \<open>The invariant of the builder\<close>

text \<open>\<open>F\<close> are the frames that hold data: they lie in the used part of the window and none is a table.\<close>

definition build_inv :: "platform \<Rightarrow> u64 set \<Rightarrow> frame_alloc \<Rightarrow> memory \<Rightarrow> u64 set \<Rightarrow> bool" where
  "build_inv p F fa mem R \<longleftrightarrow>
     us_inv p fa mem R \<and> spaces_safe p mem R \<and> user_frames p mem R \<subseteq> F \<and> F \<inter> tables_of p mem R = {} \<and>
     (\<forall>f \<in> F. utbl_ok p f \<and> fa_start fa \<le> f \<and> f < fa_next fa) \<and> (\<forall>t \<in> tables_of p mem R. fa_start fa \<le> t)"

lemma build_inv_empty: "build_inv p F fa mem {} \<longleftrightarrow> fa_ok p fa \<and> (\<forall>f \<in> F. utbl_ok p f \<and> fa_start fa \<le> f \<and> f < fa_next fa)"
  by (auto simp: build_inv_def us_inv_def spaces_ok_def spaces_safe_def user_frames_def tables_of_def reachable_def unshared_def inner_ok_def)

lemma zero_above:
  assumes "utbl_ok p t" "t < b" "aligned (GRANULE p) b" "unat b < 281474976710656" "i < ENTRIES p"
  shows "utbl_get (zero_bytes (b + KERNEL_VA_OFFSET) len mem) t i = utbl_get mem t i"
proof -
  have "unat t + unat (GRANULE p) \<le> unat b"
    using assms(1-3) by (intro aligned_gap) (auto simp: utbl_ok_def word_order_unat)
  moreover have "i * 8 < unat (GRANULE p)" using assms(5) ENTRIES_8 [of p] by linarith
  ultimately have "unat (utbl_slot t i) < unat (b + KERNEL_VA_OFFSET)"
    using unat_utbl_slot(1) [OF assms(1,5)] unat_offset [OF assms(4)] by linarith
  then show ?thesis by (simp add: utbl_get_def zero_bytes_def)
qed

lemma frames_in_ok:
  assumes "unat lo + unat len \<le> 281474976710656" "f \<in> frames_in p lo len"
  shows "utbl_ok p f"
  using assms by (simp add: frames_in_def utbl_ok_def)

text \<open>Handing out frames keeps the address spaces and adds the frames to the data.\<close>

lemma build_alloc:
  assumes inv: "build_inv p F fa mem R" and al: "alloc_contig p n fa mem = Inr (Inr b, fa', mem')"
  obtains len where "b = fa_next fa" "unat len = unat n * unat (GRANULE p)" "unat b + unat len \<le> 281474976710656" "utbl_ok p b"
    "build_inv p (F \<union> frames_in p b len) fa' mem' R" "grown fa fa'" "\<And>r va. r \<in> R \<Longrightarrow> user_leaf p mem' r va = user_leaf p mem r va"
proof -
  have us: "us_inv p fa mem R" and fa: "fa_ok p fa" and sp: "spaces_ok p mem R"
    using inv by (auto simp: build_inv_def us_inv_def)
  from fa show thesis
  proof (cases rule: alloc_contig_cases [where n = n and mem = mem])
    case (frames fa1 len)
    then have e: "b = fa_next fa" "fa' = fa1" "mem' = zero_bytes (b + KERNEL_VA_OFFSET) len mem"
      using al by simp_all
    have "0 < unat len" using frames(5) by (simp add: unat_gt_0)
    then have b: "unat b < 281474976710656" "aligned (GRANULE p) b"
      using frames(7) fa e by (auto simp: fa_ok_def)
    have keep: "utbl_get mem' t i = utbl_get mem t i" if "t \<in> tables_of p mem R" "i < ENTRIES p" for t i
      unfolding e(3) using that us tables_of_ok [OF sp that(1)] b e(1)
      by (intro zero_above) (auto simp: us_inv_def)
    note c = spaces_cong [OF sp keep]
    have lt: "t < fa_next fa'" if "t \<le> fa_next fa" "len \<noteq> 0" for t
      using that frames(6) e \<open>0 < unat len\<close> by (auto simp: word_order_unat)
    have "us_inv p fa' mem' R"
      using us frames(3,5) e(2) lt c(1,2) by (auto simp: us_inv_def)
    moreover have "spaces_safe p mem' R" using inv c(3) by (simp add: build_inv_def spaces_safe_def)
    moreover have "user_frames p mem' R = user_frames p mem R" by (rule user_frames_cong) (rule c(3))
    moreover have "\<forall>f \<in> frames_in p b len. utbl_ok p f \<and> fa_start fa' \<le> f \<and> f < fa_next fa' \<and> f \<notin> tables_of p mem R"
    proof
      fix f assume f: "f \<in> frames_in p b len"
      have "fa_start fa \<le> fa_next fa" using fa by (simp add: fa_ok_def)
      then show "utbl_ok p f \<and> fa_start fa' \<le> f \<and> f < fa_next fa' \<and> f \<notin> tables_of p mem R"
        using f frames_in_ok [OF _ f] frames(2,6,7) e(1,2) us
        by (auto simp: frames_in_def word_order_unat us_inv_def)
    qed
    moreover have "f < fa_next fa'" if "f \<in> F" for f
      using that inv lt [of f] frames(5) by (auto simp: build_inv_def)
    ultimately have "build_inv p (F \<union> frames_in p b len) fa' mem' R"
      using inv frames(2) e(2) by (auto simp: build_inv_def c(2))
    then show thesis
      using that [of len] frames(4,7,8) e(1,2) b c(3) by (auto simp: utbl_ok_def)
  qed (use al in simp)
qed

lemma build_root:
  assumes inv: "build_inv p F fa mem {}" and al: "frame_alloc_alloc p fa mem = Inr (Inr r, fa', mem')"
  shows "build_inv p F fa' mem' {r}" "grown fa fa'" "user_leaf p mem' r va = 0" "utbl_ok p r"
proof -
  have fa: "fa_ok p fa" and F: "\<forall>f \<in> F. utbl_ok p f \<and> fa_start fa \<le> f \<and> f < fa_next fa"
    using inv by (simp_all add: build_inv_empty)
  from fa have f: "r = fa_next fa" "mem' = zero_bytes (fa_next fa + KERNEL_VA_OFFSET) (GRANULE p) mem"
      "fa' = fa\<lparr>fa_next := fa_next fa + GRANULE p\<rparr>" "fa_ok p fa'" "utbl_ok p r"
      "unat (fa_next fa') = unat (fa_next fa) + unat (GRANULE p)"
    by (cases rule: frame_alloc_cases [where mem = mem]; use al in auto)+
  show "utbl_ok p r" by (rule f(5))
  show "grown fa fa'" using f(6) by (simp add: grown_def f(3) word_order_unat)
  have ok: "\<forall>r' \<in> {r}. utbl_ok p r'" using f(5) by simp
  note e = empty_spaces [OF ok]
  have keep: "utbl_get mem' t i = utbl_get (\<lambda>_. 0) t i" if "t \<in> tables_of p (\<lambda>_. 0) {r}" "i < ENTRIES p" for t i
  proof -
    have "t = r" using that(1) e(2) by simp
    then show ?thesis using zero_frame [OF f(5,5) that(2), of mem] f(1,2) by (simp add: utbl_get_def)
  qed
  note c = spaces_cong [OF e(1) keep]
  have z: "user_leaf p (\<lambda>_. 0) r va = 0" for va
    by (simp add: user_leaf_def translate_def utbl_get_def split: option.split)
  then show leaf: "user_leaf p mem' r va = 0" for va using c(3) [of r va] by simp
  have tb: "tables_of p mem' {r} = {r}" using c(2) e(2) by simp
  have lt: "r < fa_next fa'" using f(1,6) GRANULE_bounds(1) [of p] by (simp add: word_order_unat)
  have "us_inv p fa' mem' {r}" using f(4) c(1) tb lt by (simp add: us_inv_def)
  moreover have "spaces_safe p mem' {r}" "user_frames p mem' {r} = {}"
    using leaf by (simp_all add: spaces_safe_def user_safe_def user_frames_def)
  moreover have "fa_start fa \<le> r" "\<And>f. f \<in> F \<Longrightarrow> f < r" using fa F f(1) by (auto simp: fa_ok_def)
  ultimately show "build_inv p F fa' mem' {r}"
    using F lt f(3) tb by (auto simp: build_inv_def intro: less_trans)
qed

lemma build_grow:
  assumes inv: "build_inv p F fa mem R" and new: "us_inv p fa' mem' R" "spaces_safe p mem' R" "user_frames p mem' R \<subseteq> F"
    and tb: "tables_of p mem' R \<subseteq> tables_of p mem R \<union> {t. fa_next fa \<le> t}"
    and fa: "fa_start fa' = fa_start fa" "fa_next fa \<le> fa_next fa'"
  shows "build_inv p F fa' mem' R"
proof -
  have F: "utbl_ok p f \<and> fa_start fa \<le> f \<and> f < fa_next fa" if "f \<in> F" for f using inv that by (simp add: build_inv_def)
  have s: "fa_start fa \<le> fa_next fa" using inv by (simp add: build_inv_def us_inv_def fa_ok_def)
  have T: "t \<notin> F \<and> fa_start fa \<le> t" if "t \<in> tables_of p mem' R" for t
  proof (cases "fa_next fa \<le> t")
    case True
    then show ?thesis using F s by fastforce
  next
    case False
    then have "t \<in> tables_of p mem R" using tb that by blast
    then show ?thesis using inv unfolding build_inv_def by blast
  qed
  have "f < fa_next fa'" if "f \<in> F" for f using F [OF that] fa(2) by auto
  with F have F': "\<forall>f \<in> F. utbl_ok p f \<and> fa_start fa' \<le> f \<and> f < fa_next fa'" by (simp add: fa(1))
  have "F \<inter> tables_of p mem' R = {}" "\<forall>t \<in> tables_of p mem' R. fa_start fa' \<le> t" using T fa(1) by auto
  with F' new show ?thesis unfolding build_inv_def by simp
qed

lemma build_map_page:
  assumes inv: "build_inv p F fa mem R" and r: "r \<in> R" and pa: "pa \<in> F"
  shows "\<exists>res fa' mem'. us_map_page p r va pa (user_attrs pm) fa mem = Inr (res, fa', mem') \<and>
    build_inv p F fa' mem' R \<and> grown fa fa'"
proof -
  have us: "us_inv p fa mem R" and F: "\<forall>f \<in> F. utbl_ok p f \<and> fa_start fa \<le> f \<and> f < fa_next fa"
    using inv by (simp_all add: build_inv_def)
  from us r show ?thesis
  proof (cases rule: us_map_page_cases [where va = va and pa = pa and attrs = "user_attrs pm"])
    case (fail e fa' mem')
    have "user_frames p mem' R = user_frames p mem R" by (rule user_frames_cong) (rule fail(5))
    then have "build_inv p F fa' mem' R"
      using inv fail(5) by (intro build_grow [OF inv fail(2) _ _ fail(6,4,7)]) (simp_all add: build_inv_def spaces_safe_def)
    with fail(1,3,4,7) show ?thesis by (auto simp: grown_def)
  next
    case (mapped fa' mem')
    have lf: "leaf_frame p (pa OR user_attrs pm) = pa"
      using F pa by (intro leaf_frame_attrs) (auto simp: utbl_ok_def)
    have "user_frames p mem' R \<subseteq> insert pa (user_frames p mem R)"
    proof
      fix f assume "f \<in> user_frames p mem' R"
      then obtain r' va' where a: "r' \<in> R" "user_leaf p mem' r' va' \<noteq> 0" "f = leaf_frame p (user_leaf p mem' r' va')"
        by (rule user_framesE)
      show "f \<in> insert pa (user_frames p mem R)"
      proof (cases "r' = r \<and> page_no p va' = page_no p va")
        case False
        then have "user_leaf p mem' r' va' = user_leaf p mem r' va'" using mapped(6) [OF a(1)] by auto
        then show ?thesis using a by (auto simp: user_frames_def)
      qed (use a mapped(6) [OF a(1)] lf in simp)
    qed
    moreover have "spaces_safe p mem' R"
      using inv mapped(6) user_leaf_safe(1) by (simp add: build_inv_def spaces_safe_def)
    moreover have "user_frames p mem R \<subseteq> F" using inv by (simp add: build_inv_def)
    ultimately have "build_inv p F fa' mem' R"
      using pa by (intro build_grow [OF inv mapped(2) _ _ mapped(7,4,8)]) auto
    with mapped(1,3,4,8) show ?thesis by (auto simp: grown_def)
  qed
qed

lemma build_map_loop:
  assumes "build_inv p F fa mem R" "r \<in> R"
    "unat va + unat len \<le> 18446744073709551616" "unat pa + unat len \<le> 281474976710656"
    "aligned (GRANULE p) pa" "aligned (GRANULE p) len" "aligned (GRANULE p) off" "frames_in p pa len \<subseteq> F"
  shows "\<exists>res fa' mem'. us_map_range_loop p r va pa len (user_attrs pm) off fa mem = Inr (res, fa', mem') \<and>
     build_inv p F fa' mem' R \<and> grown fa fa'"
  using assms
proof (induction p r va pa len "user_attrs pm" off fa mem rule: us_map_range_loop.induct)
  case (1 p r va pa len off fa mem)
  note step = us_map_range_loop.simps [of p r va pa len "user_attrs pm" off fa mem]
  show ?case
  proof (cases "off < len")
    case True
    then have lt: "unat off < unat len" by (simp add: word_order_unat)
    have va: "add_pn va off = Inr (va + off)" and pa: "add_pn pa off = Inr (pa + off)"
      using lt "1.prems"(3,4) by (auto intro!: add_pn_ok)
    have "unat off + unat (GRANULE p) \<le> unat len" using lt "1.prems"(6,7) by (intro aligned_gap)
    then have g: "unat off + unat (GRANULE p) < 18446744073709551616"
      using unat_lt_64 [of len] by linarith
    note og = add_pn_ok [OF g] unat_add_64 [OF g]
    have al: "aligned (GRANULE p) (off + GRANULE p)"
      using "1.prems"(7) g by (intro aligned_add) (simp_all add: aligned_dvd)
    have u: "unat (pa + off) = unat pa + unat off" using lt "1.prems"(4) by (intro unat_add_64) simp
    have "pa + off \<in> frames_in p pa len"
      using "1.prems"(5,7) lt u by (simp add: frames_in_def aligned_dvd)
    then obtain res fa1 mem1 where m: "us_map_page p r (va + off) (pa + off) (user_attrs pm) fa mem = Inr (res, fa1, mem1)"
        "build_inv p F fa1 mem1 R" "grown fa fa1"
      using build_map_page [OF "1.prems"(1,2)] "1.prems"(8) by blast
    show ?thesis
    proof (cases res)
      case (Inl e)
      with True va pa m show ?thesis by (simp add: step)
    next
      case (Inr u)
      have m1: "us_map_page p r (va + off) (pa + off) (user_attrs pm) fa mem = Inr (Inr (), fa1, mem1)" using m(1) Inr by simp
      obtain res' fa' mem' where "us_map_range_loop p r va pa len (user_attrs pm) (off + GRANULE p) fa1 mem1 = Inr (res', fa', mem')"
          "build_inv p F fa' mem' R" "grown fa1 fa'"
        using "1.hyps" [OF True va pa m1 refl refl refl og(1) m(2) "1.prems"(2-6) al "1.prems"(8)] by blast
      with True va pa m1 m(3) og(1) show ?thesis by (auto simp: step intro: grown_trans)
    qed
  next
    case False
    with "1.prems" show ?thesis by (simp add: step)
  qed
qed

section \<open>What the address space maps\<close>

text \<open>The pages of the listed ranges, and only those, translate, each to the frame and permission listed.\<close>

definition user_exact :: "platform \<Rightarrow> memory \<Rightarrow> u64 \<Rightarrow> (u64 \<times> u64 \<times> u64 \<times> user_perm) list \<Rightarrow> bool" where
  "user_exact p mem root L \<longleftrightarrow>
     (\<forall>va e. e \<noteq> 0 \<longrightarrow> (user_leaf p mem root va = e \<longleftrightarrow>
        (\<exists>(v, pa, len, pm) \<in> set L. \<exists>k. page_offset p 0 len k \<and> page_no p va = page_no p (v + of_nat k) \<and>
           e = (pa + of_nat k) OR user_attrs pm)))"

lemma built_leaf_page: "page_no p va = page_no p va' \<Longrightarrow> user_leaf p mem r va = user_leaf p mem r va'"
  using indices_page_no [of p va va'] by (simp add: user_leaf_def)

lemma user_exact_snoc:
  assumes rm: "range_mapped p {r} r va pa len (user_attrs pm) 0 (user_leaf p mem) (user_leaf p mem')"
    and ex: "user_exact p mem r L" and len: "\<And>k. page_offset p 0 len k \<longleftrightarrow> page_offset p 0 n k"
  shows "user_exact p mem' r (L @ [(va, pa, n, pm)])"
  unfolding user_exact_def
proof (intro allI impI)
  fix va' e assume "e \<noteq> (0 :: u64)"
  with range_mapped_exact [OF rm built_leaf_page, of r e va'] ex
  show "(user_leaf p mem' r va' = e) = (\<exists>(v, pa, len, pm) \<in> set (L @ [(va, pa, n, pm)]).
      \<exists>k. page_offset p 0 len k \<and> page_no p va' = page_no p (v + of_nat k) \<and> e = pa + of_nat k OR user_attrs pm)"
    by (auto simp: user_exact_def len)
qed

lemma user_exact_cong: "user_exact p mem r L \<Longrightarrow> (\<And>va. user_leaf p mem' r va = user_leaf p mem r va) \<Longrightarrow> user_exact p mem' r L"
  by (simp add: user_exact_def)

lemma build_map_range:
  assumes inv: "build_inv p F fa mem R" and r: "r \<in> R" and fr: "frames_in p pa len \<subseteq> F" "unat pa + unat len \<le> 281474976710656"
  shows "\<exists>res fa' mem'. us_map_range p r va pa len pm fa mem = Inr (res, fa', mem') \<and>
    build_inv p F fa' mem' R \<and> grown fa fa' \<and>
    (\<forall>u. res = Inr u \<longrightarrow> range_mapped p R r va pa len (user_attrs pm) 0 (user_leaf p mem) (user_leaf p mem'))"
proof (cases "aligned (GRANULE p) va \<and> aligned (GRANULE p) pa \<and> aligned (GRANULE p) len \<and> len \<noteq> 0 \<and>
    GRANULE p \<le> va \<and> unat va + unat len \<le> 281474976710656")
  case True
  then have c: "checked_add va len = Some (va + len)" "\<not> push_bit 48 1 < va + len" "\<not> va < GRANULE p"
    by (auto simp: checked_add_def word_order_unat unat_add_64)
  have run: "us_map_range p r va pa len pm fa mem = us_map_range_loop p r va pa len (user_attrs pm) 0 fa mem"
    using True c by (simp add: us_map_range_def)
  have z: "aligned (GRANULE p) 0" by (simp add: aligned_def)
  have us: "us_inv p fa mem R" "spaces_safe p mem R" using inv by (simp_all add: build_inv_def)
  have b: "unat va + unat len \<le> 18446744073709551616" "unat pa + unat len \<le> 18446744073709551616"
    using True fr(2) by linarith+
  obtain res fa' mem' where l: "us_map_range_loop p r va pa len (user_attrs pm) 0 fa mem = Inr (res, fa', mem')"
      "build_inv p F fa' mem' R" "grown fa fa'"
    using build_map_loop [OF inv r b(1) fr(2) _ _ z fr(1)] True by blast
  moreover have "range_mapped p R r va pa len (user_attrs pm) 0 (user_leaf p mem) (user_leaf p mem')" if "res = Inr u" for u
    using us_map_range_loop_correct [OF us(1) r us(2) b _ _ z, of pm] True l(1) that by auto
  ultimately show ?thesis using run by auto
next
  case False
  then have "\<exists>e. us_map_range p r va pa len pm fa mem = Inr (Inl e, fa, mem)"
    by (auto simp: us_map_range_def checked_add_def word_order_unat unat_add_64 not_le)
  with inv show ?thesis by auto
qed

section \<open>Segments\<close>

lemma round_up_value:
  assumes "unat x \<le> 281474976710656"
  obtains y where "round_up_pn p x = Inr y" "unat x \<le> unat y" "unat y < unat x + unat (GRANULE p)" "aligned (GRANULE p) y"
proof -
  let ?g = "unat (GRANULE p)"
  obtain y where y: "round_up_pn p x = Inr y" "x \<le> y" "aligned (GRANULE p) y" using round_up_ok [OF assms, of p] by blast
  define q where "q = x div GRANULE p + (if x mod GRANULE p = 0 then 0 else 1)"
  have g: "0 < ?g" using GRANULE_bounds(1) .
  have m: "checked_mul q (GRANULE p) = Some y" using y(1) by (simp add: round_up_pn_def Let_def q_def [symmetric] ok_or_Inr)
  have d: "unat x div ?g * ?g + unat x mod ?g = unat x" by simp
  have "unat (x div GRANULE p) + 1 < 18446744073709551616"
    using assms div_le_dividend [of "unat x" ?g] by (simp add: unat_div del: div_le_dividend)
  then have "unat q = unat x div ?g + (if unat x mod ?g = 0 then 0 else 1)"
    by (auto simp: q_def unat_add_64 unat_div unat_mod u64_eq_iff)
  moreover define a r where "a = unat x div ?g * ?g" "r = unat x mod ?g"
  ultimately have "unat y = a + (if r = 0 then 0 else ?g)" "a + r = unat x"
    using checked_mul_SomeD [OF m] d by (simp_all add: add_mult_distrib)
  then have "unat y < unat x + ?g" using g by (cases "r = 0") auto
  with y that show thesis by (auto simp: word_order_unat)
qed

lemma page_offset_round:
  assumes "unat x \<le> unat y" "unat y < unat x + unat (GRANULE p)" "aligned (GRANULE p) y"
  shows "page_offset p 0 y k \<longleftrightarrow> page_offset p 0 x k"
proof -
  have "k < unat x" if "k < unat y" "unat (GRANULE p) dvd k"
  proof -
    have "unat (GRANULE p) dvd unat y - k" using that assms(3) by (simp add: aligned_dvd)
    then have "unat (GRANULE p) \<le> unat y - k" using that(1) by (intro dvd_imp_le) auto
    with that(1) assms(2) show ?thesis by linarith
  qed
  with assms(1) show ?thesis by (auto simp: page_offset_def)
qed

definition seg_place :: "u64 \<Rightarrow> u64 \<Rightarrow> load_seg \<Rightarrow> u64 \<times> u64 \<times> u64 \<times> user_perm" where
  "seg_place base frames s = (ls_va s, frames + (ls_va s - base), ls_memsz s, seg_perm (ls_kind s))"

definition entry_in_text :: "u64 \<Rightarrow> load_seg list \<Rightarrow> bool" where
  "entry_in_text entry segs \<longleftrightarrow>
     (\<forall>s \<in> set segs. unat (ls_va s) \<le> unat entry \<and> unat entry < unat (ls_va s) + unat (ls_memsz s) \<longrightarrow> ls_kind s = SegText)"

lemma build_segs:
  assumes img: "frames_in p frames len \<subseteq> F" "unat frames + unat len \<le> 281474976710656" "aligned (GRANULE p) frames"
      "aligned (GRANULE p) base" "aligned (GRANULE p) len" "unat image_end = unat base + unat len"
    and "build_inv p F fa mem {r}" "user_exact p mem r L"
  shows "\<exists>res fa' mem'. map_segs p r base image_end entry frames segs fa mem = Inr (res, fa', mem') \<and>
    build_inv p F fa' mem' {r} \<and> grown fa fa' \<and>
    (\<forall>u. res = Inr u \<longrightarrow> user_exact p mem' r (L @ map (seg_place base frames) segs) \<and> entry_in_text entry segs)"
  using assms(7,8)
proof (induction segs arbitrary: fa mem L)
  case (Cons s segs)
  let ?bad = "ls_va s < base \<or> image_end < ls_va s + ls_memsz s \<or> \<not> aligned (GRANULE p) (ls_va s) \<or> ls_memsz s = 0"
  show ?case
  proof (cases "checked_add (ls_va s) (ls_memsz s) = None \<or> ?bad")
    case True
    have "map_segs p r base image_end entry frames (s # segs) fa mem = Inr (Inl BadLayout, fa, mem)"
    proof (cases "checked_add (ls_va s) (ls_memsz s)")
      case (Some e)
      then have "e = ls_va s + ls_memsz s" by (simp add: checked_add_Some)
      with True Some show ?thesis by auto
    qed simp
    with Cons.prems show ?thesis by simp
  next
    case False
    let ?off = "ls_va s - base"
    have ca: "checked_add (ls_va s) (ls_memsz s) = Some (ls_va s + ls_memsz s)"
        and se: "unat (ls_va s + ls_memsz s) = unat (ls_va s) + unat (ls_memsz s)"
      using False by (auto simp: checked_add_def unat_add_64 split: if_splits)
    have v: "unat base \<le> unat (ls_va s)" "unat (ls_va s) + unat (ls_memsz s) \<le> unat base + unat len" "aligned (GRANULE p) (ls_va s)"
      using False se img(6) by (auto simp: word_order_unat)
    have off: "unat ?off = unat (ls_va s) - unat base" using v(1) by (rule unat_sub_64)
    have "unat (ls_memsz s) \<le> 281474976710656" using v img(2) by linarith
    then obtain mapped where mp: "round_up_pn p (ls_memsz s) = Inr mapped" "unat (ls_memsz s) \<le> unat mapped"
        "unat mapped < unat (ls_memsz s) + unat (GRANULE p)" "aligned (GRANULE p) mapped"
      by (rule round_up_value)
    have fit: "unat ?off + unat mapped \<le> unat len"
    proof (rule ccontr)
      assume "\<not> unat ?off + unat mapped \<le> unat len"
      moreover have "unat (GRANULE p) dvd unat ?off + unat mapped" "unat (GRANULE p) dvd unat len"
        using off v(1,3) mp(4) img(4,5) by (simp_all add: aligned_dvd)
      ultimately have "unat len + unat (GRANULE p) \<le> unat ?off + unat mapped"
        using dvd_imp_le [of "unat (GRANULE p)" "unat ?off + unat mapped - unat len"] by simp
      then show False using mp(3) off v(1,2) by linarith
    qed
    have pa: "add_pn frames ?off = Inr (frames + ?off)" "unat (frames + ?off) = unat frames + unat ?off"
      using fit img(2) by (auto intro!: add_pn_ok unat_add_64)
    have sub: "frames_in p (frames + ?off) mapped \<subseteq> F"
      using fit img(1) pa(2) by (fastforce simp: frames_in_def)
    obtain res fa1 mem1 where m: "us_map_range p r (ls_va s) (frames + ?off) mapped (seg_perm (ls_kind s)) fa mem = Inr (res, fa1, mem1)"
        "build_inv p F fa1 mem1 {r}" "grown fa fa1"
        "\<And>u. res = Inr u \<Longrightarrow> range_mapped p {r} r (ls_va s) (frames + ?off) mapped (user_attrs (seg_perm (ls_kind s))) 0
          (user_leaf p mem) (user_leaf p mem1)"
      using build_map_range [OF Cons.prems(1) _ sub] fit img(2) pa(2) by fastforce
    have step: "map_segs p r base image_end entry frames (s # segs) fa mem =
        (case res of Inl e \<Rightarrow> Inr (Inl (SpawnMmu e), fa1, mem1)
         | Inr _ \<Rightarrow> if ls_va s \<le> entry \<and> entry < ls_va s + ls_memsz s \<and> ls_kind s \<noteq> SegText
                    then Inr (Inl BadLayout, fa1, mem1) else map_segs p r base image_end entry frames segs fa1 mem1)"
      using False ca mp(1) pa(1) m(1) by simp
    show ?thesis
    proof (cases res)
      case (Inl e)
      with step m(2,3) show ?thesis by simp
    next
      case (Inr u)
      have ex: "user_exact p mem1 r (L @ [seg_place base frames s])"
        unfolding seg_place_def
        using user_exact_snoc [OF m(4) [OF Inr] Cons.prems(2) page_offset_round [OF mp(2-4)]] .
      show ?thesis
      proof (cases "ls_va s \<le> entry \<and> entry < ls_va s + ls_memsz s \<and> ls_kind s \<noteq> SegText")
        case False
        obtain res' fa' mem' where "map_segs p r base image_end entry frames segs fa1 mem1 = Inr (res', fa', mem')"
            "build_inv p F fa' mem' {r}" "grown fa1 fa'"
            "\<forall>u. res' = Inr u \<longrightarrow> user_exact p mem' r ((L @ [seg_place base frames s]) @ map (seg_place base frames) segs) \<and> entry_in_text entry segs"
          using Cons.IH [OF m(2) ex] by blast
        with step Inr False m(3) show ?thesis
          by (auto simp: entry_in_text_def word_order_unat se intro: grown_trans)
      qed (use step Inr m(2,3) in simp)
    qed
  qed
qed (auto simp: entry_in_text_def)

section \<open>Loading\<close>

text \<open>A computation that ends without parking the core, in a state with the property.\<close>

definition ends :: "('a \<Rightarrow> bool) \<Rightarrow> halt + 'a \<Rightarrow> bool" where
  "ends P m \<longleftrightarrow> (\<exists>x. m = Inr x \<and> P x)"

lemma ends_Inr [simp]: "ends P (Inr x) \<longleftrightarrow> P x"
  by (simp add: ends_def)

lemma ends_mono: "ends P m \<Longrightarrow> (\<And>x. P x \<Longrightarrow> Q x) \<Longrightarrow> ends Q m"
  by (auto simp: ends_def)

lemma ends_step:
  assumes "ends (\<lambda>(r, fa, mem). \<forall>x. r = Inr x \<longrightarrow> Q x fa mem) m" "\<And>e fa mem. ends P (g e fa mem)"
    "\<And>x fa mem. Q x fa mem \<Longrightarrow> ends P (h x fa mem)"
  shows "ends P (and_then m (\<lambda>(r, fa, mem). case r of Inl e \<Rightarrow> g e fa mem | Inr x \<Rightarrow> h x fa mem))"
  using assms by (auto simp: ends_def split: sum.split)

lemma ends_alloc:
  assumes "build_inv p F fa mem R"
  shows "ends (\<lambda>(r, fa', mem'). \<forall>b. r = Inr b \<longrightarrow>
      (\<exists>len. unat len = unat n * unat (GRANULE p) \<and> unat b + unat len \<le> 281474976710656 \<and> utbl_ok p b \<and>
         build_inv p (F \<union> frames_in p b len) fa' mem' R \<and> grown fa fa' \<and>
         (\<forall>r \<in> R. \<forall>va. user_leaf p mem' r va = user_leaf p mem r va))) (alloc_contig p n fa mem)"
proof -
  have "fa_ok p fa" using assms by (simp add: build_inv_def us_inv_def)
  then obtain res fa' mem' where run: "alloc_contig p n fa mem = Inr (res, fa', mem')"
    by (cases rule: alloc_contig_cases [where n = n and mem = mem]) auto
  show ?thesis
  proof (cases res)
    case (Inr b)
    show ?thesis
      using build_alloc [OF assms run [unfolded Inr]] unfolding run Inr by fastforce
  qed (simp add: run)
qed

lemma ends_root:
  assumes "build_inv p F fa mem {}"
  shows "ends (\<lambda>(r, fa', mem'). \<forall>root. r = Inr root \<longrightarrow>
      build_inv p F fa' mem' {root} \<and> grown fa fa' \<and> user_exact p mem' root [] \<and> utbl_ok p root) (user_space_new p fa mem)"
proof -
  have "fa_ok p fa" using assms by (simp add: build_inv_empty)
  then obtain res fa' mem' where run: "frame_alloc_alloc p fa mem = Inr (res, fa', mem')"
    by (cases rule: frame_alloc_cases [where mem = mem]) auto
  show ?thesis
  proof (cases res)
    case (Inr b)
    show ?thesis
      using build_root [OF assms run [unfolded Inr]] unfolding user_space_new_def run Inr by (simp add: user_exact_def)
  qed (simp add: run user_space_new_def)
qed

lemma ends_range:
  assumes inv: "build_inv p F fa mem {r}" and ex: "user_exact p mem r L"
    and fr: "frames_in p pa len \<subseteq> F" "unat pa + unat len \<le> 281474976710656"
  shows "ends (\<lambda>(res, fa', mem'). \<forall>u. res = Inr u \<longrightarrow>
      build_inv p F fa' mem' {r} \<and> grown fa fa' \<and> user_exact p mem' r (L @ [(va, pa, len, pm)])) (us_map_range p r va pa len pm fa mem)"
  using build_map_range [OF inv _ fr, of r va pm] user_exact_snoc [OF _ ex refl, of va pa len pm] by (fastforce simp: ends_def)

lemma one_frame: "aligned (GRANULE p) f \<Longrightarrow> frames_in p f (GRANULE p) = {f}"
proof -
  assume a: "aligned (GRANULE p) f"
  have "x = f" if "x \<in> frames_in p f (GRANULE p)" for x
    using aligned_gap [of "GRANULE p" f x] that a by (fastforce simp: frames_in_def u64_eq_iff)
  then show ?thesis using a GRANULE_bounds(1) [of p] by (auto simp: frames_in_def)
qed

lemma STACK_frames: "unat (USER_STACK_SIZE div GRANULE p) * unat (GRANULE p) = unat USER_STACK_SIZE"
  by (cases p) (simp_all add: USER_STACK_SIZE_def GRANULE_def)

definition root_maps :: "platform \<Rightarrow> u64 \<Rightarrow> load_seg list \<Rightarrow> u64 \<Rightarrow> u64 \<Rightarrow> u64 \<Rightarrow> (u64 \<times> u64 \<times> u64 \<times> user_perm) list" where
  "root_maps p base segs frames stack bi =
     map (seg_place base frames) segs @
     [(USER_STACK_TOP - USER_STACK_SIZE, stack, USER_STACK_SIZE, RwUser), (BOOTINFO_VA, bi, GRANULE p, RoUser)]"

lemma ends_segs:
  assumes img: "frames_in p frames len \<subseteq> F" "unat frames + unat len \<le> 281474976710656" "aligned (GRANULE p) frames"
      "aligned (GRANULE p) base" "aligned (GRANULE p) len" "unat image_end = unat base + unat len"
    and inv: "build_inv p F fa mem {r}" "user_exact p mem r []"
  shows "ends (\<lambda>(res, fa', mem'). \<forall>u. res = Inr u \<longrightarrow> build_inv p F fa' mem' {r} \<and> grown fa fa' \<and>
      user_exact p mem' r (map (seg_place base frames) segs) \<and> entry_in_text entry segs)
    (map_segs p r base image_end entry frames segs fa mem)"
  using build_segs [OF assms, of entry segs] by (auto simp: ends_def)

text \<open>The stack and the bootinfo page come last.\<close>

lemma ends_stack:
  assumes inv: "build_inv p F fa mem {root}" and ex: "user_exact p mem root (map (seg_place base frames) segs)" and bi: "bi \<in> F"
    and old: "F0 \<subseteq> F" "grown fa0 fa"
  shows "ends (\<lambda>(res, fa', mem'). \<forall>x. res = Inr x \<longrightarrow> x = t \<and> grown fa0 fa' \<and>
      (\<exists>F'. F0 \<subseteq> F' \<and> build_inv p F' fa' mem' {root}) \<and>
      (\<exists>stack. user_exact p mem' root (root_maps p base segs frames stack bi)))
    (and_then (alloc_contig p (USER_STACK_SIZE div GRANULE p) fa mem) (\<lambda>(r4, fa4, mem5).
       case r4 of Inl e \<Rightarrow> Inr (Inl (SpawnMmu e), fa4, mem5) | Inr stack_frames \<Rightarrow>
     and_then (us_map_range p root (USER_STACK_TOP - USER_STACK_SIZE) stack_frames USER_STACK_SIZE RwUser fa4 mem5) (\<lambda>(r5, fa5, mem6).
       case r5 of Inl e \<Rightarrow> Inr (Inl (SpawnMmu e), fa5, mem6) | Inr _ \<Rightarrow>
     and_then (us_map_range p root BOOTINFO_VA bi (GRANULE p) RoUser fa5 mem6) (\<lambda>(r6, fa6, mem7).
       case r6 of Inl e \<Rightarrow> Inr (Inl (SpawnMmu e), fa6, mem7) | Inr _ \<Rightarrow> Inr (Inr t, fa6, mem7)))))"
proof (rule ends_step [OF ends_alloc [OF inv]], simp, elim exE conjE)
  fix stack fa4 mem5 l
  assume l: "unat l = unat (USER_STACK_SIZE div GRANULE p) * unat (GRANULE p)" "unat stack + unat l \<le> 281474976710656"
    and b: "build_inv p (F \<union> frames_in p stack l) fa4 mem5 {root}" "grown fa fa4"
    and u: "\<forall>r \<in> {root}. \<forall>va. user_leaf p mem5 r va = user_leaf p mem r va"
  have l': "l = USER_STACK_SIZE" using l(1) STACK_frames [of p] by (simp add: u64_eq_iff)
  let ?F = "F \<union> frames_in p stack USER_STACK_SIZE"
  have bi': "utbl_ok p bi" using bi inv by (simp add: build_inv_def)
  have room: "frames_in p bi (GRANULE p) \<subseteq> ?F" "unat bi + unat (GRANULE p) \<le> 281474976710656"
    using bi bi' one_frame [of p bi] utbl_room [OF bi'] by (auto simp: utbl_ok_def)
  let ?L = "map (seg_place base frames) segs"
  show "ends (\<lambda>(res, fa', mem'). \<forall>x. res = Inr x \<longrightarrow> x = t \<and> grown fa0 fa' \<and>
      (\<exists>F'. F0 \<subseteq> F' \<and> build_inv p F' fa' mem' {root}) \<and>
      (\<exists>stack. user_exact p mem' root (root_maps p base segs frames stack bi)))
    (and_then (us_map_range p root (USER_STACK_TOP - USER_STACK_SIZE) stack USER_STACK_SIZE RwUser fa4 mem5) (\<lambda>(r5, fa5, mem6).
       case r5 of Inl e \<Rightarrow> Inr (Inl (SpawnMmu e), fa5, mem6) | Inr _ \<Rightarrow>
     and_then (us_map_range p root BOOTINFO_VA bi (GRANULE p) RoUser fa5 mem6) (\<lambda>(r6, fa6, mem7).
       case r6 of Inl e \<Rightarrow> Inr (Inl (SpawnMmu e), fa6, mem7) | Inr _ \<Rightarrow> Inr (Inr t, fa6, mem7))))"
    apply (rule ends_step [OF ends_range [of p ?F fa4 mem5 root ?L]])
    using b u ex l l' apply (auto intro: user_exact_cong) [5]
    apply (elim conjE)
    apply (rule ends_step [OF ends_range [OF _ _ room]], assumption, assumption, simp)
    apply (elim conjE)
    subgoal premises q for u5 fa5 mem6 u6 fa6 mem7
    proof -
      have "grown fa0 fa6" using old(2) b(2) q(2,5) by (blast intro: grown_trans)
      moreover have "user_exact p mem7 root (root_maps p base segs frames stack bi)" using q(6) by (simp add: root_maps_def)
      moreover have "F0 \<subseteq> ?F" using old(1) by blast
      ultimately show ?thesis using q(4) by (simp, blast)
    qed
    done
qed

text \<open>The image, its frames copied and its segments mapped.\<close>

lemma spawn_root_builds:
  assumes inv: "build_inv p F fa mem {}" and bi: "bi \<in> F"
  shows "ends (\<lambda>(res, fa', mem'). \<forall>tcb root. res = Inr (tcb, root) \<longrightarrow>
      grown fa fa' \<and> (\<exists>F'. F \<subseteq> F' \<and> build_inv p F' fa' mem' {root}) \<and> utbl_ok p root \<and>
      (\<exists>frames stack. user_exact p mem' root (root_maps p base segs frames stack bi)) \<and> entry_in_text entry segs \<and>
      base \<le> entry \<and> unat entry < unat base + length img \<and>
      tcb = t0\<lparr>t_ctx := context_zeroed\<lparr>c_elr := entry, c_sp := USER_STACK_TOP, c_spsr := 0\<rparr>, t_ttbr0_pa := root\<rparr>)
    (spawn_root p img base entry segs bi fa mem t0)"
    (is "ends ?P _")
proof (cases "\<not> aligned (GRANULE p) base \<or> \<not> aligned (GRANULE p) (of_nat (length img)) \<or> (of_nat (length img) :: u64) = 0 \<or> segs = []")
  case False
  define len :: u64 where "len = of_nat (length img)"
  have al: "aligned (GRANULE p) base" "aligned (GRANULE p) len" "len \<noteq> 0" "unat len \<le> length img"
    using False by (auto simp: len_def unat_of_nat)
  have len: "unat (len div GRANULE p) * unat (GRANULE p) = unat len"
    using al(2) by (simp add: unat_div aligned_dvd)
  show ?thesis
  proof (cases "checked_add base len")
    case (Some image_end)
    have ie: "unat image_end = unat base + unat len" using checked_add_SomeD [OF Some] .
    have bad: "ends ?P (Inr (Inl e, fa', mem'))" for e fa' mem' by simp
    have nb: "\<not> (\<not> aligned (GRANULE p) base \<or> \<not> aligned (GRANULE p) len \<or> len = 0 \<or> segs = [])"
      using False by (simp add: len_def)
    show ?thesis
      unfolding spawn_root_def Let_def len_def [symmetric] Some if_not_P [OF nb] option.case
      apply (rule ends_step [OF ends_alloc [OF inv] bad])
      apply (elim exE conjE)
      subgoal premises q1 for frames fa1 mem1 l
      proof -
        have l: "l = len" using q1(1) len by (simp add: u64_eq_iff)
        have pn: "add_pn frames KERNEL_VA_OFFSET = Inr (frames + KERNEL_VA_OFFSET)"
          using q1(3) by (intro add_pn_ok) (simp add: utbl_ok_def KERNEL_VA_OFFSET_def)
        define F1 where "F1 = F \<union> frames_in p frames len"
        have b1: "build_inv p F1 fa1 mem' {}" for mem' using q1(4) unfolding F1_def l by (simp add: build_inv_empty)
        have img: "frames_in p frames len \<subseteq> F1" "unat frames + unat len \<le> 281474976710656" "aligned (GRANULE p) frames"
          using q1(2,3) l by (auto simp: F1_def utbl_ok_def)
        show ?thesis
          unfolding pn and_then_simps
          apply (rule ends_step [OF ends_root [OF b1] bad])
          apply (elim conjE)
          subgoal premises q2 for root fa2 mem2
            apply (rule ends_step [OF ends_segs [OF img al(1,2) ie q2(1,3)] bad])
            apply (elim conjE)
            subgoal premises q3 for u fa3 mem3
            proof (cases "base \<le> entry \<and> entry < image_end")
              case True
              have bi1: "bi \<in> F1" and F1: "F \<subseteq> F1" using bi by (simp_all add: F1_def)
              have g: "grown fa fa3" using q1(5) q2(2) q3(2) by (blast intro: grown_trans)
              have "unat entry < unat base + length img" using True ie al(4) by (auto simp: word_order_unat)
              then show ?thesis
                unfolding if_not_P [of "\<not> (base \<le> entry \<and> entry < image_end)", unfolded not_not, OF True]
                using True q2(4) q3(4)
                by (intro ends_mono [OF ends_stack [OF q3(1,3) bi1 F1 g]]) (auto, blast)
            qed simp
            done
          done
      qed
      done
  qed (use False len_def in \<open>simp add: spawn_root_def\<close>)
qed (simp add: spawn_root_def Let_def)

section \<open>Properties\<close>



end
