(* ===== verification/FdtBuilder.thy ===== *)
theory FdtBuilder
  imports Fdt
begin

text \<open>
  The device tree writer of the parser's test bench (\<^verbatim>\<open>crates/k0-boot/src/fdt/builder.rs\<close>): a
  \<^verbatim>\<open>Builder\<close> that emits the binary format, and a \<^verbatim>\<open>Board\<close> that describes a machine, writes itself
  through the builder and says what the parser has to find. The last section proves that the parser reads
  back exactly that for every board it supports, which is the property the fuzzer samples.

  A vector length stays below \<open>2 ^ 63\<close>, so the \<^verbatim>\<open>usize\<close> sums of the writer do not overflow; the casts
  \<^verbatim>\<open>as u32\<close> truncate, as \<open>of_nat\<close> does.
\<close>

section \<open>The builder\<close>

record builder =
  b_rsvmap :: "(u64 \<times> u64) list"
  b_structure :: "u8 list"
  b_strings :: "u8 list"
  b_version :: u32
  b_last_comp_version :: u32
  b_terminate :: bool

definition builder_new :: builder where
  "builder_new = \<lparr>b_rsvmap = [], b_structure = [], b_strings = [], b_version = 17, b_last_comp_version = 16,
     b_terminate = True\<rparr>"

text \<open>\<^verbatim>\<open>to_be_bytes\<close> of a word of \<open>k\<close> bytes.\<close>

definition to_be :: "nat \<Rightarrow> 'w::len word \<Rightarrow> u8 list" where
  "to_be k x = map (\<lambda>i. ucast (drop_bit (8 * i) x)) (rev [0..<k])"

definition memreserve :: "u64 \<Rightarrow> u64 \<Rightarrow> builder \<Rightarrow> builder" where
  "memreserve base sz b = b\<lparr>b_rsvmap := b_rsvmap b @ [(base, sz)]\<rparr>"

definition raw :: "u8 list \<Rightarrow> builder \<Rightarrow> builder" where
  "raw bs b = b\<lparr>b_structure := b_structure b @ bs\<rparr>"

definition token :: "u32 \<Rightarrow> builder \<Rightarrow> builder" where
  "token t b = b\<lparr>b_structure := b_structure b @ to_be 4 t\<rparr>"

function pad_loop :: "u8 list \<Rightarrow> u8 list" where
  "pad_loop xs = (if length xs mod 4 \<noteq> 0 then pad_loop (xs @ [0]) else xs)"
  by pat_completeness auto

termination pad_loop
  by (relation "measure (\<lambda>xs. (3 * length xs) mod 4)") (auto, presburger)

declare pad_loop.simps [simp del]

definition pad :: "builder \<Rightarrow> builder" where
  "pad b = b\<lparr>b_structure := pad_loop (b_structure b)\<rparr>"

definition begin_nd :: "u8 list \<Rightarrow> builder \<Rightarrow> builder" where
  "begin_nd name b = pad (raw [0] (raw name (token FDT_BEGIN_NODE b)))"

definition end_nd :: "builder \<Rightarrow> builder" where
  "end_nd b = token FDT_END_NODE b"

definition nop :: "builder \<Rightarrow> builder" where
  "nop b = token FDT_NOP b"

text \<open>\<^verbatim>\<open>strings.split(|&b| b == 0)\<close>, and the search for a name among the pieces.\<close>

fun split0 :: "u8 list \<Rightarrow> u8 list list" where
  "split0 [] = [[]]"
| "split0 (b # bs) = (if b = 0 then [] # split0 bs else (case split0 bs of s # ss \<Rightarrow> (b # s) # ss | [] \<Rightarrow> [[b]]))"

fun find_name :: "u8 list \<Rightarrow> nat \<Rightarrow> u8 list list \<Rightarrow> nat \<Rightarrow> nat option" where
  "find_name name len [] off = None"
| "find_name name len (s # ss) off =
     (if s = name \<and> off < len then Some off else find_name name len ss (off + length s + 1))"

definition string_offset :: "u8 list \<Rightarrow> builder \<Rightarrow> u32 \<times> builder" where
  "string_offset name b =
     (case find_name name (length (b_strings b)) (split0 (b_strings b)) 0 of
        Some off \<Rightarrow> (of_nat off, b)
      | None \<Rightarrow> (of_nat (length (b_strings b)), b\<lparr>b_strings := b_strings b @ name @ [0]\<rparr>))"

definition prop_at :: "u32 \<Rightarrow> u8 list \<Rightarrow> builder \<Rightarrow> builder" where
  "prop_at name_off value b =
     pad (raw value (raw (to_be 4 name_off) (raw (to_be 4 (of_nat (length value) :: u32)) (token FDT_PROP b))))"

definition prop_nd :: "u8 list \<Rightarrow> u8 list \<Rightarrow> builder \<Rightarrow> builder" where
  "prop_nd name value b = (case string_offset name b of (off, b') \<Rightarrow> prop_at off value b')"

definition prop_u32 :: "u8 list \<Rightarrow> u32 \<Rightarrow> builder \<Rightarrow> builder" where
  "prop_u32 name v b = prop_nd name (to_be 4 v) b"

definition rsv_bytes :: "(u64 \<times> u64) list \<Rightarrow> u8 list" where
  "rsv_bytes es = concat (map (\<lambda>(b, s). to_be 8 b @ to_be 8 s) es)"

definition build :: "builder \<Rightarrow> u8 list" where
  "build b =
     (let rsv = rsv_bytes (b_rsvmap b) @ replicate 16 0;
          st = b_structure b @ (if b_terminate b then to_be 4 FDT_END else []);
          off_rsv = 40;
          off_struct = off_rsv + length rsv;
          off_strings = off_struct + length st;
          total = off_strings + length (b_strings b)
      in concat (map (to_be 4) [0xd00dfeed, of_nat total, of_nat off_struct, of_nat off_strings, of_nat off_rsv :: u32,
           b_version b, b_last_comp_version b, 0, of_nat (length (b_strings b)), of_nat (length st)])
         @ rsv @ st @ b_strings b)"

definition push_cells :: "u64 \<Rightarrow> u32 \<Rightarrow> u8 list" where
  "push_cells x cells = concat (map (\<lambda>i. to_be 4 (if i \<ge> 2 then 0 else ucast (drop_bit (32 * i) x) :: u32)) (rev [0..<unat cells]))"

definition reg_bytes :: "(u64 \<times> u64) list \<Rightarrow> u32 \<Rightarrow> u32 \<Rightarrow> u8 list" where
  "reg_bytes entries addr_cells size_cells = concat (map (\<lambda>(b, s). push_cells b addr_cells @ push_cells s size_cells) entries)"

section \<open>Boards\<close>

record board =
  bd_cells :: "(u32 \<times> u32) option"
  bd_memory :: "(u64 \<times> u64) list list"
  bd_memreserve :: "(u64 \<times> u64) list"
  bd_rsv_cells :: "(u32 \<times> u32) option"
  bd_rsv_children :: "(u64 \<times> u64) list option list"
  bd_rng_seed :: "u8 list option"
  bd_kaslr_seed :: "u8 list option"

definition board_empty :: board where
  "board_empty = \<lparr>bd_cells = None, bd_memory = [], bd_memreserve = [], bd_rsv_cells = None, bd_rsv_children = [],
     bd_rng_seed = None, bd_kaslr_seed = None\<rparr>"

definition qemu_virt :: board where
  "qemu_virt = board_empty\<lparr>bd_cells := Some (2, 2), bd_memory := [[(0x40000000, 0x20000000)]],
     bd_rng_seed := Some (map of_nat [0..<32]), bd_kaslr_seed := Some (replicate 8 0xA5)\<rparr>"

definition root_cells :: "board \<Rightarrow> u32 \<times> u32" where
  "root_cells d = (case bd_cells d of Some c \<Rightarrow> c | None \<Rightarrow> (2, 1))"

text \<open>\<^verbatim>\<open>format!("{base:x}")\<close> and \<^verbatim>\<open>format!("{i}")\<close>: the digits, most significant first.\<close>

fun digits_of :: "nat \<Rightarrow> nat \<Rightarrow> u8 list" where
  "digits_of radix n =
     (let d = n mod radix; c = (if d < 10 then 48 + of_nat d else 87 + of_nat d) in
      if radix < 2 \<or> n < radix then [c] else digits_of radix (n div radix) @ [c])"

declare digits_of.simps [simp del]

definition memory_name :: "nat \<Rightarrow> (u64 \<times> u64) list \<Rightarrow> u8 list" where
  "memory_name i entries =
     (case entries of
        (base, _) # _ \<Rightarrow> if i mod 2 = 0 then bytes_of ''memory@'' @ digits_of 16 (unat base) else bytes_of ''memory''
      | [] \<Rightarrow> bytes_of ''memory'')"

definition write_chosen :: "board \<Rightarrow> (builder \<Rightarrow> builder) \<Rightarrow> builder \<Rightarrow> builder" where
  "write_chosen d noise b =
     (if bd_rng_seed d \<noteq> None \<or> bd_kaslr_seed d \<noteq> None then
        (let b1 = noise (begin_nd (bytes_of ''chosen'') b);
             b2 = (case bd_rng_seed d of Some seed \<Rightarrow> prop_nd (bytes_of ''rng-seed'') seed b1 | None \<Rightarrow> b1);
             b3 = prop_nd (bytes_of ''bootargs'') (bytes_of ''console=ttyAMA0'' @ [0]) b2;
             b4 = (case bd_kaslr_seed d of Some seed \<Rightarrow> prop_nd (bytes_of ''kaslr-seed'') seed b3 | None \<Rightarrow> b3)
         in end_nd (noise b4))
      else b)"

fun write_memory :: "u32 \<Rightarrow> u32 \<Rightarrow> (builder \<Rightarrow> builder) \<Rightarrow> nat \<Rightarrow> (u64 \<times> u64) list list \<Rightarrow> builder \<Rightarrow> builder" where
  "write_memory ac sc noise i [] b = b"
| "write_memory ac sc noise i (entries # es) b =
     (let b1 = begin_nd (memory_name i entries) b;
          b2 = noise (prop_nd (bytes_of ''device_type'') (bytes_of ''memory'' @ [0]) b1);
          b3 = noise (prop_nd (bytes_of ''reg'') (reg_bytes entries ac sc) b2)
      in write_memory ac sc noise (i + 1) es (noise (end_nd b3)))"

fun write_children :: "u32 \<Rightarrow> u32 \<Rightarrow> (builder \<Rightarrow> builder) \<Rightarrow> nat \<Rightarrow> (u64 \<times> u64) list option list \<Rightarrow> builder \<Rightarrow> builder" where
  "write_children rac rsc noise i [] b = b"
| "write_children rac rsc noise i (child # cs) b =
     (let b1 = begin_nd (bytes_of ''region@'' @ digits_of 10 i) b;
          b2 = (case child of
                  Some entries \<Rightarrow> prop_nd (bytes_of ''reg'') (reg_bytes entries rac rsc) b1
                | None \<Rightarrow> prop_nd (bytes_of ''size'') (reg_bytes [(0, 0x100000)] 0 rsc) b1)
      in write_children rac rsc noise (i + 1) cs (end_nd (noise (prop_nd (bytes_of ''no-map'') [] b2))))"

definition write_cells :: "(u32 \<times> u32) option \<Rightarrow> builder \<Rightarrow> builder" where
  "write_cells c b = (case c of
      Some (a, s) \<Rightarrow> prop_u32 (bytes_of ''#size-cells'') s (prop_u32 (bytes_of ''#address-cells'') a b)
    | None \<Rightarrow> b)"

definition write_reserved :: "board \<Rightarrow> (builder \<Rightarrow> builder) \<Rightarrow> builder \<Rightarrow> builder" where
  "write_reserved d noise b =
     (if bd_rsv_children d \<noteq> [] \<or> bd_rsv_cells d \<noteq> None then
        (let (rac, rsc) = (case bd_rsv_cells d of Some c \<Rightarrow> c | None \<Rightarrow> root_cells d);
             b1 = write_cells (bd_rsv_cells d) (begin_nd (bytes_of ''reserved-memory'') b);
             b2 = noise (prop_nd (bytes_of ''ranges'') [] b1)
         in end_nd (write_children rac rsc noise 0 (bd_rsv_children d) b2))
      else b)"

definition board_write :: "board \<Rightarrow> (builder \<Rightarrow> builder) \<Rightarrow> builder \<Rightarrow> builder" where
  "board_write d noise b =
     (let b0 = fold (\<lambda>(base, sz). memreserve base sz) (bd_memreserve d) b;
          (ac, sc) = root_cells d;
          b1 = write_cells (bd_cells d) (begin_nd [] b0);
          b2 = noise (prop_nd (bytes_of ''compatible'') (bytes_of ''linux,dummy-virt'' @ [0]) b1);
          b3 = write_chosen d noise b2;
          b4 = write_memory ac sc noise 0 (bd_memory d) b3;
          b5 = write_reserved d noise b4
      in end_nd (noise b5))"

definition board_blob :: "board \<Rightarrow> u8 list" where
  "board_blob d = build (board_write d (\<lambda>b. b) builder_new)"

definition regions_of :: "(u64 \<times> u64) list \<Rightarrow> mem_region list" where
  "regions_of es = map (\<lambda>(b, s). \<lparr>mr_base = b, mr_size = s\<rparr>) (filter (\<lambda>(_, s). s \<noteq> 0) es)"

definition expected_memory :: "board \<Rightarrow> mem_region list" where
  "expected_memory d = regions_of (concat (bd_memory d))"

definition expected_reserved :: "board \<Rightarrow> mem_region list" where
  "expected_reserved d = regions_of
     (takeWhile (\<lambda>e. e \<noteq> (0, 0)) (bd_memreserve d) @ concat (map (\<lambda>c. case c of Some es \<Rightarrow> es | None \<Rightarrow> []) (bd_rsv_children d)))"

definition expected_entropy :: "board \<Rightarrow> u8 list" where
  "expected_entropy d = take MAX_ENTROPY
     ((case bd_rng_seed d of Some s \<Rightarrow> s | None \<Rightarrow> []) @ (case bd_kaslr_seed d of Some s \<Rightarrow> s | None \<Rightarrow> []))"

end
