(* ===== verification/FdtRT.thy ===== *)
theory FdtRT
  imports FdtBuilder FdtSafe
begin

text \<open>
  Parsing what the builder wrote. Each operation of the builder appends bytes to the structure block, and the
  parser, started where they begin, arrives where they end in a state that depends on the operation only
  (\<open>runs\<close>). Such runs compose, so a tree is parsed node by node.
\<close>

section \<open>Bytes\<close>

lemma to_be_Suc: "to_be (Suc k) x = ucast (drop_bit (8 * k) x) # to_be k x"
  by (simp add: to_be_def)

lemma length_to_be [simp]: "length (to_be k x) = k"
  by (simp add: to_be_def)

lemma foldl_to_be:
  "foldl (\<lambda>acc b. push_bit 8 acc OR ucast b) (acc :: 'a::len word) (to_be k (x :: 'b::len word)) =
     push_bit (8 * k) acc OR take_bit (8 * k) (ucast x)"
proof (induction k arbitrary: acc)
  case 0
  then show ?case by (simp add: to_be_def)
next
  case (Suc k)
  have "push_bit (8 * k) (push_bit 8 acc OR ucast (ucast (drop_bit (8 * k) x) :: u8)) OR take_bit (8 * k) (ucast x) =
      push_bit (8 * Suc k) acc OR take_bit (8 * Suc k) (ucast x :: 'a word)"
    by (rule bit_word_eqI) (auto simp: bit_simps add.commute [of 8])
  then show ?case by (simp add: to_be_Suc Suc.IH)
qed

lemma from_be_to_be: "from_be (to_be k x) = take_bit (8 * k) (ucast x)"
  by (simp add: from_be_def foldl_to_be)

lemma from_be_32: "from_be (to_be 4 (x :: u32)) = x"
  by (simp add: from_be_to_be take_bit_word_eq_self)

lemma from_be_64: "from_be (to_be 8 (x :: u64)) = x"
  by (simp add: from_be_to_be take_bit_word_eq_self)

text \<open>\<open>at_off blob off bs\<close>: the bytes \<open>bs\<close> stand at offset \<open>off\<close>.\<close>

definition at_off :: "u8 list \<Rightarrow> nat \<Rightarrow> u8 list \<Rightarrow> bool" where
  "at_off blob off bs \<longleftrightarrow> off + length bs \<le> length blob \<and> take (length bs) (drop off blob) = bs"

lemma at_off_append: "at_off blob off (xs @ ys) \<longleftrightarrow> at_off blob off xs \<and> at_off blob (off + length xs) ys"
proof -
  have "take (length xs + length ys) (drop off blob) = take (length xs) (drop off blob) @ take (length ys) (drop (off + length xs) blob)"
    by (simp add: take_add add.commute)
  then show ?thesis
    by (auto simp: at_off_def append_eq_append_conv)
qed

lemma at_off_blob: "at_off (pre @ bs @ post) (length pre) bs"
  by (simp add: at_off_def)

lemma at_off_prefix: "at_off blob off bs \<Longrightarrow> prefix cs bs \<Longrightarrow> at_off blob off cs"
  by (auto simp: prefix_def at_off_append)

lemma at_off_Cons: "at_off blob off (x # ys) \<longleftrightarrow> at_off blob off [x] \<and> at_off blob (Suc off) ys"
  using at_off_append [of blob off "[x]" ys] by simp

lemma be32_at: "at_off blob off (to_be 4 v) \<Longrightarrow> off < 2 ^ 63 \<Longrightarrow> be32 blob off = Inr v"
  by (simp add: be32_def at_off_def get_range_def wrap_us_def from_be_32)

lemma be32_us_at: "at_off blob off (to_be 4 (of_nat n :: u32)) \<Longrightarrow> off < 2 ^ 63 \<Longrightarrow> n < 2 ^ 32 \<Longrightarrow> be32_us blob off = Inr n"
  by (simp add: be32_us_def be32_at unat_of_nat)

lemma be64_at: "at_off blob off (to_be 8 v) \<Longrightarrow> off < 2 ^ 63 \<Longrightarrow> be64 blob off = Inr v"
  by (simp add: be64_def at_off_def get_range_def wrap_us_def from_be_64)

lemma slice_at: "at_off blob off bs \<Longrightarrow> slice blob off (off + length bs) = Inr bs"
  by (simp add: slice_def get_range_def at_off_def)

lemma position0_at:
  assumes "at_off blob off (name @ [0])" "0 \<notin> set name" "off + length name < e" "e \<le> length blob"
  shows "\<exists>rest. get_range blob off e = Some rest \<and> position0 rest = Some (length name)"
proof -
  have d: "drop off blob = (name @ [0]) @ drop (off + length name + 1) blob"
    using assms(1) append_take_drop_id [of "length name + 1" "drop off blob"]
    by (simp add: at_off_def add.commute add.left_commute)
  have "take (e - off) (drop off blob) = name @ 0 # take (e - off - length name - 1) (drop (off + length name + 1) blob)"
    using assms(3) by (subst d) (simp add: take_Cons')
  moreover have "takeWhile (\<lambda>b. b \<noteq> 0) (name @ 0 # ys) = name" for ys
    using assms(2) by (subst takeWhile_append2) auto
  ultimately have "position0 (take (e - off) (drop off blob)) = Some (length name)"
    by (simp add: position0_def)
  then show ?thesis using assms(3,4) by (auto simp: get_range_def)
qed

section \<open>Padding and the string table\<close>

definition padding :: "nat \<Rightarrow> nat" where
  "padding n = (if n mod 4 = 0 then 0 else 4 - n mod 4)"

lemma padding_Suc: "n mod 4 \<noteq> 0 \<Longrightarrow> padding n = Suc (padding (Suc n))"
proof -
  assume n: "n mod 4 \<noteq> 0"
  obtain r where r: "n mod 4 = r" "r < 4" by simp
  then show ?thesis using n by (auto simp: padding_def mod_Suc)
qed

lemma pad_loop_eq: "pad_loop xs = xs @ replicate (padding (length xs)) 0"
proof (induction xs rule: pad_loop.induct)
  case (1 xs)
  show ?case
  proof (cases "length xs mod 4 = 0")
    case True
    then show ?thesis by (simp add: pad_loop.simps [of xs] padding_def)
  next
    case False
    then show ?thesis using 1 padding_Suc [OF False] by (subst pad_loop.simps) simp
  qed
qed

lemma padding_dvd: "\<exists>q. n + padding n = 4 * q \<and> padding n < 4"
proof (cases "n mod 4 = 0")
  case True
  then show ?thesis by (auto simp: padding_def)
next
  case False
  obtain r q where r: "n mod 4 = r" "r < 4" "n = 4 * q + r" by (metis mod_less_divisor mult_div_mod_eq zero_less_numeral)
  then have "n + padding n = 4 * (q + 1) \<and> padding n < 4" using False unfolding padding_def r(1) by auto
  then show ?thesis by blast
qed

lemma dvd4_padding: "4 dvd n + padding n"
  using padding_dvd [of n] by auto

lemma padding_add4: "4 dvd k \<Longrightarrow> padding (k + n) = padding n"
  by (simp add: padding_def mod_add_eq [of k 4 n, symmetric] mod_0_imp_dvd)

lemma align4_padding:
  assumes "n < 2 ^ 63"
  shows "align4 n = Inr (n + padding n)"
proof -
  have c: "checked_us n 3 = Some (n + 3)" using assms by (simp add: checked_us_def)
  obtain q where q: "n + padding n = 4 * q" "padding n < 4" using padding_dvd by blast
  then have e: "n + 3 = 4 * q + (3 - padding n)" by linarith
  have m: "(4 * q + r) mod 4 = r" if "r < 4" for r using that by simp
  have "(4 * q + (3 - padding n)) mod 4 = 3 - padding n" by (rule m) simp
  then have "(n + 3) - (n + 3) mod 4 = n + padding n" unfolding e q(1) by simp
  then show ?thesis unfolding align4_def c by (simp only: option.map ok_or_simps)
qed

lemma split0_cons: "0 \<notin> set p \<Longrightarrow> split0 (p @ 0 # s) = p # split0 s"
  by (induction p) auto

lemma split0_none: "0 \<notin> set s \<Longrightarrow> split0 s = [s]"
  by (induction s) auto

definition terminated :: "u8 list \<Rightarrow> bool" where
  "terminated s \<longleftrightarrow> s = [] \<or> last s = 0"

lemma find_name_at:
  "terminated s \<Longrightarrow> find_name name (off + length s) (split0 s) off = Some k \<Longrightarrow> off \<le> k \<and> at_off s (k - off) (name @ [0])"
proof (induction "length s" arbitrary: s off rule: less_induct)
  case less
  show ?case
  proof (cases "0 \<in> set s")
    case False
    then have "s = []" using less.prems(1) last_in_set [of s] by (metis terminated_def)
    then show ?thesis using less.prems(2) by (simp split: if_splits)
  next
    case True
    then obtain p t where s: "s = p @ 0 # t" "0 \<notin> set p" by (meson split_list_first)
    show ?thesis
    proof (cases "p = name")
      case True
      then show ?thesis using less.prems(2) s by (simp add: split0_cons at_off_def)
    next
      case False
      have t: "terminated t" using less.prems(1) s(1) by (auto simp: terminated_def split: if_splits)
      have "find_name name (off + length p + 1 + length t) (split0 t) (off + length p + 1) = Some k"
        using less.prems(2) False s by (simp add: split0_cons ac_simps)
      then have k: "off + length p + 1 \<le> k" "at_off t (k - (off + length p + 1)) (name @ [0])"
        using less.hyps [of t "off + length p + 1"] t s(1) by simp_all
      then obtain j where j: "k = off + length p + 1 + j" using le_Suc_ex by blast
      have "drop (k - off) s = drop j t" by (simp add: s(1) j)
      then show ?thesis using k(2) by (simp add: at_off_def s(1) j)
    qed
  qed
qed

lemma string_offset_at:
  assumes "terminated (b_strings b)" "string_offset name b = (off, b')"
  shows "\<exists>k. off = of_nat k \<and> at_off (b_strings b') k (name @ [0]) \<and> terminated (b_strings b') \<and>
    prefix (b_strings b) (b_strings b') \<and> b_structure b' = b_structure b \<and> b_rsvmap b' = b_rsvmap b \<and>
    b_version b' = b_version b \<and> b_last_comp_version b' = b_last_comp_version b \<and> b_terminate b' = b_terminate b"
proof (cases "find_name name (length (b_strings b)) (split0 (b_strings b)) 0")
  case None
  then show ?thesis using assms
    by (auto simp: string_offset_def at_off_def terminated_def intro!: exI [of _ "length (b_strings b)"])
next
  case (Some k)
  then show ?thesis using assms find_name_at [of "b_strings b" name 0 k]
    by (auto simp: string_offset_def)
qed

section \<open>What the written blob holds\<close>

definition off_struct_of :: "builder \<Rightarrow> nat" where
  "off_struct_of B = 40 + length (rsv_bytes (b_rsvmap B)) + 16"

definition hdr_of :: "builder \<Rightarrow> fdt_header" where
  "hdr_of B = (let e = off_struct_of B + length (b_structure B) + 4 in
     \<lparr>fh_struct_end = e, fh_off_strings = e, fh_strings_end = e + length (b_strings B)\<rparr>)"

text \<open>The blob is terminated, and its size fits the 32-bit fields of the header.\<close>

definition fits32 :: "builder \<Rightarrow> bool" where
  "fits32 B \<longleftrightarrow> b_terminate B \<and> length (build B) < 2 ^ 32"

lemma concat_to_be: "length (concat (map (to_be 4) vs)) = 4 * length vs"
  by (induction vs) simp_all

lemma build_eq:
  assumes "b_terminate B"
  shows "\<exists>hdr. build B = hdr @ (rsv_bytes (b_rsvmap B) @ replicate 16 0) @ (b_structure B @ to_be 4 FDT_END) @ b_strings B \<and>
    hdr = concat (map (to_be 4) [0xd00dfeed, of_nat (length (build B)), of_nat (off_struct_of B), of_nat (fh_off_strings (hdr_of B)),
       of_nat 40 :: u32, b_version B, b_last_comp_version B, 0, of_nat (length (b_strings B)), of_nat (length (b_structure B) + 4)]) \<and>
    length hdr = 40"
proof -
  let ?hdr = "\<lambda>n. concat (map (to_be 4) [0xd00dfeed, of_nat n, of_nat (off_struct_of B), of_nat (fh_off_strings (hdr_of B)),
       of_nat 40 :: u32, b_version B, b_last_comp_version B, 0, of_nat (length (b_strings B)), of_nat (length (b_structure B) + 4)])"
  have l: "length (?hdr n) = 40" for n by simp
  let ?n = "off_struct_of B + (length (b_structure B) + 4) + length (b_strings B)"
  have b: "build B = ?hdr ?n @ (rsv_bytes (b_rsvmap B) @ replicate 16 0) @ (b_structure B @ to_be 4 FDT_END) @ b_strings B"
    using assms by (simp add: build_def Let_def off_struct_of_def hdr_of_def ac_simps)
  then have "length (build B) = ?n" using l by (simp add: off_struct_of_def)
  then show ?thesis using b l by metis
qed

lemma build_parts:
  assumes "b_terminate B"
  obtains hdr where "length hdr = 40"
    "build B = hdr @ (rsv_bytes (b_rsvmap B) @ replicate 16 0) @ (b_structure B @ to_be 4 FDT_END) @ b_strings B"
  using build_eq [OF assms] by blast

lemma length_build:
  assumes "b_terminate B"
  shows "length (build B) = fh_strings_end (hdr_of B)"
proof (rule build_parts [OF assms])
  fix hdr :: "u8 list"
  assume h: "length hdr = 40" and b: "build B = hdr @ (rsv_bytes (b_rsvmap B) @ replicate 16 0) @ (b_structure B @ to_be 4 FDT_END) @ b_strings B"
  show ?thesis using h by (simp add: b off_struct_of_def hdr_of_def Let_def)
qed

lemma build_structure:
  assumes "b_terminate B"
  shows "at_off (build B) (off_struct_of B) (b_structure B @ to_be 4 FDT_END)"
proof -
  obtain hdr where h: "length hdr = 40" and b: "build B = hdr @ (rsv_bytes (b_rsvmap B) @ replicate 16 0) @ (b_structure B @ to_be 4 FDT_END) @ b_strings B"
    by (rule build_parts [OF assms])
  show ?thesis
    using at_off_blob [of "hdr @ rsv_bytes (b_rsvmap B) @ replicate 16 0" "b_structure B @ to_be 4 FDT_END" "b_strings B"] h
    by (simp add: b off_struct_of_def)
qed

lemma build_strings:
  assumes "b_terminate B"
  shows "at_off (build B) (fh_off_strings (hdr_of B)) (b_strings B)"
proof -
  obtain hdr where h: "length hdr = 40" and b: "build B = hdr @ (rsv_bytes (b_rsvmap B) @ replicate 16 0) @ (b_structure B @ to_be 4 FDT_END) @ b_strings B"
    by (rule build_parts [OF assms])
  show ?thesis
    using at_off_blob [of "hdr @ (rsv_bytes (b_rsvmap B) @ replicate 16 0) @ b_structure B @ to_be 4 FDT_END" "b_strings B" "[]"] h
    by (simp add: b off_struct_of_def hdr_of_def Let_def ac_simps)
qed

lemma build_rsv:
  assumes "b_terminate B"
  shows "at_off (build B) 40 (rsv_bytes (b_rsvmap B) @ replicate 16 0)"
proof -
  obtain hdr where h: "length hdr = 40" and b: "build B = hdr @ (rsv_bytes (b_rsvmap B) @ replicate 16 0) @ (b_structure B @ to_be 4 FDT_END) @ b_strings B"
    by (rule build_parts [OF assms])
  show ?thesis
    using at_off_blob [of hdr "rsv_bytes (b_rsvmap B) @ replicate 16 0" "(b_structure B @ to_be 4 FDT_END) @ b_strings B"] h
    by (simp add: b)
qed

lemma build_header:
  assumes "fits32 B"
  shows "be32_us (build B) 8 = Inr (off_struct_of B)" "be32_us (build B) 12 = Inr (fh_off_strings (hdr_of B))"
    "be32_us (build B) 16 = Inr 40" "be32 (build B) 20 = Inr (b_version B)" "be32 (build B) 24 = Inr (b_last_comp_version B)"
    "be32_us (build B) 32 = Inr (length (b_strings B))" "be32_us (build B) 36 = Inr (length (b_structure B) + 4)"
proof -
  have t: "b_terminate B" "length (build B) < 2 ^ 32" using assms by (simp_all add: fits32_def)
  obtain hdr rest where b: "build B = hdr @ rest"
    "hdr = concat (map (to_be 4) [0xd00dfeed, of_nat (length (build B)), of_nat (off_struct_of B), of_nat (fh_off_strings (hdr_of B)),
       of_nat 40 :: u32, b_version B, b_last_comp_version B, 0, of_nat (length (b_strings B)), of_nat (length (b_structure B) + 4)])"
    using build_eq [OF t(1)] by blast
  have "at_off (build B) 0 hdr" using at_off_blob [of "[]" hdr rest] b(1) by simp
  then have a: "at_off (build B) 8 (to_be 4 (of_nat (off_struct_of B) :: u32))" "at_off (build B) 12 (to_be 4 (of_nat (fh_off_strings (hdr_of B)) :: u32))"
    "at_off (build B) 16 (to_be 4 (of_nat 40 :: u32))" "at_off (build B) 20 (to_be 4 (b_version B))" "at_off (build B) 24 (to_be 4 (b_last_comp_version B))"
    "at_off (build B) 32 (to_be 4 (of_nat (length (b_strings B)) :: u32))" "at_off (build B) 36 (to_be 4 (of_nat (length (b_structure B) + 4) :: u32))"
    by (simp_all only: b(2) list.map concat.simps append_Nil2 at_off_append length_to_be) simp_all
  have l: "off_struct_of B < 2 ^ 32" "fh_off_strings (hdr_of B) < 2 ^ 32" "length (b_strings B) < 2 ^ 32" "length (b_structure B) + 4 < 2 ^ 32"
    using t length_build [OF t(1)] by (simp_all add: hdr_of_def Let_def)
  show "be32_us (build B) 8 = Inr (off_struct_of B)" "be32_us (build B) 12 = Inr (fh_off_strings (hdr_of B))"
    "be32_us (build B) 16 = Inr 40" "be32 (build B) 20 = Inr (b_version B)" "be32 (build B) 24 = Inr (b_last_comp_version B)"
    "be32_us (build B) 32 = Inr (length (b_strings B))" "be32_us (build B) 36 = Inr (length (b_structure B) + 4)"
    using be32_us_at [OF a(1) _ l(1)] be32_us_at [OF a(2) _ l(2)] be32_us_at [OF a(3)] be32_at [OF a(4)] be32_at [OF a(5)]
      be32_us_at [OF a(6) _ l(3)] be32_us_at [OF a(7) _ l(4)] by simp_all
qed

section \<open>Parsing what an operation wrote\<close>

definition extends :: "builder \<Rightarrow> builder \<Rightarrow> bool" where
  "extends b b' \<longleftrightarrow> prefix (b_structure b) (b_structure b') \<and> prefix (b_strings b) (b_strings b')"

definition good :: "builder \<Rightarrow> bool" where
  "good b \<longleftrightarrow> 4 dvd length (b_structure b) \<and> terminated (b_strings b)"

definition pos :: "builder \<Rightarrow> builder \<Rightarrow> parse_state \<Rightarrow> parse_state" where
  "pos B b st = st\<lparr>ps_off := off_struct_of B + length (b_structure b)\<rparr>"

text \<open>
  \<open>runs B b st b' st'\<close>: the operations that led from \<open>b\<close> to \<open>b'\<close> only appended, and when \<open>B\<close> is the finished
  builder, parsing its blob from where \<open>b\<close> ends in state \<open>st\<close> is parsing it from where \<open>b'\<close> ends in \<open>st'\<close>.
\<close>

definition runs :: "builder \<Rightarrow> builder \<Rightarrow> parse_state \<Rightarrow> builder \<Rightarrow> parse_state \<Rightarrow> bool" where
  "runs B b st b' st' \<longleftrightarrow> good b \<longrightarrow> extends b b' \<and> good b' \<and>
     (fits32 B \<longrightarrow> 4 dvd length (rsv_bytes (b_rsvmap B)) \<longrightarrow> extends b' B \<longrightarrow>
        parse_loop (build B) (hdr_of B) (pos B b st) = parse_loop (build B) (hdr_of B) (pos B b' st'))"

lemma extends_trans: "extends a b \<Longrightarrow> extends b c \<Longrightarrow> extends a c"
  unfolding extends_def by (meson prefix_order.trans)

lemma runs_refl: "runs B b st b st"
  by (simp add: runs_def extends_def)

lemma runs_trans: "runs B b st b1 st1 \<Longrightarrow> runs B b1 st1 b2 st2 \<Longrightarrow> runs B b st b2 st2"
  unfolding runs_def by (metis extends_trans)

lemma runs_step:
  assumes "extends b b'" "good b'"
    and "fits32 B \<Longrightarrow> 4 dvd length (rsv_bytes (b_rsvmap B)) \<Longrightarrow> extends b' B \<Longrightarrow>
      parse_token (build B) (hdr_of B) (pos B b st) = Inr (Some (pos B b' st'))"
  shows "runs B b st b' st'"
  using assms parse_loop.simps [of "build B" "hdr_of B" "pos B b st"] by (simp add: runs_def)

lemma written:
  assumes "fits32 B" "extends b' B" "b_structure b' = b_structure b @ bs"
  defines "o1 \<equiv> off_struct_of B + length (b_structure b)"
  shows "at_off (build B) o1 bs" "o1 + length bs + 4 \<le> fh_struct_end (hdr_of B)" "fh_struct_end (hdr_of B) \<le> length (build B)"
    "length (build B) < 2 ^ 32"
proof -
  obtain rest where r: "b_structure B = (b_structure b @ bs) @ rest" using assms(2,3) by (auto simp: extends_def prefix_def)
  have t: "b_terminate B" "length (build B) < 2 ^ 32" using assms(1) by (simp_all add: fits32_def)
  show "at_off (build B) o1 bs" using build_structure [OF t(1)] by (simp add: r at_off_append o1_def)
  show "o1 + length bs + 4 \<le> fh_struct_end (hdr_of B)" by (simp add: hdr_of_def Let_def o1_def r)
  show "fh_struct_end (hdr_of B) \<le> length (build B)" by (simp add: length_build [OF t(1)] hdr_of_def Let_def)
  show "length (build B) < 2 ^ 32" by (rule t(2))
qed

lemma enter_node_eq:
  "enter_node d n st = st\<lparr>ps_depth := d,
     ps_memory_depth := (if d = 2 \<and> (n = bytes_of ''memory'' \<or> prefix (bytes_of ''memory@'') n) then Some d else ps_memory_depth st),
     ps_chosen_depth := (if d = 2 \<and> n = bytes_of ''chosen'' then Some d else ps_chosen_depth st),
     ps_rsv_node := (d = 2 \<and> n = bytes_of ''reserved-memory'' \<or> ps_rsv_node st),
     ps_rsv_addr_cells := (if d = 2 \<and> n = bytes_of ''reserved-memory'' then ps_addr_cells st else ps_rsv_addr_cells st),
     ps_rsv_size_cells := (if d = 2 \<and> n = bytes_of ''reserved-memory'' then ps_size_cells st else ps_rsv_size_cells st)\<rparr>"
proof -
  let ?m = "d = 2 \<and> (n = bytes_of ''memory'' \<or> prefix (bytes_of ''memory@'') n)"
  let ?c = "d = 2 \<and> n = bytes_of ''chosen''"
  let ?r = "d = 2 \<and> n = bytes_of ''reserved-memory''"
  show ?thesis
    unfolding enter_node_def Let_def by (cases ?m; cases ?c; cases ?r; simp only: if_True if_False; cases st; simp)
qed

lemma enter_node_off: "(enter_node d n (st\<lparr>ps_off := x\<rparr>))\<lparr>ps_off := y\<rparr> = (enter_node d n st)\<lparr>ps_off := y\<rparr>"
  unfolding enter_node_eq by (cases st) simp

lemma end_node_eq:
  "end_node st = (if ps_depth st = 0 then Err BadStructure else
     Inr (st\<lparr>ps_depth := ps_depth st - 1,
       ps_memory_depth := (if ps_memory_depth st = Some (ps_depth st) then None else ps_memory_depth st),
       ps_chosen_depth := (if ps_chosen_depth st = Some (ps_depth st) then None else ps_chosen_depth st),
       ps_rsv_node := (ps_rsv_node st \<and> ps_depth st \<noteq> 2)\<rparr>))"
proof (cases st)
  case (fields off ac sc d m c r rac rsc info)
  then show ?thesis
    by (cases "m = Some d"; cases "c = Some d"; cases r; cases "d = 2") (simp_all add: end_node_def Let_def sub_us_def)
qed

lemma end_node_at: "end_node (st\<lparr>ps_off := x\<rparr>) = and_then (end_node st) (\<lambda>s. Inr (s\<lparr>ps_off := x\<rparr>))"
  unfolding end_node_eq by (cases st) simp

lemma prop_effect_off: "prop_effect n v (st\<lparr>ps_off := x\<rparr>) = and_then (prop_effect n v st) (\<lambda>s. Inr (s\<lparr>ps_off := x\<rparr>))"
proof -
  have br: "(if c then a else b) = and_then (if c then a' else b') f"
    if "a = and_then a' f" "b = and_then b' f" for c and a b :: "parse_state parsed" and a' b' :: "parse_state parsed" and f
    using that by simp
  have eff: "and_then m (\<lambda>c. Inr (g c)) = and_then (and_then m (\<lambda>c. Inr (h c))) (\<lambda>s. Inr (f s))"
    if "\<And>c. g c = f (h c)" for m :: "'a parsed" and g :: "'a \<Rightarrow> parse_state" and h f
    using that by (cases m) simp_all
  have eff2: "and_then m (\<lambda>c. Inr (g c)) = and_then (and_then m (\<lambda>c. Inr (h c))) (\<lambda>s. Inr (f s))"
    if "\<And>c. g c = f (h c)" for m :: "'b parsed" and g :: "'b \<Rightarrow> parse_state" and h f
    using that by (cases m) simp_all
  show ?thesis
  proof (cases st)
    case (fields off ac sc d m c r rac rsc info)
    show ?thesis
      unfolding prop_effect_def fields parse_state.simps by (intro br eff eff2) (simp_all only: and_then_simps parse_state.simps)
  qed
qed

lemma off_struct_dvd: "4 dvd length (rsv_bytes (b_rsvmap B)) \<Longrightarrow> 4 dvd off_struct_of B"
  by (simp add: off_struct_of_def)

lemma tokens_differ [simp]:
  "FDT_BEGIN_NODE \<noteq> FDT_END_NODE" "FDT_BEGIN_NODE \<noteq> FDT_PROP" "FDT_BEGIN_NODE \<noteq> FDT_NOP" "FDT_BEGIN_NODE \<noteq> FDT_END"
  "FDT_END_NODE \<noteq> FDT_BEGIN_NODE" "FDT_END_NODE \<noteq> FDT_PROP" "FDT_END_NODE \<noteq> FDT_NOP" "FDT_END_NODE \<noteq> FDT_END"
  "FDT_PROP \<noteq> FDT_BEGIN_NODE" "FDT_PROP \<noteq> FDT_END_NODE" "FDT_PROP \<noteq> FDT_NOP" "FDT_PROP \<noteq> FDT_END"
  "FDT_NOP \<noteq> FDT_BEGIN_NODE" "FDT_NOP \<noteq> FDT_END_NODE" "FDT_NOP \<noteq> FDT_PROP" "FDT_NOP \<noteq> FDT_END"
  "FDT_END \<noteq> FDT_BEGIN_NODE" "FDT_END \<noteq> FDT_END_NODE" "FDT_END \<noteq> FDT_PROP" "FDT_END \<noteq> FDT_NOP"
  by (simp_all add: fdt_tokens)

lemma token_at:
  assumes "fits32 B" "extends b' B" "b_structure b' = b_structure b @ to_be 4 t @ bs"
  shows "parse_token (build B) (hdr_of B) (pos B b st) =
    (let st1 = st\<lparr>ps_off := off_struct_of B + length (b_structure b) + 4\<rparr> in
      if t = FDT_BEGIN_NODE then and_then (begin_node (build B) (hdr_of B) st1) (\<lambda>st2. Inr (Some st2))
      else if t = FDT_END_NODE then and_then (end_node st1) (\<lambda>st2. Inr (Some st2))
      else if t = FDT_PROP then and_then (prop_node (build B) (hdr_of B) st1) (\<lambda>st2. Inr (Some st2))
      else if t = FDT_NOP then Inr (Some st1)
      else if t = FDT_END then (if ps_depth st1 \<noteq> 0 then Err BadStructure else Inr None)
      else Err BadStructure)"
proof -
  note w = written [OF assms]
  have "at_off (build B) (off_struct_of B + length (b_structure b)) (to_be 4 t)" using w(1) by (simp add: at_off_append)
  then have "be32 (build B) (off_struct_of B + length (b_structure b)) = Inr t" using w(2,3,4) by (intro be32_at) simp_all
  then show ?thesis using w(2,3,4) by (simp add: parse_token_def pos_def add_us_def)
qed

lemma runs_begin:
  assumes "0 \<notin> set name" "ps_depth st < MAX_DEPTH" "ps_depth st = 0 \<Longrightarrow> name = []"
  shows "runs B b st (begin_nd name b) (enter_node (ps_depth st + 1) name st)"
proof (cases "good b")
  case True
  let ?pad = "replicate (padding (length name + 1)) (0 :: u8)"
  have dv: "4 dvd length (b_structure b)" using True by (simp add: good_def)
  have bs: "b_structure (begin_nd name b) = b_structure b @ to_be 4 FDT_BEGIN_NODE @ (name @ [0]) @ ?pad"
    using padding_add4 [of "length (b_structure b) + 4" "length name + 1"] dv
    by (simp add: begin_nd_def pad_def raw_def token_def pad_loop_eq ac_simps)
  have ss: "b_strings (begin_nd name b) = b_strings b" by (simp add: begin_nd_def pad_def raw_def token_def)
  have len: "length (b_structure (begin_nd name b)) = length (b_structure b) + 4 + (length name + 1 + padding (length name + 1))"
    by (simp add: bs)
  show ?thesis
  proof (rule runs_step)
    show "extends b (begin_nd name b)" by (simp add: extends_def bs ss)
    show "good (begin_nd name b)"
      using True dvd_add [OF dvd_add [OF dv dvd_refl] dvd4_padding [of "length name + 1"]] unfolding good_def len ss by blast
  next
    assume B: "fits32 B" "4 dvd length (rsv_bytes (b_rsvmap B))" "extends (begin_nd name b) B"
    note w = written [OF B(1,3) bs]
    let ?o = "off_struct_of B + length (b_structure b) + 4"
    have at: "at_off (build B) ?o (name @ [0])" using w(1) unfolding at_off_append length_to_be by blast
    have lt: "?o + length name + 1 + padding (length name + 1) + 4 \<le> fh_struct_end (hdr_of B)" using w(2) by simp
    obtain rest where r: "get_range (build B) ?o (fh_struct_end (hdr_of B)) = Some rest" "position0 rest = Some (length name)"
      using position0_at [OF at assms(1) _ w(3)] lt by auto
    have nm: "slice (build B) ?o (?o + length name) = Inr name"
      using at by (intro slice_at) (simp add: at_off_append)
    have al: "align4 (?o + length name + 1) = Inr (?o + length name + 1 + padding (length name + 1))"
      using align4_padding [of "?o + length name + 1"] padding_add4 [of ?o "length name + 1"] off_struct_dvd [OF B(2)] dv lt w(3,4)
      by (simp add: add.assoc)
    have "begin_node (build B) (hdr_of B) (st\<lparr>ps_off := ?o\<rparr>) =
        Inr ((enter_node (ps_depth st + 1) name st)\<lparr>ps_off := ?o + length name + 1 + padding (length name + 1)\<rparr>)"
      using assms(2,3) lt w(3,4) r nm al
      by (auto simp: begin_node_def add_u32_def add_us_def MAX_DEPTH_def enter_node_off)
    then show "parse_token (build B) (hdr_of B) (pos B b st) = Inr (Some (pos B (begin_nd name b) (enter_node (ps_depth st + 1) name st)))"
      unfolding token_at [OF B(1,3) bs] by (simp add: Let_def pos_def len ac_simps)
  qed
qed (simp add: runs_def)

lemma runs_token:
  assumes "t = FDT_END_NODE \<and> end_node st = Inr st' \<or> t = FDT_NOP \<and> st' = st"
  shows "runs B b st (token t b) st'"
proof (cases "good b")
  case True
  have bs: "b_structure (token t b) = b_structure b @ to_be 4 t @ []" "b_strings (token t b) = b_strings b" by (simp_all add: token_def)
  show ?thesis
  proof (rule runs_step)
    show "extends b (token t b)" "good (token t b)" using True by (simp_all add: extends_def good_def bs)
    assume B: "fits32 B" "extends (token t b) B"
    show "parse_token (build B) (hdr_of B) (pos B b st) = Inr (Some (pos B (token t b) st'))"
      using assms unfolding token_at [OF B bs(1)] by (auto simp: Let_def pos_def bs end_node_at ac_simps)
  qed
qed (simp add: runs_def)

lemma prop_name_at:
  assumes "fits32 B" "prefix s (b_strings B)" "at_off s k (name @ [0])" "0 \<notin> set name"
  shows "prop_name (build B) (fh_off_strings (hdr_of B)) (fh_strings_end (hdr_of B)) k = Inr name" "k < 2 ^ 32"
proof -
  have t: "b_terminate B" "length (build B) < 2 ^ 32" using assms(1) by (simp_all add: fits32_def)
  let ?o = "fh_off_strings (hdr_of B)"
  obtain rest where r: "b_strings B = s @ rest" using assms(2) by (auto simp: prefix_def)
  have "s = take k s @ (name @ [0]) @ drop (k + length name + 1) s"
    using assms(3) by (metis (no_types, lifting) append_take_drop_id at_off_def drop_drop length_append_singleton add.commute add_Suc_right Suc_eq_plus1)
  moreover have "length (take k s) = k" using assms(3) by (simp add: at_off_def)
  moreover have "at_off (build B) ?o s" using build_strings [OF t(1)] by (simp add: r at_off_append)
  ultimately have at: "at_off (build B) (?o + k) (name @ [0])" using at_off_append by metis
  have lt: "?o + k + length name < fh_strings_end (hdr_of B)"
    using assms(3) by (simp add: hdr_of_def Let_def r at_off_def)
  have e: "fh_strings_end (hdr_of B) = length (build B)" by (simp add: length_build [OF t(1)])
  obtain rs where rs: "get_range (build B) (?o + k) (fh_strings_end (hdr_of B)) = Some rs" "position0 rs = Some (length name)"
    using position0_at [OF at assms(4) lt] e by auto
  have "slice (build B) (?o + k) (?o + k + length name) = Inr name" using at by (intro slice_at) (simp add: at_off_append)
  then show "prop_name (build B) ?o (fh_strings_end (hdr_of B)) k = Inr name"
    using rs lt e t(2) by (simp add: prop_name_def checked_us_def add_us_def slice_def)
  show "k < 2 ^ 32" using lt e t(2) by simp
qed

lemma runs_prop:
  assumes "0 \<notin> set name" "ps_depth st \<noteq> 0" "prop_effect name v st = Inr st'"
  shows "runs B b st (prop_nd name v b) st'"
proof (cases "good b")
  case True
  obtain off b1 where so: "string_offset name b = (off, b1)" by fastforce
  have dv: "4 dvd length (b_structure b)" "terminated (b_strings b)" using True by (simp_all add: good_def)
  obtain k where k: "off = of_nat k" "at_off (b_strings b1) k (name @ [0])" "terminated (b_strings b1)"
      "prefix (b_strings b) (b_strings b1)" "b_structure b1 = b_structure b"
    using string_offset_at [OF dv(2) so] by blast
  let ?pad = "replicate (padding (length v)) (0 :: u8)"
  have bs: "b_structure (prop_nd name v b) = b_structure b @ to_be 4 FDT_PROP @ to_be 4 (of_nat (length v) :: u32) @ to_be 4 off @ v @ ?pad"
    using padding_add4 [of "length (b_structure b) + 12" "length v"] dv(1) k(5)
    by (simp add: prop_nd_def so prop_at_def pad_def raw_def token_def pad_loop_eq ac_simps)
  have ss: "b_strings (prop_nd name v b) = b_strings b1" by (simp add: prop_nd_def so prop_at_def pad_def raw_def token_def)
  have len: "length (b_structure (prop_nd name v b)) = length (b_structure b) + 12 + (length v + padding (length v))" by (simp add: bs)
  show ?thesis
  proof (rule runs_step)
    show "extends b (prop_nd name v b)" by (simp add: extends_def bs ss k(4))
    show "good (prop_nd name v b)"
      using k(3) dvd_add [OF dvd_add [OF dv(1), of 12] dvd4_padding [of "length v"]] unfolding good_def len ss by simp
  next
    assume B: "fits32 B" "4 dvd length (rsv_bytes (b_rsvmap B))" "extends (prop_nd name v b) B"
    note w = written [OF B(1,3) bs]
    let ?o = "off_struct_of B + length (b_structure b) + 4"
    have at: "at_off (build B) ?o (to_be 4 (of_nat (length v) :: u32))" "at_off (build B) (?o + 4) (to_be 4 off)" "at_off (build B) (?o + 8) v"
      using w(1) by (simp_all add: at_off_append ac_simps)
    have lt: "?o + 8 + length v + padding (length v) + 4 \<le> fh_struct_end (hdr_of B)" using w(2) by simp
    have "prefix (b_strings b1) (b_strings B)" using B(3) by (simp add: extends_def ss)
    note pn = prop_name_at [OF B(1) this k(2) assms(1)]
    have len: "be32_us (build B) ?o = Inr (length v)" "be32_us (build B) (?o + 4) = Inr k"
      using be32_us_at [OF at(1)] be32_us_at [OF at(2) [unfolded k(1)]] pn(2) lt w(3,4) by simp_all
    have vl: "slice (build B) (?o + 8) (?o + 8 + length v) = Inr v" by (rule slice_at [OF at(3)])
    have al: "align4 (?o + 8 + length v) = Inr (?o + 8 + length v + padding (length v))"
      using align4_padding [of "?o + 8 + length v"] padding_add4 [of "?o + 8" "length v"] off_struct_dvd [OF B(2)] dv lt w(3,4)
      by (simp add: add.assoc)
    have "prop_node (build B) (hdr_of B) (st\<lparr>ps_off := ?o\<rparr>) = Inr (st'\<lparr>ps_off := ?o + 8 + length v + padding (length v)\<rparr>)"
      using assms(2,3) lt w(3,4) len pn(1) vl al
      by (simp add: prop_node_def add_us_def end_within_def checked_us_def prop_effect_off)
    then show "parse_token (build B) (hdr_of B) (pos B b st) = Inr (Some (pos B (prop_nd name v b) st'))"
      unfolding token_at [OF B(1,3) bs] by (simp add: Let_def pos_def bs ac_simps)
  qed
qed (simp add: runs_def)

end
