(* ===== verification/FdtBoard.thy ===== *)
theory FdtBoard
  imports FdtRT
begin

text \<open>
  The round trip: the parser finds in the blob of a board exactly the memory, the reservations and the entropy
  the board describes.
\<close>

section \<open>Results as lists\<close>

abbreviation no_region :: mem_region where
  "no_region \<equiv> \<lparr>mr_base = 0, mr_size = 0\<rparr>"

definition info_of :: "nat \<times> nat \<Rightarrow> mem_region list \<Rightarrow> mem_region list \<Rightarrow> u8 list \<Rightarrow> boot_info" where
  "info_of dtb m r e = \<lparr>bi_dtb = dtb,
     bi_regions = m @ replicate (MAX_MEM_REGIONS - length m) no_region, bi_region_count = length m,
     bi_reserved = r @ replicate (MAX_RSV_REGIONS - length r) no_region, bi_reserved_count = length r,
     bi_entropy = e @ replicate (MAX_ENTROPY - length e) 0, bi_entropy_len = length e\<rparr>"

lemma info_of_new: "info_new dtb = info_of dtb [] [] []"
  by (simp add: info_new_def info_of_def)

lemma info_of_lists:
  "bi_memory_list (info_of dtb m r e) = m" "bi_reserved_list (info_of dtb m r e) = r" "bi_entropy_bytes (info_of dtb m r e) = e"
  "bi_region_count (info_of dtb m r e) = length m" "bi_dtb (info_of dtb m r e) = dtb"
  by (simp_all add: info_of_def bi_memory_list_def bi_reserved_list_def bi_entropy_bytes_def)

lemma push_entropy_of:
  "length e \<le> MAX_ENTROPY \<Longrightarrow> push_entropy v (info_of dtb m r e) = Inr (info_of dtb m r (take MAX_ENTROPY (e @ v)))"
  by (auto simp: push_entropy_def info_of_def sub_us_def slice_def get_range_def Let_def min_def)

section \<open>Region lists\<close>

definition entry_ok :: "u32 \<Rightarrow> u32 \<Rightarrow> u64 \<times> u64 \<Rightarrow> bool" where
  "entry_ok ac sc e \<longleftrightarrow> unat (fst e) < 2 ^ (32 * unat ac) \<and> unat (snd e) < 2 ^ (32 * unat sc) \<and> unat (fst e) + unat (snd e) < 2 ^ 64"

lemma valid_cells_cases: "valid_cells c \<Longrightarrow> c = 1 \<or> c = 2"
proof -
  assume "valid_cells c"
  then have "1 \<le> unat c" "unat c \<le> 2" by (simp_all add: valid_cells_def word_le_nat_alt)
  then have "unat c = unat (1 :: u32) \<or> unat c = unat (2 :: u32)" by simp linarith
  then show ?thesis by (metis unsigned_word_eqI)
qed

lemma push_cells_1: "push_cells x 1 = to_be 4 (ucast x :: u32)"
  by (simp add: push_cells_def)

lemma push_cells_2: "push_cells x 2 = to_be 4 (ucast (drop_bit 32 x) :: u32) @ to_be 4 (ucast x :: u32)"
proof -
  have "rev [0..<2] = [Suc 0, 0]" by (simp add: numeral_2_eq_2)
  then show ?thesis by (simp add: push_cells_def)
qed

lemma length_push_cells: "valid_cells c \<Longrightarrow> length (push_cells x c) = unat (c * 4)"
  by (auto dest!: valid_cells_cases simp: push_cells_1 push_cells_2)

lemma read_push_cells:
  assumes "valid_cells c" "unat x < 2 ^ (32 * unat c)"
  shows "read_cells (push_cells x c) = x"
proof -
  consider "c = 1" | "c = 2" using valid_cells_cases [OF assms(1)] by blast
  then show ?thesis
  proof cases
    case 1
    then have "x < 2 ^ 32" using assms(2) by (simp add: word_less_nat_alt)
    then have t: "take_bit 32 x = x" by (simp add: take_bit_eq_mask less_mask_eq)
    have "take_bit 32 (ucast (ucast x :: u32) :: u64) = take_bit 32 x" by (rule bit_word_eqI) (auto simp: bit_simps)
    then show ?thesis using t by (simp add: 1 push_cells_1 read_cells_def foldl_to_be)
  next
    case 2
    have "push_bit 32 (take_bit 32 (ucast (ucast (drop_bit 32 x) :: u32))) OR take_bit 32 (ucast (ucast x :: u32)) = x"
      by (rule bit_word_eqI) (auto simp: bit_simps)
    then show ?thesis by (simp add: 2 push_cells_2 read_cells_def foldl_to_be)
  qed
qed

lemma chunks_exact_concat:
  "0 < n \<Longrightarrow> (\<And>c. c \<in> set cs \<Longrightarrow> length c = n) \<Longrightarrow> chunks_exact n (concat cs) = cs"
  by (induction cs) (simp_all add: chunks_exact.simps)

lemma regions_of_Cons: "regions_of ((b, s) # es) = (if s = 0 then regions_of es else \<lparr>mr_base = b, mr_size = s\<rparr> # regions_of es)"
  by (simp add: regions_of_def)

lemma regions_of_append: "regions_of (xs @ ys) = regions_of xs @ regions_of ys"
  by (simp add: regions_of_def)

lemma store_next: "store_at (xs @ replicate (Suc k) z) (length xs) v = Inr ((xs @ [v]) @ replicate k z)"
  by (simp add: store_at_def)

lemma reg_loop_bytes:
  assumes "valid_cells ac" "valid_cells sc"
  shows "list_all (entry_ok ac sc) es \<Longrightarrow> length (regions_of es) \<le> k \<Longrightarrow>
    reg_loop (unat (ac * 4)) (map (\<lambda>(b, s). push_cells b ac @ push_cells s sc) es) (m @ replicate k no_region) (length m) =
      Inr ((m @ regions_of es) @ replicate (k - length (regions_of es)) no_region, length m + length (regions_of es))"
proof (induction es arbitrary: m k)
  case Nil
  then show ?case by (simp add: regions_of_def)
next
  case (Cons e es)
  obtain b s where e: "e = (b, s)" by (cases e)
  have ok: "entry_ok ac sc (b, s)" "list_all (entry_ok ac sc) es" using Cons.prems(1) e by simp_all
  have r: "read_cells (take (unat (ac * 4)) (push_cells b ac @ push_cells s sc)) = b"
      "read_cells (drop (unat (ac * 4)) (push_cells b ac @ push_cells s sc)) = s"
    using ok(1) assms by (simp_all add: length_push_cells read_push_cells entry_ok_def)
  have c: "checked_add b s \<noteq> None" using ok(1) by (simp add: entry_ok_def checked_add_def)
  show ?case
  proof (cases "s = 0")
    case True
    then show ?thesis using Cons.IH [OF ok(2), of k m] Cons.prems(2) r by (simp add: e regions_of_Cons)
  next
    case False
    then obtain j where k: "k = Suc j" using Cons.prems(2) by (cases k) (simp_all add: e regions_of_Cons)
    have j: "length (regions_of es) \<le> j" using Cons.prems(2) False by (simp add: e regions_of_Cons k)
    show ?thesis
      using Cons.IH [OF ok(2) j, of "m @ [\<lparr>mr_base = b, mr_size = s\<rparr>]"] False r c store_next [of m j no_region]
      by (simp add: e regions_of_Cons k Let_def del: replicate.simps)
  qed
qed

lemma parse_reg_bytes:
  assumes "valid_cells ac" "valid_cells sc" "es \<noteq> []" "list_all (entry_ok ac sc) es" "length (regions_of es) \<le> k"
  shows "parse_reg (reg_bytes es ac sc) ac sc (m @ replicate k no_region) (length m) =
    Inr ((m @ regions_of es) @ replicate (k - length (regions_of es)) no_region, length m + length (regions_of es))"
proof -
  let ?cs = "map (\<lambda>(b, s). push_cells b ac @ push_cells s sc) es"
  let ?n = "unat ((ac + sc) * 4)"
  have n: "?n = unat (ac * 4) + unat (sc * 4)" "0 < ?n"
    using valid_cells_cases [OF assms(1)] valid_cells_cases [OF assms(2)] by auto
  have l: "length c = ?n" if "c \<in> set ?cs" for c
    unfolding n(1) using that assms(1,2) by (auto simp: length_push_cells)
  have len: "length (reg_bytes es ac sc) = ?n * length es"
    unfolding n(1) using assms(1,2) unfolding reg_bytes_def by (induction es) (auto simp: length_push_cells algebra_simps)
  have "reg_bytes es ac sc \<noteq> []" using len n(2) assms(3) by (metis length_0_conv mult_is_0 not_gr0)
  moreover have "length (reg_bytes es ac sc) mod ?n = 0" unfolding len by simp
  moreover have "chunks_exact ?n (reg_bytes es ac sc) = ?cs" unfolding reg_bytes_def by (rule chunks_exact_concat [OF n(2) l])
  ultimately show ?thesis
    using reg_loop_bytes [OF assms(1,2,4,5), of m] assms(1,2) by (simp add: parse_reg_def Let_def)
qed

lemma push_regions_of:
  assumes "valid_cells ac" "valid_cells sc" "es \<noteq> []" "list_all (entry_ok ac sc) es" "length (m @ regions_of es) \<le> MAX_MEM_REGIONS"
  shows "push_regions (reg_bytes es ac sc) ac sc (info_of dtb m r e) = Inr (info_of dtb (m @ regions_of es) r e)"
  using parse_reg_bytes [OF assms(1-4), of "MAX_MEM_REGIONS - length m" m] assms(5)
  by (simp add: push_regions_def info_of_def)

lemma push_reserved_regions_of:
  assumes "valid_cells ac" "valid_cells sc" "es \<noteq> []" "list_all (entry_ok ac sc) es" "length (r @ regions_of es) \<le> MAX_RSV_REGIONS"
  shows "push_reserved_regions (reg_bytes es ac sc) ac sc (info_of dtb m r e) = Inr (info_of dtb m (r @ regions_of es) e)"
  using parse_reg_bytes [OF assms(1-4), of "MAX_RSV_REGIONS - length r" r] assms(5)
  by (simp add: push_reserved_regions_def info_of_def)

lemma push_reserved_of:
  assumes "unat b + unat s < 2 ^ 64" "length r < MAX_RSV_REGIONS"
  shows "push_reserved (info_of dtb m r e) b s = Inr (info_of dtb m (r @ [\<lparr>mr_base = b, mr_size = s\<rparr>]) e)"
proof -
  obtain k where k: "MAX_RSV_REGIONS - length r = Suc k" using assms(2) by (metis Suc_diff_Suc)
  then have "MAX_RSV_REGIONS - Suc (length r) = k" by simp
  then show ?thesis using assms k store_next [of r k no_region]
    by (simp add: push_reserved_def info_of_def checked_add_def del: replicate.simps)
qed

section \<open>The reservation block\<close>

lemma rsv_loop_bytes:
  "at_off blob off (rsv_bytes es @ replicate 16 0) \<Longrightarrow> length blob < 2 ^ 32 \<Longrightarrow> list_all (\<lambda>(b, s). unat b + unat s < 2 ^ 64) es \<Longrightarrow>
     length (r @ regions_of (takeWhile (\<lambda>e. e \<noteq> (0, 0)) es)) \<le> MAX_RSV_REGIONS \<Longrightarrow>
     rsv_loop blob off (info_of dtb m r e) = Inr (info_of dtb m (r @ regions_of (takeWhile (\<lambda>e. e \<noteq> (0, 0)) es)) e)"
proof (induction es arbitrary: off r)
  case Nil
  have "replicate 16 0 = to_be 8 (0 :: u64) @ to_be 8 (0 :: u64)" by (simp add: to_be_def numeral_eq_Suc)
  then have "at_off blob off (to_be 8 (0 :: u64))" "at_off blob (off + 8) (to_be 8 (0 :: u64))"
    using Nil.prems(1) by (simp_all add: rsv_bytes_def at_off_append)
  moreover from this have "off + 16 \<le> length blob" by (simp add: at_off_def)
  ultimately show ?case
    using Nil.prems(2) be64_at [of blob off 0] be64_at [of blob "off + 8" 0]
    by (subst rsv_loop.simps) (simp add: add_us_def checked_us_def regions_of_def)
next
  case (Cons x es)
  obtain b s where x: "x = (b, s)" by (cases x)
  have a: "at_off blob off (to_be 8 b)" "at_off blob (off + 8) (to_be 8 s)" "at_off blob (off + 16) (rsv_bytes es @ replicate 16 0)"
    using Cons.prems(1) by (simp_all add: rsv_bytes_def at_off_append x ac_simps)
  have lt: "off + 16 \<le> length blob" using a(2) by (simp add: at_off_def)
  have h: "be64 blob off = Inr b" "add_us off 8 = Inr (off + 8)" "be64 blob (off + 8) = Inr s" "checked_us off 16 = Some (off + 16)"
    using lt Cons.prems(2) be64_at [OF a(1)] be64_at [OF a(2)] by (simp_all add: add_us_def checked_us_def)
  have rest: "list_all (\<lambda>(b, s). unat b + unat s < 2 ^ 64) es" "unat b + unat s < 2 ^ 64" using Cons.prems(3) x by simp_all
  consider "b = 0" "s = 0" | "b \<noteq> 0" "s = 0" | "s \<noteq> 0" by blast
  then show ?case
  proof cases
    case 1
    then show ?thesis using h by (subst rsv_loop.simps) (simp add: x regions_of_def)
  next
    case 2
    then show ?thesis using h Cons.IH [OF a(3) Cons.prems(2) rest(1), of r] Cons.prems(4)
      by (subst rsv_loop.simps) (simp add: x regions_of_Cons)
  next
    case 3
    then have "length r < MAX_RSV_REGIONS" using Cons.prems(4) by (simp add: x regions_of_Cons)
    then show ?thesis
      using 3 h push_reserved_of [OF rest(2)] Cons.IH [OF a(3) Cons.prems(2) rest(1), of "r @ [\<lparr>mr_base = b, mr_size = s\<rparr>]"] Cons.prems(4)
      by (subst rsv_loop.simps) (simp add: x regions_of_Cons)
  qed
qed

section \<open>Noise\<close>

text \<open>What may be written between the entries of interest: anything the parser runs over unchanged.\<close>

definition b_frame :: "builder \<Rightarrow> (u64 \<times> u64) list \<times> u32 \<times> u32 \<times> bool" where
  "b_frame b = (b_rsvmap b, b_version b, b_last_comp_version b, b_terminate b)"

definition quiet :: "builder \<Rightarrow> (builder \<Rightarrow> builder) \<Rightarrow> bool" where
  "quiet B noise \<longleftrightarrow> (\<forall>b st. 0 < ps_depth st \<and> ps_depth st \<le> 3 \<longrightarrow> runs B b st (noise b) st)"

lemma frame_ops [simp]:
  "b_frame (token t b) = b_frame b" "b_frame (raw bs b) = b_frame b" "b_frame (pad b) = b_frame b"
  "b_frame (begin_nd n b) = b_frame b" "b_frame (end_nd b) = b_frame b" "b_frame (prop_at k v b) = b_frame b"
  "b_frame (prop_nd n v b) = b_frame b" "b_frame (prop_u32 n c b) = b_frame b" "b_frame (write_cells cs b) = b_frame b"
proof -
  show t: "b_frame (token t b) = b_frame b" "b_frame (raw bs b) = b_frame b" "b_frame (pad b) = b_frame b" for t bs b
    by (simp_all add: b_frame_def token_def raw_def pad_def)
  show "b_frame (begin_nd n b) = b_frame b" "b_frame (end_nd b) = b_frame b" by (simp_all add: begin_nd_def end_nd_def t)
  show p: "b_frame (prop_at k v b) = b_frame b" for k v b by (simp add: prop_at_def t)
  have "b_frame (snd (string_offset n b)) = b_frame b" for n b by (simp add: string_offset_def b_frame_def split: option.splits)
  then show q: "b_frame (prop_nd n v b) = b_frame b" for n v b by (simp add: prop_nd_def p split: prod.splits) (metis snd_conv)
  show u: "b_frame (prop_u32 n c b) = b_frame b" for n c b by (simp add: prop_u32_def q)
  show "b_frame (write_cells cs b) = b_frame b" by (simp add: write_cells_def u split: option.splits prod.splits)
qed

section \<open>The nodes of a board\<close>

definition top :: "u32 \<Rightarrow> u32 \<Rightarrow> boot_info \<Rightarrow> parse_state" where
  "top ac sc info = (parse_start 0 info)\<lparr>ps_depth := 1, ps_addr_cells := ac, ps_size_cells := sc\<rparr>"

lemmas node_simps = top_def parse_start_def enter_node_eq end_node_eq prop_effect_def MAX_DEPTH_def bytes_of_def

lemma runs_end: "end_node st = Inr st' \<Longrightarrow> runs B b st (end_nd b) st'"
  unfolding end_nd_def by (rule runs_token) simp

lemma runs_enter:
  "0 \<notin> set name \<Longrightarrow> ps_depth st + 1 = d \<Longrightarrow> d \<le> MAX_DEPTH \<Longrightarrow> d = 1 \<longrightarrow> name = [] \<Longrightarrow> enter_node d name st = st' \<Longrightarrow>
     runs B b st (begin_nd name b) st'"
  using runs_begin [of name st B b] by auto

lemma quietD: "quiet B noise \<Longrightarrow> 0 < ps_depth st \<Longrightarrow> ps_depth st \<le> 3 \<Longrightarrow> runs B b st (noise b) st"
  by (simp add: quiet_def)

lemma runs_chosen:
  assumes "quiet B noise"
  shows "runs B b (top ac sc (info_of dtb m r [])) (write_chosen d noise b) (top ac sc (info_of dtb m r (expected_entropy d)))"
proof (cases "bd_rng_seed d \<noteq> None \<or> bd_kaslr_seed d \<noteq> None")
  case True
  define c where "c = (\<lambda>e. (top ac sc (info_of dtb m r e))\<lparr>ps_depth := 2, ps_chosen_depth := Some 2\<rparr>)"
  have enter: "runs B b (top ac sc (info_of dtb m r [])) (begin_nd (bytes_of ''chosen'') b) (c [])" for b
    by (rule runs_enter [where d = 2]) (simp_all add: c_def node_simps)
  have leave: "runs B b (c e) (end_nd b) (top ac sc (info_of dtb m r e))" for b e
    by (rule runs_end) (simp add: c_def node_simps)
  have q: "runs B b (c e) (noise b) (c e)" for b e by (rule quietD [OF assms]) (simp_all add: c_def)
  have seed: "runs B b (c e) (case s of Some v \<Rightarrow> prop_nd name v b | None \<Rightarrow> b) (c (take MAX_ENTROPY (e @ (case s of Some v \<Rightarrow> v | None \<Rightarrow> []))))"
    if e: "length e \<le> MAX_ENTROPY" and n: "name = bytes_of ''rng-seed'' \<or> name = bytes_of ''kaslr-seed''" for b e s name
  proof (cases s)
    case (Some v)
    have "prop_effect name v (c e) = Inr (c (take MAX_ENTROPY (e @ v)))"
      using n by (auto simp: c_def node_simps push_entropy_of [OF e])
    then show ?thesis using n Some by (auto intro!: runs_prop simp: c_def node_simps)
  qed (use e in \<open>simp add: runs_refl\<close>)
  have args: "runs B b (c e) (prop_nd (bytes_of ''bootargs'') v b) (c e)" for b e v
    by (rule runs_prop) (simp_all add: c_def node_simps)
  have ent: "expected_entropy d = take MAX_ENTROPY (take MAX_ENTROPY ([] @ (case bd_rng_seed d of Some s \<Rightarrow> s | None \<Rightarrow> [])) @ (case bd_kaslr_seed d of Some s \<Rightarrow> s | None \<Rightarrow> []))"
    by (simp add: expected_entropy_def min_def)
  have w: "write_chosen d noise b = end_nd (noise (case bd_kaslr_seed d of Some v \<Rightarrow> prop_nd (bytes_of ''kaslr-seed'') v
      (prop_nd (bytes_of ''bootargs'') (bytes_of ''console=ttyAMA0'' @ [0]) (case bd_rng_seed d of
         Some v \<Rightarrow> prop_nd (bytes_of ''rng-seed'') v (noise (begin_nd (bytes_of ''chosen'') b)) | None \<Rightarrow> noise (begin_nd (bytes_of ''chosen'') b)))
      | None \<Rightarrow> prop_nd (bytes_of ''bootargs'') (bytes_of ''console=ttyAMA0'' @ [0]) (case bd_rng_seed d of
         Some v \<Rightarrow> prop_nd (bytes_of ''rng-seed'') v (noise (begin_nd (bytes_of ''chosen'') b)) | None \<Rightarrow> noise (begin_nd (bytes_of ''chosen'') b))))"
    using True by (simp only: write_chosen_def Let_def if_True)
  show ?thesis
    unfolding w ent
    by (rule runs_trans [OF runs_trans [OF runs_trans [OF runs_trans [OF runs_trans [OF runs_trans [OF enter q] seed] args] seed] q] leave])
      simp_all
next
  case False
  then show ?thesis by (simp add: write_chosen_def expected_entropy_def runs_refl)
qed

lemma digits_nonzero: "2 \<le> radix \<Longrightarrow> radix \<le> 16 \<Longrightarrow> 0 \<notin> set (digits_of radix n)"
proof (induction radix n rule: digits_of.induct)
  case (1 radix n)
  have d: "n mod radix < 16" using 1(2,3) mod_less_divisor [of radix n] by linarith
  have u: "unat (48 + of_nat k :: u8) = 48 + k" "unat (87 + of_nat k :: u8) = 87 + k" if "k < 16" for k
    using that by (simp_all add: unat_word_ariths unat_of_nat)
  have "48 + of_nat k \<noteq> (0 :: u8)" "87 + of_nat k \<noteq> (0 :: u8)" if "k < 16" for k
    using u [OF that] by (metis add_is_0 unat_0 zero_neq_numeral)+
  then have "(if n mod radix < 10 then 48 + of_nat (n mod radix) else 87 + of_nat (n mod radix) :: u8) \<noteq> 0"
    using d by simp
  then show ?case using 1 by (subst digits_of.simps) (auto simp: Let_def)
qed

lemma memory_name_facts:
  "memory_name i es = bytes_of ''memory'' \<or> prefix (bytes_of ''memory@'') (memory_name i es)"
  "memory_name i es \<noteq> bytes_of ''chosen''" "memory_name i es \<noteq> bytes_of ''reserved-memory''" "0 \<notin> set (memory_name i es)"
  using digits_nonzero [of 16] by (auto simp: memory_name_def bytes_of_def split: list.splits)

lemma runs_memory:
  assumes "quiet B noise" "valid_cells ac" "valid_cells sc"
  shows "list_all (\<lambda>es. es \<noteq> [] \<and> list_all (entry_ok ac sc) es) nodes \<Longrightarrow>
    length (m @ regions_of (concat nodes)) \<le> MAX_MEM_REGIONS \<Longrightarrow>
    runs B b (top ac sc (info_of dtb m r e)) (write_memory ac sc noise i nodes b) (top ac sc (info_of dtb (m @ regions_of (concat nodes)) r e))"
proof (induction nodes arbitrary: m b i)
  case Nil
  then show ?case by (simp add: runs_refl regions_of_def)
next
  case (Cons es nodes)
  define c where "c = (\<lambda>m. (top ac sc (info_of dtb m r e))\<lparr>ps_depth := 2, ps_memory_depth := Some 2\<rparr>)"
  have enter: "runs B b (top ac sc (info_of dtb m r e)) (begin_nd (memory_name i es) b) (c m)" for b
  proof -
    have "enter_node 2 (memory_name i es) (top ac sc (info_of dtb m r e)) = c m"
      unfolding enter_node_eq c_def top_def parse_start_def using memory_name_facts [of i es] by simp
    then show ?thesis
      by (intro runs_enter [where d = 2] memory_name_facts(4)) (simp_all add: top_def MAX_DEPTH_def)
  qed
  have q: "runs B b (c m) (noise b) (c m)" for b m by (rule quietD [OF assms(1)]) (simp_all add: c_def)
  have dev: "runs B b (c m) (prop_nd (bytes_of ''device_type'') v b) (c m)" for b v m
    by (rule runs_prop) (simp_all add: c_def node_simps)
  have cap: "length (m @ regions_of es) \<le> MAX_MEM_REGIONS" using Cons.prems(2) by (simp add: regions_of_append)
  have reg: "runs B b (c m) (prop_nd (bytes_of ''reg'') (reg_bytes es ac sc) b) (c (m @ regions_of es))" for b
    using push_regions_of [OF assms(2,3) _ _ cap] Cons.prems(1)
    by (intro runs_prop) (simp_all add: c_def node_simps)
  have leave: "runs B b (c m) (end_nd b) (top ac sc (info_of dtb m r e))" for b m
    by (rule runs_end) (simp add: c_def node_simps)
  have q1: "runs B b (top ac sc (info_of dtb m r e)) (noise b) (top ac sc (info_of dtb m r e))" for b m
    by (rule quietD [OF assms(1)]) (simp_all add: top_def)
  have rest: "runs B b (top ac sc (info_of dtb (m @ regions_of es) r e)) (write_memory ac sc noise (i + 1) nodes b)
      (top ac sc (info_of dtb (m @ regions_of (concat (es # nodes))) r e))" for b
    using Cons.IH [of "m @ regions_of es"] Cons.prems by (simp add: regions_of_append)
  show ?case
    unfolding write_memory.simps Let_def
    by (rule runs_trans [OF runs_trans [OF runs_trans [OF runs_trans [OF runs_trans [OF runs_trans [OF runs_trans [OF enter dev] q] reg] q] leave] q1] rest])
qed

lemma cell_count_u32: "cell_count (to_be 4 (c :: u32)) = Inr c"
  by (simp add: cell_count_def from_be_32)

text \<open>Inside /reserved-memory, at depth 2 or in one of its children at depth 3.\<close>

definition rsv :: "nat \<Rightarrow> u32 \<Rightarrow> u32 \<Rightarrow> u32 \<Rightarrow> u32 \<Rightarrow> boot_info \<Rightarrow> parse_state" where
  "rsv depth ac sc rac rsc info = (top ac sc info)\<lparr>ps_depth := depth, ps_rsv_node := True, ps_rsv_addr_cells := rac, ps_rsv_size_cells := rsc\<rparr>"

lemma runs_root_cells: "runs B b (top 2 1 info) (write_cells cs b) (case cs of Some (a, s) \<Rightarrow> top a s info | None \<Rightarrow> top 2 1 info)"
proof (cases cs)
  case (Some as)
  obtain a s where as: "as = (a, s)" by (cases as)
  have 1: "runs B b (top 2 1 info) (prop_u32 (bytes_of ''#address-cells'') a b) (top a 1 info)"
    unfolding prop_u32_def by (rule runs_prop) (simp_all add: node_simps cell_count_u32)
  have 2: "runs B b (top a 1 info) (prop_u32 (bytes_of ''#size-cells'') s b) (top a s info)" for b
    unfolding prop_u32_def by (rule runs_prop) (simp_all add: node_simps cell_count_u32)
  show ?thesis using runs_trans [OF 1 2] by (simp add: Some as write_cells_def)
qed (simp add: write_cells_def runs_refl)

lemma runs_rsv_cells:
  "runs B b (rsv 2 ac sc ac sc info) (write_cells cs b) (case cs of Some (a, s) \<Rightarrow> rsv 2 ac sc a s info | None \<Rightarrow> rsv 2 ac sc ac sc info)"
proof (cases cs)
  case (Some as)
  obtain a s where as: "as = (a, s)" by (cases as)
  have 1: "runs B b (rsv 2 ac sc ac sc info) (prop_u32 (bytes_of ''#address-cells'') a b) (rsv 2 ac sc a sc info)"
    unfolding prop_u32_def by (rule runs_prop) (simp_all add: rsv_def node_simps cell_count_u32)
  have 2: "runs B b (rsv 2 ac sc a sc info) (prop_u32 (bytes_of ''#size-cells'') s b) (rsv 2 ac sc a s info)" for b
    unfolding prop_u32_def by (rule runs_prop) (simp_all add: rsv_def node_simps cell_count_u32)
  show ?thesis using runs_trans [OF 1 2] by (simp add: Some as write_cells_def)
qed (simp add: write_cells_def runs_refl)

definition child_entries :: "(u64 \<times> u64) list option \<Rightarrow> (u64 \<times> u64) list" where
  "child_entries c = (case c of Some es \<Rightarrow> es | None \<Rightarrow> [])"

definition child_ok :: "u32 \<Rightarrow> u32 \<Rightarrow> (u64 \<times> u64) list option \<Rightarrow> bool" where
  "child_ok rac rsc c \<longleftrightarrow> (case c of Some es \<Rightarrow> es \<noteq> [] \<and> list_all (entry_ok rac rsc) es | None \<Rightarrow> True)"

lemma runs_children:
  assumes "quiet B noise" "valid_cells rac" "valid_cells rsc"
  shows "list_all (child_ok rac rsc) cs \<Longrightarrow> length (r @ regions_of (concat (map child_entries cs))) \<le> MAX_RSV_REGIONS \<Longrightarrow>
    runs B b (rsv 2 ac sc rac rsc (info_of dtb m r e)) (write_children rac rsc noise i cs b)
      (rsv 2 ac sc rac rsc (info_of dtb m (r @ regions_of (concat (map child_entries cs))) e))"
proof (induction cs arbitrary: r b i)
  case Nil
  then show ?case by (simp add: runs_refl regions_of_def)
next
  case (Cons c cs)
  let ?s = "\<lambda>d r. rsv d ac sc rac rsc (info_of dtb m r e)"
  have cap: "length (r @ regions_of (child_entries c)) \<le> MAX_RSV_REGIONS" using Cons.prems(2) by (simp add: regions_of_append)
  have enter: "runs B b (?s 2 r) (begin_nd (bytes_of ''region@'' @ digits_of 10 i) b) (?s 3 r)" for b
    using digits_nonzero [of 10 i] by (intro runs_enter [where d = 3]) (simp_all add: rsv_def node_simps)
  have body: "runs B b (?s 3 r) (case c of Some entries \<Rightarrow> prop_nd (bytes_of ''reg'') (reg_bytes entries rac rsc) b
      | None \<Rightarrow> prop_nd (bytes_of ''size'') (reg_bytes [(0, 0x100000)] 0 rsc) b) (?s 3 (r @ regions_of (child_entries c)))" for b
  proof (cases c)
    case None
    then show ?thesis by (simp add: child_entries_def regions_of_def) (rule runs_prop, simp_all add: rsv_def node_simps)
  next
    case (Some es)
    then have "es \<noteq> []" "list_all (entry_ok rac rsc) es" "length (r @ regions_of es) \<le> MAX_RSV_REGIONS"
      using Cons.prems(1) cap by (simp_all add: child_ok_def child_entries_def)
    then show ?thesis using push_reserved_regions_of [OF assms(2,3)] unfolding Some child_entries_def option.case
      by (intro runs_prop) (simp_all add: rsv_def node_simps)
  qed
  have nomap: "runs B b (?s 3 r) (prop_nd (bytes_of ''no-map'') [] b) (?s 3 r)" for b r
    by (rule runs_prop) (simp_all add: rsv_def node_simps)
  have q: "runs B b (?s 3 r) (noise b) (?s 3 r)" for b r by (rule quietD [OF assms(1)]) (simp_all add: rsv_def)
  have leave: "runs B b (?s 3 r) (end_nd b) (?s 2 r)" for b r by (rule runs_end) (simp add: rsv_def node_simps)
  have rest: "runs B b (?s 2 (r @ regions_of (child_entries c))) (write_children rac rsc noise (i + 1) cs b)
      (?s 2 (r @ regions_of (concat (map child_entries (c # cs)))))" for b
    using Cons.IH [of "r @ regions_of (child_entries c)"] Cons.prems by (simp add: regions_of_append)
  show ?case
    unfolding write_children.simps Let_def
    by (rule runs_trans [OF runs_trans [OF runs_trans [OF runs_trans [OF runs_trans [OF enter body] nomap] q] leave] rest])
qed

definition rsv_cells_of :: "board \<Rightarrow> u32 \<times> u32" where
  "rsv_cells_of d = (case bd_rsv_cells d of Some c \<Rightarrow> c | None \<Rightarrow> root_cells d)"

lemma runs_reserved:
  assumes "quiet B noise" "root_cells d = (ac, sc)" "rsv_cells_of d = (rac, rsc)" "valid_cells rac" "valid_cells rsc"
    "list_all (child_ok rac rsc) (bd_rsv_children d)" "length (r @ regions_of (concat (map child_entries (bd_rsv_children d)))) \<le> MAX_RSV_REGIONS"
  shows "\<exists>st. runs B b (top ac sc (info_of dtb m r e)) (write_reserved d noise b) st \<and> ps_depth st = 1 \<and>
    ps_info st = info_of dtb m (r @ regions_of (concat (map child_entries (bd_rsv_children d)))) e"
proof (cases "bd_rsv_children d \<noteq> [] \<or> bd_rsv_cells d \<noteq> None")
  case True
  let ?s = "\<lambda>rac rsc r. rsv 2 ac sc rac rsc (info_of dtb m r e)"
  let ?r = "r @ regions_of (concat (map child_entries (bd_rsv_children d)))"
  let ?t = "\<lambda>r. (?s rac rsc r)\<lparr>ps_depth := 1, ps_rsv_node := False\<rparr>"
  have enter: "runs B b (top ac sc (info_of dtb m r e)) (begin_nd (bytes_of ''reserved-memory'') b) (?s ac sc r)"
    by (rule runs_enter [where d = 2]) (simp_all add: rsv_def node_simps)
  have cells: "runs B b (?s ac sc r) (write_cells (bd_rsv_cells d) b) (?s rac rsc r)" for b
    using runs_rsv_cells [of B b ac sc "info_of dtb m r e" "bd_rsv_cells d"] assms(2,3)
    by (auto simp: rsv_cells_of_def split: option.splits)
  have ranges: "runs B b (?s rac rsc r) (prop_nd (bytes_of ''ranges'') [] b) (?s rac rsc r)" for b
    by (rule runs_prop) (simp_all add: rsv_def node_simps)
  have q: "runs B b (?s rac rsc r) (noise b) (?s rac rsc r)" for b by (rule quietD [OF assms(1)]) (simp_all add: rsv_def)
  have leave: "runs B b (?s rac rsc ?r) (end_nd b) (?t ?r)" for b by (rule runs_end) (simp add: rsv_def node_simps)
  have w: "write_reserved d noise b = end_nd (write_children rac rsc noise 0 (bd_rsv_children d)
      (noise (prop_nd (bytes_of ''ranges'') [] (write_cells (bd_rsv_cells d) (begin_nd (bytes_of ''reserved-memory'') b)))))"
    using True assms(3) by (simp add: write_reserved_def rsv_cells_of_def Let_def)
  have "runs B b (top ac sc (info_of dtb m r e)) (write_reserved d noise b) (?t ?r)"
    unfolding w by (rule runs_trans [OF runs_trans [OF runs_trans [OF runs_trans [OF runs_trans [OF enter cells] ranges] q]
          runs_children [OF assms(1,4,5,6,7)]] leave])
  moreover have "ps_info (?t ?r) = info_of dtb m ?r e" by (simp add: rsv_def top_def parse_start_def)
  ultimately show ?thesis by (intro exI [of _ "?t ?r"] conjI) simp_all
next
  case False
  then show ?thesis
    by (intro exI [of _ "top ac sc (info_of dtb m r e)"]) (simp add: write_reserved_def runs_refl regions_of_def top_def parse_start_def)
qed

section \<open>The whole board\<close>

text \<open>
  The boards the parser supports: one or two cells, numbers that fit them, no region that wraps, node
  properties that are not empty, and no more regions than the kernel has room for.
\<close>

definition board_ok :: "board \<Rightarrow> bool" where
  "board_ok d \<longleftrightarrow>
     (case (root_cells d, rsv_cells_of d) of ((ac, sc), (rac, rsc)) \<Rightarrow>
        valid_cells ac \<and> valid_cells sc \<and> valid_cells rac \<and> valid_cells rsc \<and>
        list_all (\<lambda>es. es \<noteq> [] \<and> list_all (entry_ok ac sc) es) (bd_memory d) \<and> list_all (child_ok rac rsc) (bd_rsv_children d)) \<and>
     list_all (\<lambda>(b, s). unat b + unat s < 2 ^ 64) (bd_memreserve d) \<and>
     expected_memory d \<noteq> [] \<and> length (expected_memory d) \<le> MAX_MEM_REGIONS \<and> length (expected_reserved d) \<le> MAX_RSV_REGIONS"

definition frame_kept :: "(builder \<Rightarrow> builder) \<Rightarrow> bool" where
  "frame_kept noise \<longleftrightarrow> (\<forall>b. b_frame (noise b) = b_frame b)"

lemma frame_write:
  assumes "frame_kept noise"
  shows "b_frame (write_chosen d noise b) = b_frame b" "b_frame (write_memory ac sc noise i es b) = b_frame b"
    "b_frame (write_children ac sc noise i cs b) = b_frame b" "b_frame (write_reserved d noise b) = b_frame b"
proof -
  have n: "b_frame (noise b) = b_frame b" for b using assms by (simp add: frame_kept_def)
  show "b_frame (write_chosen d noise b) = b_frame b" by (simp add: write_chosen_def n Let_def split: option.splits)
  show "b_frame (write_memory ac sc noise i es b) = b_frame b" by (induction es arbitrary: i b) (simp_all add: n)
  show c: "b_frame (write_children ac sc noise i cs b) = b_frame b" for ac sc i cs b
    by (induction cs arbitrary: i b) (simp_all add: n Let_def split: option.splits)
  show "b_frame (write_reserved d noise b) = b_frame b" by (simp add: write_reserved_def n c Let_def split: prod.splits)
qed

lemma frame_reserve:
  "b_frame (fold (\<lambda>(base, sz). memreserve base sz) es b) = (b_rsvmap b @ es, b_version b, b_last_comp_version b, b_terminate b)"
  "b_structure (fold (\<lambda>(base, sz). memreserve base sz) es b) = b_structure b"
  "b_strings (fold (\<lambda>(base, sz). memreserve base sz) es b) = b_strings b"
  by (induction es arbitrary: b) (auto simp: b_frame_def memreserve_def)

lemma board_frame:
  assumes "frame_kept noise"
  shows "b_frame (board_write d noise builder_new) = (bd_memreserve d, 17, 16, True)"
proof -
  have n: "b_frame (noise b) = b_frame b" for b using assms by (simp add: frame_kept_def)
  show ?thesis
    by (simp add: board_write_def Let_def frame_write [OF assms] n split: prod.splits) (simp add: frame_reserve builder_new_def)
qed

lemma runs_board:
  assumes "quiet B noise" "board_ok d"
  defines "b0 \<equiv> fold (\<lambda>(base, sz). memreserve base sz) (bd_memreserve d) builder_new"
  defines "r0 \<equiv> regions_of (takeWhile (\<lambda>e. e \<noteq> (0, 0)) (bd_memreserve d))"
  shows "\<exists>st. runs B b0 (parse_start 0 (info_of dtb [] r0 [])) (board_write d noise builder_new) st \<and> ps_depth st = 0 \<and>
    ps_info st = info_of dtb (expected_memory d) (expected_reserved d) (expected_entropy d)"
proof -
  obtain ac sc rac rsc where c: "root_cells d = (ac, sc)" "rsv_cells_of d = (rac, rsc)" by (metis surj_pair)
  note ok = assms(2) [unfolded board_ok_def c prod.case]
  have er: "expected_reserved d = r0 @ regions_of (concat (map child_entries (bd_rsv_children d)))"
    by (simp add: expected_reserved_def regions_of_append r0_def child_entries_def [abs_def])
  let ?i = "info_of dtb [] r0 []"
  define b1 where "b1 = write_cells (bd_cells d) (begin_nd [] b0)"
  define b2 where "b2 = noise (prop_nd (bytes_of ''compatible'') (bytes_of ''linux,dummy-virt'' @ [0]) b1)"
  define b4 where "b4 = write_memory ac sc noise 0 (bd_memory d) (write_chosen d noise b2)"
  have w: "board_write d noise builder_new = end_nd (noise (write_reserved d noise b4))"
    by (simp add: board_write_def c b4_def b2_def b1_def b0_def Let_def)
  have root: "runs B b0 (parse_start 0 ?i) (begin_nd [] b0) (top 2 1 ?i)"
    by (rule runs_enter [where d = 1]) (simp_all add: node_simps)
  have cells: "runs B (begin_nd [] b0) (top 2 1 ?i) b1 (top ac sc ?i)"
    using runs_root_cells [of B "begin_nd [] b0" ?i "bd_cells d"] c(1) unfolding b1_def by (auto simp: root_cells_def split: option.splits)
  have q: "runs B b st (noise b) st" if "ps_depth st = 1" for b st using quietD [OF assms(1)] that by simp
  have "runs B b (top ac sc ?i) (prop_nd (bytes_of ''compatible'') v b) (top ac sc ?i)" for b v
    by (rule runs_prop) (simp_all add: node_simps)
  then have comp: "runs B b1 (top ac sc ?i) b2 (top ac sc ?i)"
    unfolding b2_def by (rule runs_trans) (rule q, simp add: top_def)
  have mem: "runs B (write_chosen d noise b2) (top ac sc (info_of dtb [] r0 (expected_entropy d))) b4
      (top ac sc (info_of dtb (expected_memory d) r0 (expected_entropy d)))"
    using runs_memory [OF assms(1), of ac sc "bd_memory d" "[]" "write_chosen d noise b2" dtb r0 "expected_entropy d" 0] ok
    unfolding b4_def expected_memory_def by simp
  obtain st where rs: "runs B b4 (top ac sc (info_of dtb (expected_memory d) r0 (expected_entropy d))) (write_reserved d noise b4) st"
      "ps_depth st = 1" "ps_info st = info_of dtb (expected_memory d) (expected_reserved d) (expected_entropy d)"
    using runs_reserved [OF assms(1) c, of r0 b4 dtb "expected_memory d" "expected_entropy d"] ok unfolding er by blast
  let ?st = "st\<lparr>ps_depth := 0,
       ps_memory_depth := (if ps_memory_depth st = Some 1 then None else ps_memory_depth st),
       ps_chosen_depth := (if ps_chosen_depth st = Some 1 then None else ps_chosen_depth st),
       ps_rsv_node := ps_rsv_node st\<rparr>"
  have leave: "runs B b st (end_nd b) ?st" for b by (rule runs_end) (simp add: end_node_eq rs(2))
  have "runs B b0 (parse_start 0 ?i) (board_write d noise builder_new) ?st"
    unfolding w
    by (rule runs_trans [OF runs_trans [OF runs_trans [OF runs_trans [OF runs_trans [OF runs_trans [OF runs_trans [OF root cells] comp] runs_chosen [OF assms(1)]] mem] rs(1)] q [OF rs(2)]] leave])
  moreover have "ps_info ?st = info_of dtb (expected_memory d) (expected_reserved d) (expected_entropy d)" by (simp add: rs(3))
  ultimately show ?thesis by (intro exI [of _ ?st] conjI) simp_all
qed

lemma length_rsv_bytes: "length (rsv_bytes es) = 16 * length es"
  by (induction es) (auto simp: rsv_bytes_def)

lemma parse_board:
  assumes ok: "board_ok d" and q: "quiet (board_write d noise builder_new) noise" and f: "frame_kept noise"
    and len: "length (build (board_write d noise builder_new)) < 2 ^ 32"
  shows "parse_blob (build (board_write d noise builder_new)) dtb = Inr (info_of dtb (expected_memory d) (expected_reserved d) (expected_entropy d))"
proof -
  define B where "B = board_write d noise builder_new"
  let ?i = "info_of dtb (expected_memory d) (expected_reserved d) (expected_entropy d)"
  let ?r0 = "regions_of (takeWhile (\<lambda>e. e \<noteq> (0, 0)) (bd_memreserve d))"
  let ?b0 = "fold (\<lambda>(base, sz). memreserve base sz) (bd_memreserve d) builder_new"
  have fr: "b_rsvmap B = bd_memreserve d" "b_version B = 17" "b_last_comp_version B = 16" "b_terminate B"
    using board_frame [OF f, of d] by (simp_all add: B_def b_frame_def)
  have fit: "fits32 B" using len fr(4) by (simp add: fits32_def B_def)
  have dv: "4 dvd length (rsv_bytes (b_rsvmap B))" by (simp add: length_rsv_bytes)
  obtain st where st: "runs B ?b0 (parse_start 0 (info_of dtb [] ?r0 [])) B st" "ps_depth st = 0" "ps_info st = ?i"
    using runs_board [OF q ok] unfolding B_def by blast
  have b0: "good ?b0" "length (b_structure ?b0) = 0" by (simp_all add: good_def frame_reserve builder_new_def terminated_def)
  have g: "good B" and loop: "parse_loop (build B) (hdr_of B) (pos B ?b0 (parse_start 0 (info_of dtb [] ?r0 []))) = parse_loop (build B) (hdr_of B) (pos B B st)"
    using st(1) b0(1) fit dv unfolding runs_def by (simp_all add: extends_def)
  have at: "at_off (build B) (off_struct_of B + length (b_structure B)) (to_be 4 FDT_END)"
    using build_structure [OF fr(4)] by (simp add: at_off_append)
  have lt: "off_struct_of B + length (b_structure B) + 4 \<le> length (build B)" "length (build B) < 2 ^ 32"
    using length_build [OF fr(4)] fit by (simp_all add: hdr_of_def Let_def fits32_def)
  have "parse_token (build B) (hdr_of B) (pos B B st) = Inr None"
    using be32_at [OF at] lt st(2) by (simp add: parse_token_def pos_def hdr_of_def Let_def add_us_def)
  then have fin: "parse_loop (build B) (hdr_of B) (pos B B st) = Inr ?i"
    by (subst parse_loop.simps) (simp add: pos_def st(3))
  have rsv: "rsv_loop (build B) 40 (info_new dtb) = Inr (info_of dtb [] ?r0 [])"
  proof -
    have "length ([] @ ?r0) \<le> MAX_RSV_REGIONS" using ok by (simp add: board_ok_def expected_reserved_def regions_of_append)
    moreover have "list_all (\<lambda>(b, s). unat b + unat s < 2 ^ 64) (bd_memreserve d)" using ok by (simp add: board_ok_def)
    ultimately show ?thesis
      using rsv_loop_bytes [of "build B" 40 "bd_memreserve d" "[]" dtb "[]" "[]"] build_rsv [OF fr(4)] lt(2) unfolding info_of_new fr(1) by simp
  qed
  have start: "parse_start (off_struct_of B) (info_of dtb [] ?r0 []) = pos B ?b0 (parse_start 0 (info_of dtb [] ?r0 []))"
    by (simp add: parse_start_def pos_def b0(2))
  have ends: "end_within (off_struct_of B) (length (b_structure B) + 4) (length (build B)) BadHeader = Inr (fh_struct_end (hdr_of B))"
      "end_within (fh_off_strings (hdr_of B)) (length (b_strings B)) (length (build B)) BadHeader = Inr (fh_strings_end (hdr_of B))"
    using lt length_build [OF fr(4)] by (simp_all add: end_within_def checked_us_def hdr_of_def Let_def)
  have hd: "\<lparr>fh_struct_end = fh_struct_end (hdr_of B), fh_off_strings = fh_off_strings (hdr_of B), fh_strings_end = fh_strings_end (hdr_of B)\<rparr> = hdr_of B"
    by simp
  have al: "off_struct_of B mod 4 = 0" "(length (b_structure B) + 4) mod 4 = 0"
    using off_struct_dvd [OF dv] g by (simp_all add: good_def dvd_eq_mod_eq_0)
  have "bi_region_count ?i \<noteq> 0" using ok by (simp add: info_of_lists board_ok_def)
  then have "parse_blob (build B) dtb = Inr ?i"
    unfolding parse_blob_def build_header [OF fit] and_then_simps fr ends hd rsv start loop fin
    using al by (simp add: SUPPORTED_VERSION_def ends hd rsv start loop fin)
  then show ?thesis by (simp add: B_def)
qed

section \<open>The size of a blob\<close>

definition blen :: "builder \<Rightarrow> nat" where
  "blen b = length (b_structure b) + length (b_strings b)"

lemma padding_le: "padding n \<le> 3"
  using padding_dvd [of n] by auto

lemma blen_ops:
  "blen (end_nd b) = blen b + 4"
  "blen (begin_nd n b) \<le> blen b + 8 + length n"
  "blen (prop_nd n v b) \<le> blen b + 16 + length n + length v"
proof -
  show "blen (end_nd b) = blen b + 4" by (simp add: blen_def end_nd_def token_def)
  show "blen (begin_nd n b) \<le> blen b + 8 + length n"
    by (simp add: padding_le blen_def begin_nd_def pad_def raw_def token_def pad_loop_eq)
  obtain off b' where so: "string_offset n b = (off, b')" by fastforce
  have "b_structure b' = b_structure b" "length (b_strings b') \<le> length (b_strings b) + length n + 1"
    using so by (auto simp: string_offset_def split: option.splits)
  then show "blen (prop_nd n v b) \<le> blen b + 16 + length n + length v"
    using padding_le [of "length (b_structure b) + (12 + length v)"]
    by (simp add: blen_def prop_nd_def so prop_at_def pad_def raw_def token_def pad_loop_eq)
qed

lemma blen_rules:
  "blen b + (c + 4) \<le> k \<Longrightarrow> blen (end_nd b) + c \<le> k"
  "blen b + (c + 8 + length n) \<le> k \<Longrightarrow> blen (begin_nd n b) + c \<le> k"
  "blen b + (c + 16 + length n + length v) \<le> k \<Longrightarrow> blen (prop_nd n v b) + c \<le> k"
  using blen_ops(1) [of b] blen_ops(2) [of n b] blen_ops(3) [of n v b] by linarith+

lemma length_build_blen: "b_terminate B \<Longrightarrow> length (build B) = blen B + 60 + 16 * length (b_rsvmap B)"
  by (simp add: length_build hdr_of_def off_struct_of_def Let_def length_rsv_bytes blen_def)

lemma blob_frame: "b_terminate (board_write d (\<lambda>b. b) builder_new)" "b_rsvmap (board_write d (\<lambda>b. b) builder_new) = bd_memreserve d"
  using board_frame [of "\<lambda>b. b" d] by (simp_all add: frame_kept_def b_frame_def)

lemma qemu_virt_ok: "board_ok qemu_virt"
  by (simp add: board_ok_def qemu_virt_def board_empty_def root_cells_def rsv_cells_of_def valid_cells_def entry_ok_def
      expected_memory_def expected_reserved_def regions_of_def fdt_limits)

lemma qemu_virt_written:
  "board_write qemu_virt (\<lambda>b. b) builder_new =
     end_nd (end_nd (prop_nd (bytes_of ''reg'') (reg_bytes [(0x40000000, 0x20000000)] 2 2)
      (prop_nd (bytes_of ''device_type'') (bytes_of ''memory'' @ [0])
       (begin_nd (bytes_of ''memory@'' @ digits_of 16 0x40000000)
        (end_nd (prop_nd (bytes_of ''kaslr-seed'') (replicate 8 0xA5)
         (prop_nd (bytes_of ''bootargs'') (bytes_of ''console=ttyAMA0'' @ [0])
          (prop_nd (bytes_of ''rng-seed'') (map of_nat [0..<32])
           (begin_nd (bytes_of ''chosen'')
            (prop_nd (bytes_of ''compatible'') (bytes_of ''linux,dummy-virt'' @ [0])
             (prop_nd (bytes_of ''#size-cells'') (to_be 4 (2 :: u32))
              (prop_nd (bytes_of ''#address-cells'') (to_be 4 (2 :: u32)) (begin_nd [] builder_new)))))))))))))"
  by (simp add: board_write_def qemu_virt_def board_empty_def root_cells_def write_cells_def write_chosen_def write_reserved_def
      Let_def memory_name_def prop_u32_def del: upt_rec_numeral)

lemma qemu_virt_len: "length (board_blob qemu_virt) \<le> 2000"
proof -
  have "16 * 16 * 16 * 16 * 16 * 16 * 16 * 4 = (1073741824 :: nat)" by simp
  have d: "length (digits_of 16 1073741824) = 8"
    by (simp add: digits_of.simps [of 16] Let_def)
  have "blen (board_write qemu_virt (\<lambda>b. b) builder_new) + 0 \<le> 1000"
    unfolding qemu_virt_written
    by (intro blen_rules) (simp add: blen_def builder_new_def bytes_of_def d reg_bytes_def length_push_cells valid_cells_def)
  then show ?thesis by (simp add: board_blob_def length_build_blen blob_frame qemu_virt_def board_empty_def)
qed

section \<open>Properties\<close>

lemma parse_board_blob:
  assumes "board_ok d" "length (board_blob d) < 2 ^ 32"
  shows "parse_blob (board_blob d) dtb = Inr (info_of dtb (expected_memory d) (expected_reserved d) (expected_entropy d))"
  using parse_board [OF assms(1), of "\<lambda>b. b" dtb] assms(2) by (simp add: board_blob_def quiet_def runs_refl frame_kept_def)

lemma blob_magic:
  assumes "length (board_blob d) < 2 ^ 32"
  shows "at_off (board_blob d) 0 (to_be 4 FDT_MAGIC)" "at_off (board_blob d) 4 (to_be 4 (of_nat (length (board_blob d)) :: u32))"
    "60 \<le> length (board_blob d)"
proof -
  obtain hdr rest vs where b: "board_blob d = hdr @ rest" and h: "hdr = concat (map (to_be 4) (0xd00dfeed # of_nat (length (board_blob d)) # vs :: u32 list))"
    using build_eq [OF blob_frame(1) [of d]] unfolding board_blob_def by blast
  have v: "hdr = to_be 4 (0xd00dfeed :: u32) @ to_be 4 (of_nat (length (board_blob d)) :: u32) @ concat (map (to_be 4) vs)"
    unfolding h by simp
  have "at_off (board_blob d) 0 hdr" using at_off_blob [of "[]" hdr rest] b by simp
  then show "at_off (board_blob d) 0 (to_be 4 FDT_MAGIC)" "at_off (board_blob d) 4 (to_be 4 (of_nat (length (board_blob d)) :: u32))"
    unfolding v by (simp_all add: at_off_append FDT_MAGIC_def)
  show "60 \<le> length (board_blob d)" by (simp add: board_blob_def length_build_blen blob_frame)
qed

lemma read_be32_at:
  assumes "map mem [a ..< a + n] = blob" "at_off blob k (to_be 4 v)" "length blob = n"
  shows "read_be32_phys mem (a + k) = v"
proof -
  have k: "k + 4 \<le> n" "take 4 (drop k blob) = to_be 4 v" using assms(2,3) by (simp_all add: at_off_def)
  have "take 4 (drop k (map mem [a ..< a + n])) = map mem [a + k ..< a + k + 4]"
    using k(1) by (simp add: drop_map take_map)
  then have "map mem [a + k ..< a + k + 4] = to_be 4 v" unfolding assms(1) k(2) by (rule sym)
  then show ?thesis unfolding read_be32_phys_def by (simp only: from_be_32)
qed

lemma parse_board_memory:
  assumes "board_ok d" "length (board_blob d) \<le> 2 * 1024 * 1024"
    and "map mem [dtb_phys + off ..< dtb_phys + off + length (board_blob d)] = board_blob d"
    and "(dtb_phys + off) mod 8 = 0" "dtb_phys + off \<noteq> 0" "dtb_phys + off + length (board_blob d) < 2 ^ 64"
    and "dtb_phys + length (board_blob d) \<le> fst img \<or> snd img \<le> dtb_phys"
  shows "\<exists>info. parse mem dtb_phys img off = Inr info \<and> bi_memory_list info = expected_memory d \<and>
    bi_reserved_list info = expected_reserved d \<and> bi_entropy_bytes info = expected_entropy d \<and>
    bi_dtb info = (dtb_phys, dtb_phys + length (board_blob d))"
proof -
  let ?b = "dtb_phys + off" and ?n = "length (board_blob d)"
  have n: "?n < 2 ^ 32" using assms(2) by simp
  have hdr: "read_be32_phys mem ?b = FDT_MAGIC" "read_be32_phys mem (?b + 4) = of_nat ?n"
    using read_be32_at [OF assms(3) blob_magic(1) [OF n] refl] read_be32_at [OF assms(3) blob_magic(2) [OF n] refl] by simp_all
  have u: "unat (of_nat ?n :: u32) = ?n" using n by (simp add: unat_of_nat)
  have sz: "HEADER_SIZE \<le> (of_nat ?n :: u32)" "(of_nat ?n :: u32) \<le> MAX_DTB_SIZE"
    using blob_magic(3) [OF n] assms(2) by (simp_all add: word_le_nat_alt u HEADER_SIZE_def MAX_DTB_SIZE_def)
  have span: "dtb_span mem ?b = Inr (?b, ?b + ?n)"
    using assms(4-6) blob_magic(3) [OF n] by (simp add: dtb_span_def hdr add_us_def sz u checked_us_def)
  have "parse mem dtb_phys img off = parse_blob (board_blob d) (dtb_phys, dtb_phys + ?n)"
    using assms(3,6,7) by (auto simp: parse_def checked_us_def span sub_us_def simp del: map_eq_conv)
  then show ?thesis using parse_board_blob [OF assms(1) n] by (simp add: info_of_lists)
qed

text \<open>
  C28. The parser reads back what the board writer wrote. When memory holds the blob of a supported
  board, aligned, at most 2 MiB long and clear of the kernel image, parsing succeeds and returns exactly the
  memory regions, the reserved regions and the entropy the board describes, in that order, leaving out empty
  regions and cutting the entropy at 72 bytes.
\<close>

theorem fdt_round_trip:
  assumes "board_ok d" "length (board_blob d) \<le> 2 * 1024 * 1024"
    and "map mem [dtb_phys + off ..< dtb_phys + off + length (board_blob d)] = board_blob d"
    and "(dtb_phys + off) mod 8 = 0" "dtb_phys + off \<noteq> 0" "dtb_phys + off + length (board_blob d) < 2 ^ 64"
    and "dtb_phys + length (board_blob d) \<le> fst img \<or> snd img \<le> dtb_phys"
  shows "\<exists>info. parse mem dtb_phys img off = Inr info \<and> bi_memory_list info = expected_memory d \<and>
    bi_reserved_list info = expected_reserved d \<and> bi_entropy_bytes info = expected_entropy d \<and>
    bi_dtb info = (dtb_phys, dtb_phys + length (board_blob d))"
  using assms by (rule parse_board_memory)

theorem fdt_round_trip_witness:
  "\<exists>info. parse (\<lambda>a. board_blob qemu_virt ! (a - 0x48000000)) 0x48000000 (0x40080000, 0x40300000) 0 = Inr info \<and>
     bi_memory_list info = [\<lparr>mr_base = 0x40000000, mr_size = 0x20000000\<rparr>] \<and> bi_reserved_list info = [] \<and>
     length (bi_entropy_bytes info) = 40"
proof -
  have "map (\<lambda>a. xs ! (a - k)) [k ..< k + length xs] = xs" for xs :: "u8 list" and k
    by (intro nth_equalityI) simp_all
  note m = this [where xs = "board_blob qemu_virt" and k = "0x48000000"]
  have e: "expected_memory qemu_virt = [\<lparr>mr_base = 0x40000000, mr_size = 0x20000000\<rparr>]" "expected_reserved qemu_virt = []"
      "length (expected_entropy qemu_virt) = 40"
    by (simp_all add: expected_memory_def expected_reserved_def expected_entropy_def regions_of_def qemu_virt_def board_empty_def MAX_ENTROPY_def)
  obtain info where i: "parse (\<lambda>a. board_blob qemu_virt ! (a - 0x48000000)) 0x48000000 (0x40080000, 0x40300000) 0 = Inr info"
      "bi_memory_list info = expected_memory qemu_virt" "bi_reserved_list info = expected_reserved qemu_virt"
      "bi_entropy_bytes info = expected_entropy qemu_virt"
    using fdt_round_trip [OF qemu_virt_ok, of "\<lambda>a. board_blob qemu_virt ! (a - 0x48000000)" "0x48000000" 0 "(0x40080000, 0x40300000)"]
      qemu_virt_len m by auto
  show ?thesis by (intro exI [of _ info]) (simp add: i e)
qed

end
