(* ===== verification/BootInv.thy ===== *)
theory BootInv
  imports BootWindow BootSpawn FdtBoard
begin

text \<open>
  The boot establishes the kernel invariant. Whatever the device tree, the image and the probes say, the boot
  either refuses to go on or ends in a machine that satisfies the invariant every later step keeps.
\<close>

section \<open>Boot steps\<close>

text \<open>A step that refuses the boot or ends with the property; in particular it does not panic.\<close>

definition boots :: "('a \<Rightarrow> bool) \<Rightarrow> halt + 'a \<Rightarrow> bool" where
  "boots Q m \<longleftrightarrow> (case m of Inl h \<Rightarrow> h = BootRejected | Inr x \<Rightarrow> Q x)"

lemma boots_simps [simp]: "boots Q (Inr x) \<longleftrightarrow> Q x" "boots Q (Inl h) \<longleftrightarrow> h = BootRejected"
  by (simp_all add: boots_def)

lemma boots_bind: "boots Q m \<Longrightarrow> (\<And>x. Q x \<Longrightarrow> boots P (f x)) \<Longrightarrow> boots P (and_then m f)"
  by (cases m) auto

lemma boots_mono: "boots P m \<Longrightarrow> (\<And>x. P x \<Longrightarrow> Q x) \<Longrightarrow> boots Q m"
  by (cases m) auto

lemma sub_pn_ok: "unat b \<le> unat a \<Longrightarrow> sub_pn a b = Inr (a - b)"
  by (simp add: sub_pn_def word_order_unat)

lemma run_checks_boots: "boots (\<lambda>_. True) (run_checks cs)"
  by (simp add: run_checks_def)

section \<open>The window in the kernel tables\<close>

lemma map_range_loop_frame:
  "map_range_loop p r va pa len attrs off pl = Inr (res, pl') \<Longrightarrow> pl_enabled pl' = pl_enabled pl \<and> pl_root1 pl' = pl_root1 pl"
proof (induction p r va pa len attrs off pl arbitrary: res pl' rule: map_range_loop.induct)
  case (1 p r va pa len attrs off pl)
  show ?case
  proof (cases "off < len")
    case True
    from "1.prems" True obtain v a r1 pl1 where s: "add_pn va off = Inr v" "add_pn pa off = Inr a" "map_page p r v a attrs pl = Inr (r1, pl1)"
      by (subst (asm) map_range_loop.simps) (auto simp: and_then_Inr)
    note f = map_page_frame [OF s(3)]
    show ?thesis
    proof (cases r1)
      case (Inl e)
      then show ?thesis using "1.prems" True s f by (subst (asm) map_range_loop.simps) simp
    next
      case (Inr u)
      then obtain off' where o: "add_pn off (GRANULE p) = Inr off'" "map_range_loop p r va pa len attrs off' pl1 = Inr (res, pl')"
        using "1.prems" True s by (subst (asm) map_range_loop.simps) (auto simp: and_then_Inr)
      show ?thesis using "1.IH" [OF True s refl Inr o(1) o(2)] f by simp
    qed
  qed (use "1.prems" in \<open>subst (asm) map_range_loop.simps, simp\<close>)
qed

lemma map_window_ends:
  assumes inv: "pool_inv p pl R" "pl_root1 pl \<in> R" "pool_secure p pl R" "pl_enabled pl" and w: "unat (r_end w) \<le> 281474976710656"
  shows "ends (\<lambda>(res, pl'). \<forall>u. res = Inr u \<longrightarrow> pool_inv p pl' R \<and> pl_root1 pl' \<in> R \<and> pool_secure p pl' R \<and> pl_enabled pl')
    (map_kernel_window p w pl)"
proof (cases "r_end w \<le> r_start w \<or> \<not> aligned (GRANULE p) (r_start w) \<or> \<not> aligned (GRANULE p) (r_end w)")
  case False
  let ?len = "r_end w - r_start w" and ?va = "r_start w + KERNEL_VA_OFFSET"
  have le: "unat (r_start w) < unat (r_end w)" using False by (auto simp: word_order_unat)
  have lt: "unat (r_start w) < 281474976710656" using le w by linarith
  have len: "unat ?len = unat (r_end w) - unat (r_start w)" using le by (intro unat_sub_64) simp
  have va: "add_pn (r_start w) KERNEL_VA_OFFSET = Inr ?va" "unat ?va = unat (r_start w) + 18446462598732840960"
    using lt unat_offset [OF lt] by (auto intro!: add_pn_ok simp: KERNEL_VA_OFFSET_def)
  have run: "map_kernel_window p w pl = map_range p (pl_root1 pl) ?va (r_start w) ?len Rw pl"
    using False inv(4) va by (auto simp: map_kernel_window_def)
  have b: "unat ?va + unat ?len \<le> 18446744073709551616" "unat (r_start w) + unat ?len \<le> 18446744073709551616"
    using va(2) len le w by linarith+
  from inv(1-3) b show ?thesis
  proof (cases rule: map_range_correct [where pm = Rw])
    case (fail e pl')
    then show ?thesis by (simp add: run)
  next
    case (mapped pl')
    then have "map_range_loop p (pl_root1 pl) ?va (r_start w) ?len (perm_attrs Rw) 0 pl = Inr (Inr (), pl')"
      by (simp add: map_range_def)
    from map_range_loop_frame [OF this] mapped inv show ?thesis by (simp add: run)
  qed
qed (auto simp: map_kernel_window_def)

section \<open>The bootinfo page\<close>

lemma put_descs_outside:
  assumes "unat base + 24 * length cs < 18446744073709551616" "unat x < unat base \<or> unat base + 24 * length cs \<le> unat x"
  shows "put_descs base cs mem x = mem x"
  using assms
proof (induction cs arbitrary: base mem)
  case (Cons c cs)
  have u: "unat (base + 8) = unat base + 8" "unat (base + 16) = unat base + 16" "unat (base + 24) = unat base + 24"
    using Cons.prems(1) by (simp_all add: unat_add_64)
  have "x \<noteq> base" "x \<noteq> base + 8" "x \<noteq> base + 16" using Cons.prems u by (auto simp: u64_eq_iff)
  moreover have "put_descs (base + 24) cs (put_desc base (desc_of c) mem) x = put_desc base (desc_of c) mem x"
    using Cons.prems u by (intro Cons.IH) auto
  ultimately show ?case by (simp add: put_desc_def)
qed simp

lemma build_inv_mem:
  assumes inv: "build_inv p F fa mem R"
    and keep: "\<And>t i. t \<in> tables_of p mem R \<Longrightarrow> i < ENTRIES p \<Longrightarrow> utbl_get mem' t i = utbl_get mem t i"
  shows "build_inv p F fa mem' R"
proof -
  have sp: "spaces_ok p mem R" using inv by (simp add: build_inv_def us_inv_def)
  note c = spaces_cong [OF sp keep]
  have "user_frames p mem' R = user_frames p mem R" by (rule user_frames_cong) (rule c(3))
  then show ?thesis using inv c(1,2,3) by (simp add: build_inv_def us_inv_def spaces_safe_def)
qed

lemma write_bootinfo_ends:
  assumes inv: "build_inv p F fa mem R" and bi: "bi \<in> F" and cn: "length (cnode_slots cn) \<le> 32"
  shows "ends (\<lambda>mem'. build_inv p F fa mem' R) (write_bootinfo p bi cn mem)"
proof -
  have ok: "utbl_ok p bi" and nt: "bi \<notin> tables_of p mem R" using inv bi by (auto simp: build_inv_def)
  have lt: "unat bi < 281474976710656" using ok by (simp add: utbl_ok_def)
  define hdr where "hdr = bi + KERNEL_VA_OFFSET"
  have h: "add_pn bi KERNEL_VA_OFFSET = Inr hdr" "unat hdr = unat bi + 18446462598732840960"
    using lt unat_offset [OF lt] by (auto intro!: add_pn_ok simp: KERNEL_VA_OFFSET_def hdr_def)
  have room: "unat hdr + 4096 \<le> 18446744073709551616" using utbl_room [OF ok] GRANULE_bounds(2) [of p] h(2) by linarith
  then have u: "unat (hdr + 8) = unat hdr + 8" "unat (hdr + 16) = unat hdr + 16" "unat (hdr + 24) = unat hdr + 24"
    by (simp_all add: unat_add_64)
  let ?mem1 = "put_header hdr \<lparr>version = BOOTINFO_VERSION, frame_size = GRANULE p, cap_count = of_nat (length (cnode_slots cn))\<rparr> mem"
  let ?mem2 = "put_descs (hdr + 24) (cnode_slots cn) ?mem1"
  have out: "?mem2 x = mem x" if "unat x < unat hdr \<or> unat hdr + unat (GRANULE p) \<le> unat x" for x
  proof -
    have "?mem2 x = ?mem1 x"
      using that u room cn GRANULE_bounds(2) [of p] by (intro put_descs_outside) auto
    moreover have "x \<noteq> hdr" "x \<noteq> hdr + 8" "x \<noteq> hdr + 16" using that u GRANULE_bounds(2) [of p] by (auto simp: u64_eq_iff)
    ultimately show ?thesis by (simp add: put_header_def)
  qed
  have "build_inv p F fa ?mem2 R"
  proof (rule build_inv_mem [OF inv])
    fix t i assume t: "t \<in> tables_of p mem R" and i: "i < ENTRIES p"
    have tk: "utbl_ok p t" using tables_of_ok [OF _ t] inv by (simp add: build_inv_def us_inv_def)
    have "utbl_get (zero_bytes hdr (GRANULE p) (\<lambda>_. 1)) t i = 1"
      using zero_frame [OF ok tk i, of "\<lambda>_. 1"] t nt by (auto simp: hdr_def utbl_get_def)
    then show "utbl_get ?mem2 t i = utbl_get mem t i"
      unfolding utbl_get_def by (intro out) (auto simp: zero_bytes_def split: if_splits)
  qed
  then show ?thesis by (simp add: write_bootinfo_def h(1) Let_def)
qed

section \<open>The first state\<close>

lemma root_masked:
  assumes "utbl_ok p r"
  shows "r AND 0x0000FFFFFFFFFFFE = r"
proof -
  have z: "\<not> bit r 0" using assms by (intro aligned_bit [of p]) (auto simp: utbl_ok_def PAGE_SHIFT_def split: platform.split)
  have t: "take_bit 48 r = r" using assms by (intro take_bit_48_id) (simp add: utbl_ok_def)
  have m: "(0x0000FFFFFFFFFFFE :: u64) = push_bit 1 (mask 47)" by (simp add: mask_eq_exp_minus_1 push_bit_eq_mult)
  have "bit r n \<Longrightarrow> 1 \<le> n \<and> n < 48" for n
    using z t by (metis bit_take_bit_iff less_one not_le)
  moreover have "bit (0x0000FFFFFFFFFFFE :: u64) n \<longleftrightarrow> 1 \<le> n \<and> n < 48" for n
    unfolding m bit_push_bit_iff bit_mask_iff by auto
  ultimately show ?thesis by (auto simp: bit_eq_iff bit_and_iff)
qed

text \<open>The root task runs alone: nobody waits, and no reply is owed.\<close>

lemma boot_tasks_ok:
  assumes "root \<noteq> 0" "utbl_ok p ur" "t_reply_to tcb = 0" "t_ttbr0_pa tcb = ur" "ttbr0_el1 regs = ur"
    and ks: "ks_sched ks = \<lparr>sc_current = 0, sc_head = 0, sc_tail = 0\<rparr>" "ks_tcbs ks = (\<lambda>_. tcb_zeroed)(root := tcb)" "ks_regs ks = regs"
  shows "tasks_ok {ur} {root} {} (handoff root ks)"
proof -
  let ?ks = "handoff root ks"
  let ?a = "\<lparr>a_cur = root, a_ready = [], a_wait = (\<lambda>_. []), a_tcb = core (ks_tcbs ?ks), a_regs = regs,
    a_other = (ks_cnode ?ks, ks_pool ?ks, ks_mem ?ks, ks_console ?ks)\<rparr>"
  have h: "ks_tcbs ?ks root = tcb\<lparr>t_state := Running\<rparr>" "sc_current (ks_sched ?ks) = root" "ks_ctx ?ks = root"
      "sc_head (ks_sched ?ks) = 0" "sc_tail (ks_sched ?ks) = 0" "ks_regs ?ks = regs"
    by (simp_all add: handoff_def ks set_state_def)
  have "sim {} ?ks ?a" by (simp add: sim_def h q_rep_def)
  moreover have "a_inv {ur} {root} {} ?a"
    unfolding a_inv_def a_ok_def
  proof (intro conjI)
    show "queues_ok {root} {} {a_cur ?a} ?a" by (rule queues_okI) (use assms(1) in auto)
    show "replies_ok {root} {a_cur ?a} ?a" by (simp add: replies_ok_def h assms(3))
    show "roots_ok {ur} {root} {a_cur ?a} ?a" using root_masked [OF assms(2)] by (simp add: roots_ok_def h assms(4))
    show "st ?a (a_cur ?a) = Running" by (simp add: h)
    show "current_user_root (a_regs ?a) = sp ?a (a_cur ?a)"
      using root_masked [OF assms(2)] by (simp add: current_user_root_def h assms(4,5))
  qed
  ultimately show ?thesis by (auto simp: tasks_ok_def)
qed

lemma boot_caps_sets:
  assumes "cnode_slots cn = [CapEmpty, CapRootTcb, CapAddrSpace ur, CapConsole] @ us" "\<forall>c \<in> set us. \<exists>b n. c = CapUntyped b n 0"
  shows "cap_roots cn = {ur}" "cap_tcbs cn = {}" "cap_eps cn = {}" "CapPageTable b m \<notin> set (cnode_slots cn)"
proof -
  have u: "c \<notin> set us" if "\<And>b n. c \<noteq> CapUntyped b n 0" for c using assms(2) that by blast
  show "cap_roots cn = {ur}" "cap_tcbs cn = {}" "cap_eps cn = {}" "CapPageTable b m \<notin> set (cnode_slots cn)"
    by (auto simp: cap_roots_def cap_tcbs_def cap_eps_def assms(1) u)
qed

text \<open>What the boot has built satisfies the memory half of the invariant.\<close>

lemma boot_mem_inv:
  assumes pool: "pool_inv p pl R" "pl_root1 pl \<in> R" "pool_secure p pl R" "pl_enabled pl"
    and bs: "bootstrap ms rs ur = Inr (Inr cn)" and low: "regions_bytes ms \<subseteq> {..< 281474976710656}"
    and build: "build_inv p F fa mem {ur}" and win: "{unat (fa_start fa) ..< unat (fa_end fa)} \<subseteq> regions_bytes rs"
    and root: "root_bytes root \<subseteq> regions_bytes rs" "KERNEL_VA_OFFSET \<le> root"
      "root_bytes root \<inter> {unat (fa_start fa) ..< unat (fa_end fa)} = {}"
  shows "mem_inv p root (cn, pl, mem)"
proof -
  obtain us where us: "cnode_slots cn = [CapEmpty, CapRootTcb, CapAddrSpace ur, CapConsole] @ us"
      "\<forall>c \<in> set us. \<exists>b n. c = CapUntyped b n 0"
      "(\<Union>c \<in> set us. cap_bytes (GRANULE p) c) = regions_bytes ms - regions_bytes rs" and ci: "cap_inv (GRANULE p) cn"
    using bootstrap_success [OF bs] by blast
  have ow: "owned_bytes (GRANULE p) cn = regions_bytes ms - regions_bytes rs"
    using us(1,3) by (auto simp: owned_bytes_def cap_bytes_def)
  note s = boot_caps_sets [OF us(1,2)]
  have inside: "span t (GRANULE p) \<inter> kernel_bytes p root cn = {}" if "utbl_ok p t" "fa_start fa \<le> t" "t < fa_next fa" for t
  proof -
    have "unat t + unat (GRANULE p) \<le> unat (fa_next fa)"
      using that build by (intro aligned_gap) (auto simp: utbl_ok_def build_inv_def us_inv_def fa_ok_def word_order_unat)
    moreover have "fa_next fa \<le> fa_end fa" using build by (simp add: build_inv_def us_inv_def fa_ok_def)
    ultimately have "span t (GRANULE p) \<subseteq> {unat (fa_start fa) ..< unat (fa_end fa)}"
      using that(2) by (auto simp: word_order_unat)
    then show ?thesis using win root(3) unfolding kernel_bytes_def ow by blast
  qed
  have sp: "spaces_ok p mem {ur}" using build by (simp add: build_inv_def us_inv_def)
  show ?thesis
  proof (rule mem_invI [OF ci], unfold s(1))
    show "\<exists>R. pool_inv p pl R \<and> pl_root1 pl \<in> R \<and> pool_secure p pl R \<and> pl_enabled pl" using pool by blast
    show "root_bytes root \<inter> owned_bytes (GRANULE p) cn = {}" using root(1) unfolding ow by blast
    show "spaces_ok p mem {ur}" by (rule sp)
    show "spaces_safe p mem {ur}" using build by (simp add: build_inv_def)
    show "CapPageTable t True \<in> set (cnode_slots cn) \<or> span t (GRANULE p) \<inter> kernel_bytes p root cn = {}"
      if "t \<in> tables_of p mem {ur}" for t
      using that build tables_of_ok [OF sp that] inside [of t] by (auto simp: build_inv_def us_inv_def)
    fix f assume "f \<in> user_frames p mem {ur}"
    then have f: "f \<in> F" using build by (auto simp: build_inv_def)
    then show "CapFrame f True \<in> set (cnode_slots cn) \<or> span f (GRANULE p) \<inter> kernel_bytes p root cn = {}"
      using build inside [of f] by (auto simp: build_inv_def)
    show "f \<notin> tables_of p mem {ur}" using f build by (auto simp: build_inv_def)
  qed (use ow low s(4) root(2) in auto)
qed

section \<open>The kernel image and the facts of the first phases\<close>

text \<open>
  What the linker script provides: the image lies below 2^48, the pool of page tables is aligned, the guard
  page below the stack exists, and the static control block of the root task lies inside the image.
\<close>

definition image_ok :: "platform \<Rightarrow> symbols \<Rightarrow> bool" where
  "image_ok p sy \<longleftrightarrow> pool_placed p (sy_pool sy) \<and>
     unat (sy_kernel_end sy) < 2 ^ 48 \<and> unat (sy_rodata_start sy) < 2 ^ 48 \<and> unat (sy_data_start sy) < 2 ^ 48 \<and>
     unat (sy_stack_bottom sy) < 2 ^ 48 \<and> unat (sy_stack_top sy) < 2 ^ 48 \<and>
     GRANULE p \<le> sy_stack_bottom sy \<and> GRANULE p \<le> sy_stack_top sy \<and>
     sy_kernel_start sy \<le> sy_root_tcb sy \<and> unat (sy_root_tcb sy) + 320 \<le> unat (sy_kernel_end sy)"

lemma image_okD:
  assumes "image_ok p sy"
  shows "pool_placed p (sy_pool sy)" "unat (sy_kernel_end sy) < 281474976710656" "unat (sy_rodata_start sy) < 281474976710656"
    "unat (sy_data_start sy) < 281474976710656" "unat (sy_stack_bottom sy) < 281474976710656" "unat (sy_stack_top sy) < 281474976710656"
    "unat (GRANULE p) \<le> unat (sy_stack_bottom sy)" "unat (GRANULE p) \<le> unat (sy_stack_top sy)"
    "unat (sy_kernel_start sy) \<le> unat (sy_root_tcb sy)" "unat (sy_root_tcb sy) + 320 \<le> unat (sy_kernel_end sy)"
    "unat (sy_kernel_start sy) < 281474976710656" "unat (sy_root_tcb sy) < 281474976710656"
    "unat (sy_kernel_start sy) \<le> unat (sy_kernel_end sy)"
  using assms by (auto simp: image_ok_def word_order_unat)

lemma sym_va_simps:
  assumes "unat s < 281474976710656"
  shows "unat (sym_va s) = unat s + 18446462598732840960" "sub_pn (sym_va s) KERNEL_VA_OFFSET = Inr s" "KERNEL_VA_OFFSET \<le> sym_va s"
    "sym_va s - KERNEL_VA_OFFSET = s"
proof -
  show u: "unat (sym_va s) = unat s + 18446462598732840960" unfolding sym_va_def by (rule unat_offset [OF assms])
  show "sym_va s - KERNEL_VA_OFFSET = s" by (simp add: sym_va_def)
  show "KERNEL_VA_OFFSET \<le> sym_va s" using u by (simp add: word_order_unat unat_OFFSET)
  then show "sub_pn (sym_va s) KERNEL_VA_OFFSET = Inr s" by (simp add: sub_pn_def sym_va_def)
qed

lemma check_wx_boots: "image_ok p sy \<Longrightarrow> boots (\<lambda>_. True) (check_wx p sy hw regs pl mem)"
proof -
  assume i: "image_ok p sy"
  note D = image_okD [OF i]
  have "sub_pn (sym_va (sy_stack_bottom sy)) (GRANULE p) = Inr (sym_va (sy_stack_bottom sy) - GRANULE p)"
      "sub_pn (sym_va (sy_stack_top sy)) (GRANULE p) = Inr (sym_va (sy_stack_top sy) - GRANULE p)"
    using D(7,8) by (auto intro!: sub_pn_ok simp: sym_va_simps(1) [OF D(5)] sym_va_simps(1) [OF D(6)])
  then show ?thesis by (simp add: check_wx_def Let_def sym_va_simps(2) [OF D(11)] run_checks_boots)
qed

lemma check_user_wx_boots: "image_ok p sy \<Longrightarrow> boots (\<lambda>_. True) (check_user_wx p sy hw segs hard regs pl mem)"
proof -
  assume i: "image_ok p sy"
  have "sub_pn USER_STACK_TOP USER_STACK_SIZE = Inr 0xFFF0000" "sub_pn 0xFFF0000 (GRANULE p) = Inr (0xFFF0000 - GRANULE p)"
      "sub_pn USER_STACK_TOP (GRANULE p) = Inr (USER_STACK_TOP - GRANULE p)"
    by (cases p; simp add: sub_pn_def USER_STACK_TOP_def USER_STACK_SIZE_def GRANULE_def)+
  then show ?thesis
    by (simp add: check_user_wx_def Let_def sym_va_simps(2) [OF image_okD(11) [OF i]] run_checks_boots split: option.split)
qed

definition low_memory :: "boot_info \<Rightarrow> bool" where
  "low_memory info \<longleftrightarrow> list_all (\<lambda>m. unat (mr_base m) + unat (mr_size m) \<le> 2 ^ 48) (bi_memory_list info)"

definition facts_ok :: "symbols \<Rightarrow> boot_facts \<Rightarrow> bool" where
  "facts_ok sy bf \<longleftrightarrow> bf_image_start bf = sy_kernel_start sy \<and> bf_image_end bf = sy_kernel_end sy \<and>
     info_ok (bf_info bf) \<and> fst (bi_dtb (bf_info bf)) \<le> snd (bi_dtb (bf_info bf)) \<and> low_memory (bf_info bf)"

lemma info_regions: "info_ok info \<Longrightarrow> list_all mr_ok (bi_memory_list info)"
  by (auto simp: info_ok_def regions_ok_def bi_memory_list_def mr_ok_def list_all_iff)

lemma boot_phase2_boots:
  assumes image: "image_ok p sy" and sha: "\<And>x. length (hash x) = 32"
    and low: "\<And>info. parse (mem_byte mem) dtb_phys (unat (sy_kernel_start sy), unat (sy_kernel_end sy)) (unat KERNEL_VA_OFFSET) = Inr info \<Longrightarrow> low_memory info"
  shows "boots (facts_ok sy) (boot_phase2 p sy hw hash ri dtb_phys hr regs pl mem con)"
proof -
  note D = image_okD [OF image]
  have "length (key_block hash e x c) = 4" for e x c by (simp add: key_block_def chunks_four sha)
  then have keys: "boots (\<lambda>_. True) (derive_pac_keys hash e x)" for e x
    by (simp add: derive_pac_keys_def pac_loop_block pac_loop_done)
  let ?parse = "parse (mem_byte mem) dtb_phys (unat (sy_kernel_start sy), unat (sy_kernel_end sy)) (unat KERNEL_VA_OFFSET)"
  have parsed: "boots (\<lambda>info. ?parse = Inr info \<and> info_ok info \<and> fst (bi_dtb info) \<le> snd (bi_dtb info)) (parsed_or_park ?parse)"
    using safe_parse [of dtb_phys "(unat (sy_kernel_start sy), unat (sy_kernel_end sy))" "mem_byte mem" "unat KERNEL_VA_OFFSET"] by (auto simp: parsed_or_park_def safe_def split: sum.splits)
  show ?thesis
    unfolding boot_phase2_def sym_pa_def sym_va_simps(2) [OF D(11)] sym_va_simps(2) [OF D(2)] and_then_simps
    apply (rule boots_bind [OF check_wx_boots [OF image]])
    apply (rule boots_bind [OF parsed])
    subgoal premises q for u info
    proof -
      have cm: "boots (\<lambda>_. True) (check_memory_map p info)"
        using clear_of_devices_exact [OF info_regions, of info] q by (simp add: check_memory_map_def)
      have f: "low_memory info" using q low by blast
      show ?thesis
        apply (rule boots_bind [OF cm])
        apply (cases "verify_root_task hash ri", simp)
        apply (simp only: sum.case Let_def)
        apply (rule boots_bind [OF keys])
        using q f by (auto simp: facts_ok_def split: sum.split prod.split)
    qed
    done
qed

section \<open>From the window to the root task\<close>

lemma boots_park2:
  "ends (\<lambda>(r, y). \<forall>x. r = Inr x \<longrightarrow> Q x y) m \<Longrightarrow> (\<And>x y. Q x y \<Longrightarrow> boots P (f x y)) \<Longrightarrow> boots P (and_then (or_park m) (\<lambda>(x, y). f x y))"
  by (auto simp: ends_def or_park_def split: sum.splits)

lemma boots_park3:
  "ends (\<lambda>(r, y, z). \<forall>x. r = Inr x \<longrightarrow> Q x y z) m \<Longrightarrow> (\<And>x y z. Q x y z \<Longrightarrow> boots P (f x y z))
     \<Longrightarrow> boots P (and_then (or_park m) (\<lambda>(x, y, z). f x y z))"
  by (auto simp: ends_def or_park_def split: sum.splits)

lemma boots_park4:
  "ends (\<lambda>(r, y, z). \<forall>x x'. r = Inr (x, x') \<longrightarrow> Q x x' y z) m \<Longrightarrow> (\<And>x x' y z. Q x x' y z \<Longrightarrow> boots P (f x x' y z))
     \<Longrightarrow> boots P (and_then (or_park m) (\<lambda>((x, x'), y, z). f x x' y z))"
  by (auto simp: ends_def or_park_def split: sum.splits)

lemma boots_ends: "ends Q m \<Longrightarrow> boots Q m"
  by (auto simp: ends_def)

lemma bootstrap_boots: "boots (\<lambda>r. bootstrap ms rs ur = Inr r) (bootstrap ms rs ur)"
  using push_all_untypeds_total(1) [of ms "boot_caps ur" rs]
  by (auto simp: bootstrap_alt memory_ok_def boots_def split: sum.split)

lemma phys_bytes: "region_bytes (phys_of r) = mr_bytes r"
  by (simp add: region_bytes_def mr_bytes_def phys_of_def)

lemma reserved_regions_boots:
  assumes "unat s \<le> unat e" "dtb_region info = Inr dtb" "unat (r_start w) \<le> unat (r_end w)"
  shows "boots (\<lambda>rs. {unat s ..< unat e} \<subseteq> regions_bytes rs \<and> range_bytes w \<subseteq> regions_bytes rs) (reserved_regions s e info w)"
  using assms by (auto simp: reserved_regions_def sub_pn_ok region_bytes_def range_bytes_def unat_sub_64)

text \<open>What the last steps of the boot need from the window.\<close>

lemma window_low:
  assumes w: "window_ok p obs ms ke w" and low: "list_all (\<lambda>m. unat (mr_base m) + unat (mr_size m) \<le> 2 ^ 48) ms"
  shows "unat (r_end w) \<le> 281474976710656"
proof -
  obtain m where m: "m \<in> set ms" "range_bytes w \<subseteq> mr_bytes m" using w by (auto simp: window_ok_def)
  have e: "unat (r_end w) = unat (r_start w) + 2 * 1024 * 1024" using w by (simp add: window_ok_def)
  then have "unat (r_end w) - 1 \<in> range_bytes w" by (simp add: range_bytes_def)
  then have "unat (r_end w) - 1 < unat (mr_base m) + unat (mr_size m)" using m(2) by (auto simp: mr_bytes_def)
  moreover have "unat (mr_base m) + unat (mr_size m) \<le> 281474976710656" using low m(1) by (auto simp: list_all_iff)
  ultimately show ?thesis using e by linarith
qed

lemma window_alloc:
  assumes "unat (r_end w) \<le> 281474976710656" "frame_alloc_new p w = Inr fa"
  shows "build_inv p {} fa mem {}" "fa_start fa = r_start w" "fa_end fa = r_end w"
  using assms by (auto simp: frame_alloc_new_def build_inv_empty fa_ok_def split: if_splits)

lemma ends_bootinfo:
  assumes "build_inv p {} fa mem {}"
  shows "ends (\<lambda>(r, fa', mem'). \<forall>b. r = Inr b \<longrightarrow> (\<exists>F. b \<in> F \<and> build_inv p F fa' mem' {} \<and> grown fa fa')) (frame_alloc_alloc p fa mem)"
  unfolding frame_alloc_alloc_def
proof (rule ends_mono [OF ends_alloc [OF assms]])
  fix x :: "(mmu_error + u64) \<times> frame_alloc \<times> memory"
  assume a: "case x of (r, fa', mem') \<Rightarrow> \<forall>b. r = Inr b \<longrightarrow>
      (\<exists>len. unat len = unat (1 :: u64) * unat (GRANULE p) \<and> unat b + unat len \<le> 281474976710656 \<and> utbl_ok p b \<and>
         build_inv p ({} \<union> frames_in p b len) fa' mem' {} \<and> grown fa fa' \<and>
         (\<forall>r \<in> {}. \<forall>va. user_leaf p mem' r va = user_leaf p mem r va))"
  have "b \<in> frames_in p b len" if "utbl_ok p b" "unat len = unat (1 :: u64) * unat (GRANULE p)" for b len
    using that GRANULE_bounds(1) [of p] by (simp add: frames_in_def utbl_ok_def)
  with a show "case x of (r, fa', mem') \<Rightarrow> \<forall>b. r = Inr b \<longrightarrow> (\<exists>F. b \<in> F \<and> build_inv p F fa' mem' {} \<and> grown fa fa')"
    by (cases x) fastforce
qed

text \<open>The first state of the scheduler, from what the boot has built.\<close>

lemma boot_k_inv:
  assumes mem: "mem_inv p root (cn, pl, m)" and bs: "bootstrap ms rs ur = Inr (Inr cn)" and ur: "utbl_ok p ur"
    and tcb: "tcb = tcb_zeroed\<lparr>t_ctx := context_zeroed\<lparr>c_elr := entry, c_sp := stk, c_spsr := 0\<rparr>, t_ttbr0_pa := ur\<rparr>"
    and ks: "ks_cnode ks = cn" "ks_pool ks = pl" "ks_mem ks = m" "ks_sched ks = \<lparr>sc_current = 0, sc_head = 0, sc_tail = 0\<rparr>"
      "ks_tcbs ks = (\<lambda>_. tcb_zeroed)(root := tcb)" "ttbr0_el1 (ks_regs ks) = ur"
  shows "k_inv p root (handoff root ks)"
proof -
  obtain us where us: "cnode_slots cn = [CapEmpty, CapRootTcb, CapAddrSpace ur, CapConsole] @ us"
      "\<forall>c \<in> set us. \<exists>b n. c = CapUntyped b n 0"
    using bootstrap_success [OF bs] by blast
  note s = boot_caps_sets [OF us]
  have "KERNEL_VA_OFFSET \<le> root" using mem_invD(11) [OF mem] .
  then have r0: "root \<noteq> 0" by (auto simp: KERNEL_VA_OFFSET_def)
  have "el0_status (c_spsr (t_ctx (ks_tcbs (handoff root ks) t)))" for t
    by (simp add: handoff_def ks set_state_def tcb tcb_zeroed_def context_zeroed_def el0_status_def)
  moreover have "tasks_ok {ur} {root} {} (handoff root ks)"
    by (rule boot_tasks_ok [OF r0 ur _ _ ks(6) ks(4,5) refl]) (simp_all add: tcb tcb_zeroed_def)
  moreover have "ks_cnode (handoff root ks) = cn" "ks_pool (handoff root ks) = pl" "ks_mem (handoff root ks) = m"
    by (simp_all add: handoff_def ks)
  ultimately show ?thesis using mem by (simp add: k_inv_def k_tasks_def s)
qed

text \<open>Capabilities, the bootinfo page and the last checks.\<close>

lemma boot_finish:
  assumes image: "image_ok p sy" and build: "build_inv p F fa mem {ur}" and bi: "bi \<in> F"
    and pool: "pool_inv p pl R" "pl_root1 pl \<in> R" "pool_secure p pl R" "pl_enabled pl"
    and dtb: "dtb_region info = Inr dtb" and w: "fa_start fa = r_start w" "fa_end fa = r_end w" "sy_kernel_end sy \<le> r_start w"
    and low: "list_all (\<lambda>m. unat (mr_base m) + unat (mr_size m) \<le> 2 ^ 48) ms"
    and K: "\<And>rs cn mem'. bootstrap (map phys_of ms) rs ur = Inr (Inr cn) \<Longrightarrow>
        mem_inv p (sym_va (sy_root_tcb sy)) (cn, pl, mem') \<Longrightarrow> k_inv p (sym_va (sy_root_tcb sy)) (K cn mem')"
  shows "boots (k_inv p (sym_va (sy_root_tcb sy)))
     (and_then (reserved_regions (sy_kernel_start sy) (sy_kernel_end sy) info w) (\<lambda>reserved.
      and_then (bootstrap (map phys_of ms) reserved ur) (\<lambda>c.
      case c of Inl e \<Rightarrow> Inl BootRejected | Inr cn \<Rightarrow>
      and_then (write_bootinfo p bi cn mem) (\<lambda>mem3.
      and_then (check_user_wx p sy hw segs hard regs pl mem3) (\<lambda>_. Inr (K cn mem3))))))"
proof -
  note D = image_okD [OF image]
  have fa: "unat (r_start w) \<le> unat (r_end w)" "fa_start fa \<le> fa_next fa" "fa_next fa \<le> fa_end fa"
    using build w(1,2) by (auto simp: build_inv_def us_inv_def fa_ok_def word_order_unat)
  note tcb = sym_va_simps [OF D(12)]
  have rb: "root_bytes (sym_va (sy_root_tcb sy)) = {unat (sy_root_tcb sy) ..< unat (sy_root_tcb sy) + 320}"
    by (auto simp: root_bytes_def tcb(4))
  have lowb: "regions_bytes (map phys_of ms) \<subseteq> {..< 281474976710656}"
    using low by (fastforce simp: list_all_iff phys_bytes mr_bytes_def)
  show ?thesis
    apply (rule boots_bind [OF reserved_regions_boots [OF D(13) dtb fa(1)]])
    apply (rule boots_bind [OF bootstrap_boots])
    subgoal premises q for rs c
    proof (cases c)
      case (Inr cn)
      have bs: "bootstrap (map phys_of ms) rs ur = Inr (Inr cn)" using q(2) Inr by simp
      obtain us where "cap_inv (GRANULE p) cn" using bootstrap_success [OF bs] by blast
      then have n: "length (cnode_slots cn) \<le> 32" by (simp add: cap_inv_def cnode_ok_def CNODE_SLOTS_def)
      have rs: "{unat (fa_start fa) ..< unat (fa_end fa)} \<subseteq> regions_bytes rs" "root_bytes (sym_va (sy_root_tcb sy)) \<subseteq> regions_bytes rs"
          "root_bytes (sym_va (sy_root_tcb sy)) \<inter> {unat (fa_start fa) ..< unat (fa_end fa)} = {}"
      proof -
        have "range_bytes w = {unat (fa_start fa) ..< unat (fa_end fa)}" by (simp add: range_bytes_def w)
        then show "{unat (fa_start fa) ..< unat (fa_end fa)} \<subseteq> regions_bytes rs" using q(1) by blast
        have "root_bytes (sym_va (sy_root_tcb sy)) \<subseteq> {unat (sy_kernel_start sy) ..< unat (sy_kernel_end sy)}"
          unfolding rb using D(9,10) by auto
        then show "root_bytes (sym_va (sy_root_tcb sy)) \<subseteq> regions_bytes rs" using q(1) by blast
        show "root_bytes (sym_va (sy_root_tcb sy)) \<inter> {unat (fa_start fa) ..< unat (fa_end fa)} = {}"
          unfolding rb using D(10) w(1,3) by (auto simp: word_order_unat)
      qed
      show ?thesis
        unfolding Inr sum.case
        apply (rule boots_bind [OF boots_ends [OF write_bootinfo_ends [OF build bi n]]])
        apply (rule boots_bind [OF check_user_wx_boots [OF image]])
        using K [OF bs boot_mem_inv [OF pool bs lowb _ rs(1,2) tcb(3) rs(3)]] by simp
    qed simp
    done
qed

lemma boot_phase3_boots:
  assumes image: "image_ok p sy" and facts: "facts_ok sy bf"
    and pool: "pool_inv p pl R" "pl_root1 pl \<in> R" "pool_secure p pl R" "pl_enabled pl"
  shows "boots (k_inv p (sym_va (sy_root_tcb sy))) (boot_phase3 p sy hw bf regs pl mem)"
proof -
  note D = image_okD [OF image]
  let ?info = "bf_info bf" and ?root = "sym_va (sy_root_tcb sy)"
  have fo: "bf_image_start bf = sy_kernel_start sy" "bf_image_end bf = sy_kernel_end sy" "info_ok ?info"
      "fst (bi_dtb ?info) \<le> snd (bi_dtb ?info)"
      and low: "list_all (\<lambda>m. unat (mr_base m) + unat (mr_size m) \<le> 2 ^ 48) (bi_memory_list ?info)"
    using facts by (simp_all add: facts_ok_def low_memory_def)
  obtain dtb where dtb: "dtb_region ?info = Inr dtb" and pick: "pick_window p ?info (sy_kernel_end sy) = Inr None \<or>
      (\<exists>w. pick_window p ?info (sy_kernel_end sy) = Inr (Some w) \<and>
        window_ok p (dtb # bi_reserved_list ?info) (bi_memory_list ?info) (sy_kernel_end sy) w)"
    using pick_window_result [OF fo(3,4)] by blast
  from pick show ?thesis
  proof
    assume "\<exists>w. pick_window p ?info (sy_kernel_end sy) = Inr (Some w) \<and>
        window_ok p (dtb # bi_reserved_list ?info) (bi_memory_list ?info) (sy_kernel_end sy) w"
    then obtain w where w: "pick_window p ?info (sy_kernel_end sy) = Inr (Some w)"
        "window_ok p (dtb # bi_reserved_list ?info) (bi_memory_list ?info) (sy_kernel_end sy) w" by blast
    note wl = window_low [OF w(2) low]
    show ?thesis
      unfolding boot_phase3_def Let_def fo(1,2) w(1) and_then_simps option.case
      apply (rule boots_park2 [OF map_window_ends [OF pool wl]])
      apply (elim conjE)
      subgoal premises q1 for u pl1
      proof (cases "frame_alloc_new p w")
        case (Inr fa0)
        note wa = window_alloc [OF wl Inr]
        show ?thesis
          unfolding Inr sum.case
          apply (rule boots_park3 [OF ends_bootinfo [OF wa(1)]])
          apply (elim exE conjE)
          subgoal premises q2 for bi fa1 mem1 F
          proof (cases "4 < length (vr_segments (bf_task bf))")
            case False
            show ?thesis
              unfolding if_not_P [OF False]
              apply (rule boots_park4 [OF spawn_root_builds [OF q2(2,1)]])
              subgoal premises q3 for tcb ur fa2 mem2
              proof -
                from q3 obtain F' where F': "F \<subseteq> F'" "build_inv p F' fa2 mem2 {ur}" "grown fa1 fa2" "utbl_ok p ur"
                  and tcb: "tcb = tcb_zeroed\<lparr>t_ctx := context_zeroed\<lparr>c_elr := vr_entry (bf_task bf), c_sp := USER_STACK_TOP, c_spsr := 0\<rparr>, t_ttbr0_pa := ur\<rparr>"
                  by blast
                have bi: "bi \<in> F'" using F'(1) q2(1) by blast
                have g: "fa_start fa2 = r_start w" "fa_end fa2 = r_end w" "sy_kernel_end sy \<le> r_start w"
                  using F'(3) q2(3) wa(2,3) w(2) by (simp_all add: grown_def window_ok_def)
                show ?thesis
                  by (rule boot_finish [OF image F'(2) bi q1 dtb g low], rule boot_k_inv [OF _ _ F'(4) tcb])
                    (simp_all add: install_user_ttbr0_def)
              qed
              done
          qed simp
          done
      qed simp
      done
  qed (simp add: boot_phase3_def Let_def fo(2))
qed

section \<open>The whole boot\<close>

lemma kernel_init_boots:
  assumes image: "image_ok p sy" and dtb: "dtb_phys + 2 * 1024 * 1024 < 2 ^ 48"
  shows "boots (\<lambda>(pl, regs', con). pool_inv p pl {0, 1} \<and> pl_root1 pl \<in> {0, 1} \<and> pool_secure p pl {0, 1} \<and> pl_enabled pl)
    (kernel_init p sy hw dtb_phys mem regs)"
proof -
  note D = image_okD [OF image]
  let ?span = "dtb_span (\<lambda>a. mem_byte mem (a + unat KERNEL_VA_OFFSET)) dtb_phys"
  have span: "boots (\<lambda>(s, e). e \<le> dtb_phys + 2 * 1024 * 1024) (parsed_or_park ?span)"
    using safe_dtb_span [of dtb_phys "\<lambda>a. mem_byte mem (a + unat KERNEL_VA_OFFSET)"] dtb
    by (auto simp: safe_def parsed_or_park_def split: sum.splits)
  show ?thesis
    unfolding kernel_init_def
    apply (rule boots_bind [OF span])
    subgoal premises q for dtb
    proof -
      obtain layout where l: "boot_layout p sy dtb = Inr layout" "layout_ok layout"
      proof -
        have g: "sub_pn (sy_stack_bottom sy) (GRANULE p) = Inr (sy_stack_bottom sy - GRANULE p)"
          "unat (sy_stack_bottom sy - GRANULE p) \<le> unat (sy_stack_bottom sy)"
          using D(7) by (auto intro!: sub_pn_ok simp: unat_sub_64)
        have e: "unat (of_nat (snd dtb) :: u64) \<le> 281474976710656" using q assms(2) by (auto simp: unat_of_nat)
        have "\<forall>r \<in> set (device_windows p). unat (r_end r) \<le> 281474976710656"
          by (cases p) (simp_all add: device_windows_def Let_def MMIO_BASE_def GRANULE_def GICD_BASE_def GICD_SIZE_def GICR_BASE_def GICR_SIZE_def)
        then show thesis
          using g e D by (intro that) (auto simp: boot_layout_def layout_ok_def)
      qed
      obtain res where "enable_paging p (hw_mmfr0 hw) layout (POOL (sy_pool sy)) regs = Inr res"
          "\<forall>pl' regs'. res = Inr (pl', regs') \<longrightarrow> pool_inv p pl' {0, 1} \<and> pool_secure p pl' {0, 1} \<and> pl_enabled pl' \<and> pl_root1 pl' = 1"
        using enable_paging_success [OF D(1) l(2), of "hw_mmfr0 hw" regs] by blast
      then show ?thesis by (cases res) (auto simp: enable_mmu_def l(1))
    qed
    done
qed

lemma kernel_boot_boots:
  assumes image: "image_ok p sy" and dtb: "dtb_phys + 2 * 1024 * 1024 < 2 ^ 48" and sha: "\<And>x. length (hash x) = 32"
    and low: "\<And>info. parse (mem_byte mem) dtb_phys (unat (sy_kernel_start sy), unat (sy_kernel_end sy)) (unat KERNEL_VA_OFFSET) = Inr info \<Longrightarrow> low_memory info"
  shows "boots (m_inv p (sym_va (sy_root_tcb sy))) (kernel_boot p sy hw hash ri dtb_phys hr regs mem)"
  unfolding kernel_boot_def
proof (rule boots_bind [OF kernel_init_boots [OF image dtb]])
  fix x :: "pool \<times> mmu_regs \<times> console_item list"
  assume "case x of (pl, regs', con) \<Rightarrow> pool_inv p pl {0, 1} \<and> pl_root1 pl \<in> {0, 1} \<and> pool_secure p pl {0, 1} \<and> pl_enabled pl"
  then obtain pl regs' con where x: "x = (pl, regs', con)"
      and pool: "pool_inv p pl {0, 1}" "pl_root1 pl \<in> {0, 1}" "pool_secure p pl {0, 1}" "pl_enabled pl" by (cases x) auto
  have "boots (m_inv p (sym_va (sy_root_tcb sy))) (kernel_main p sy hw hash ri dtb_phys hr regs' pl mem con)"
    unfolding kernel_main_def
    by (rule boots_bind [OF boot_phase2_boots [OF image sha low]], assumption,
        rule boots_bind [OF boot_phase3_boots [OF image _ pool]], assumption) (simp add: m_inv_def)
  then show "boots (m_inv p (sym_va (sy_root_tcb sy)))
      (case x of (pl, regs1, con) \<Rightarrow> kernel_main p sy hw hash ri dtb_phys hr regs1 pl mem con)" by (simp add: x)
qed

section \<open>Bytes and words\<close>

lemma bit_le_sum:
  assumes "k \<le> 8"
  shows "bit (\<Sum>i < k. push_bit (8 * i) (ucast (b i :: u8)) :: u64) n \<longleftrightarrow> n < 8 * k \<and> bit (b (n div 8)) (n mod 8)"
  using assms
proof (induction k arbitrary: n)
  case (Suc k)
  let ?s = "\<Sum>i < k. push_bit (8 * i) (ucast (b i)) :: u64" and ?t = "push_bit (8 * k) (ucast (b k)) :: u64"
  have t: "bit ?t n \<longleftrightarrow> 8 * k \<le> n \<and> n < 8 * Suc k \<and> bit (b k) (n - 8 * k)" for n
    using Suc.prems bit_imp_le_length [of "b k" "n - 8 * k"] by (auto simp: bit_simps)
  have s: "bit ?s n \<longleftrightarrow> n < 8 * k \<and> bit (b (n div 8)) (n mod 8)" for n using Suc by simp
  have "?s AND ?t = 0" by (rule bit_eqI) (auto simp: bit_and_iff s t)
  then have "?s + ?t = ?s OR ?t" by (rule disjunctive_add_eq_or)
  moreover have "n div 8 = k \<and> n mod 8 = n - 8 * k" if "8 * k \<le> n" "n < 8 * Suc k"
  proof -
    define r where "r = n - 8 * k"
    have "n = 8 * k + r" "r < 8" using that by (auto simp: r_def)
    then show ?thesis by simp
  qed
  ultimately show ?case by (auto simp: bit_or_iff s t)
qed simp

lemma le64_byte:
  assumes "k < 8" "off + k < length bs"
  shows "ucast (drop_bit (8 * k) (le64 bs off)) = bs ! (off + k)"
proof -
  let ?b = "\<lambda>i. if off + i < length bs then bs ! (off + i) else 0"
  have "le64 bs off = (\<Sum>i < 8. push_bit (8 * i) (ucast (?b i)))"
    unfolding le64_def by (intro sum.cong) simp_all
  then have b: "bit (le64 bs off) n \<longleftrightarrow> n < 64 \<and> bit (?b (n div 8)) (n mod 8)" for n
    using bit_le_sum [of 8 ?b n] by simp
  show ?thesis
  proof (rule bit_word_eqI)
    fix n assume "n < LENGTH(8)"
    then have n: "n < 8" by simp
    have "(8 * k + n) div 8 = k" "(8 * k + n) mod 8 = n" "8 * k + n < 64" using n assms(1) by auto
    then show "bit (ucast (drop_bit (8 * k) (le64 bs off)) :: u8) n = bit (bs ! (off + k)) n"
      using n assms(2) by (simp add: bit_simps b)
  qed
qed

lemma mem_byte_copy:
  assumes va: "8 dvd unat va" "unat va + length bs \<le> 18446744073709551616" and i: "i < length bs"
  shows "mem_byte (copy_bytes bs va mem) (unat va + i) = bs ! i"
proof -
  define r q where "r = i mod 8" "q = i - i mod 8"
  have m: "(unat va + i) mod 8 = r" unfolding r_q_def using va(1) by (metis dvd_imp_mod_0 mod_add_left_eq add_0)
  have q: "i = q + r" "r < 8" by (simp_all add: r_q_def)
  define w :: u64 where "w = of_nat (unat va + q)"
  have u: "unat w = unat va + q" unfolding w_def using va(2) i q(1) by (intro unat_of_nat_small) simp
  have "copy_bytes bs va mem w = le64 bs q" using i q(1) by (simp add: copy_bytes_def u)
  moreover have "of_nat (unat va + i - r) = w" using q(1) by (simp add: w_def)
  ultimately show ?thesis
    unfolding mem_byte_def m using le64_byte [OF q(2), of q bs] q(1) i by simp
qed

section \<open>Properties\<close>


text \<open>A QEMU board with its device tree in memory.\<close>

definition demo_symbols :: symbols where
  "demo_symbols = \<lparr>sy_kernel_start = 0x40080000, sy_kernel_end = 0x40300000, sy_rodata_start = 0x40100000, sy_data_start = 0x40180000,
     sy_stack_bottom = 0x40281000, sy_stack_top = 0x40291000, sy_pool = 0x401C0000, sy_root_tcb = 0x401A0000\<rparr>"

definition demo_memory :: memory where
  "demo_memory = copy_bytes (board_blob qemu_virt) (sym_va 0x48000000) (\<lambda>_. 0)"

lemma demo_parse:
  "\<exists>info. parse (mem_byte demo_memory) 0x48000000 (0x40080000, 0x40300000) (unat KERNEL_VA_OFFSET) = Inr info \<and>
     bi_memory_list info = [\<lparr>mr_base = 0x40000000, mr_size = 0x20000000\<rparr>]"
proof -
  let ?b = "board_blob qemu_virt"
  have va: "unat (sym_va 0x48000000) = 0x48000000 + unat KERNEL_VA_OFFSET"
    by (simp add: sym_va_def KERNEL_VA_OFFSET_def)
  have len: "length ?b \<le> 2 * 1024 * 1024" using qemu_virt_len by simp
  have m: "map (mem_byte demo_memory) [0x48000000 + unat KERNEL_VA_OFFSET ..< 0x48000000 + unat KERNEL_VA_OFFSET + length ?b] = ?b"
  proof (rule nth_equalityI)
    fix i assume "i < length (map (mem_byte demo_memory) [0x48000000 + unat KERNEL_VA_OFFSET ..< 0x48000000 + unat KERNEL_VA_OFFSET + length ?b])"
    then have i: "i < length ?b" by simp
    have "mem_byte demo_memory (unat (sym_va 0x48000000) + i) = ?b ! i"
      unfolding demo_memory_def by (rule mem_byte_copy) (use i len in \<open>simp_all add: va unat_OFFSET dvd_eq_mod_eq_0\<close>)
    then show "map (mem_byte demo_memory) [0x48000000 + unat KERNEL_VA_OFFSET ..< 0x48000000 + unat KERNEL_VA_OFFSET + length ?b] ! i = ?b ! i"
      using i by (simp add: va)
  qed simp
  have e: "expected_memory qemu_virt = [\<lparr>mr_base = 0x40000000, mr_size = 0x20000000\<rparr>]"
    by (simp add: expected_memory_def regions_of_def qemu_virt_def board_empty_def)
  show ?thesis
    using parse_board_memory [OF qemu_virt_ok len m, of "(0x40080000, 0x40300000)"] len by (auto simp: unat_OFFSET e)
qed


lemma far_memory_accepted:
  "check_memory_map p ((info_new dtb)\<lparr>bi_regions := [\<lparr>mr_base = 0x1000000000000, mr_size = 0x40000000\<rparr>], bi_region_count := 1\<rparr>) = Inr ()"
  by (cases p) (simp_all add: check_memory_map_def bi_memory_list_def device_windows_def Let_def MMIO_BASE_def GRANULE_def GICD_BASE_def
      GICD_SIZE_def GICR_BASE_def GICR_SIZE_def)

text \<open>
  C35. Why memory must lie below 2^48: the check of the memory map accepts a device tree that announces memory above it, and
  preparing a frame carved out of such memory overflows the address of its kernel alias and panics, on behalf of a system call.
\<close>

theorem far_memory_panics:
  assumes "pl_enabled (ks_pool ks)" "aligned (GRANULE p) pa" "2 ^ 48 \<le> unat pa" "unat pa + unat (GRANULE p) < 2 ^ 64"
  shows "retype_prep p pa ks = Inl Panic \<and>
    check_memory_map p ((info_new dtb)\<lparr>bi_regions := [\<lparr>mr_base = 0x1000000000000, mr_size = 0x40000000\<rparr>], bi_region_count := 1\<rparr>) = Inr ()"
proof -
  have e: "unat (pa + GRANULE p) = unat pa + unat (GRANULE p)" using assms(4) by (intro unat_add_64) simp
  have "\<not> pa + GRANULE p \<le> pa" "aligned (GRANULE p) (pa + GRANULE p)"
    using e GRANULE_bounds(1) [of p] assms(2) by (simp_all add: word_order_unat aligned_dvd)
  moreover have "add_pn pa KERNEL_VA_OFFSET = Inl Panic" using assms(3) by (simp add: add_pn_Inl unat_OFFSET)
  ultimately show ?thesis
    using assms(1,2,4) far_memory_accepted by (simp add: retype_prep_def add_pn_ok map_kernel_window_def)
qed

theorem far_memory_panics_witness:
  "retype_prep Virt 0x1000000000000 demo_ks = Inl Panic"
proof -
  have "pl_enabled (ks_pool demo_ks)" by (simp add: demo_ks_def POOL_def)
  then show ?thesis
    using far_memory_panics [of demo_ks Virt "0x1000000000000"] by (simp add: aligned_def GRANULE_def)
qed

end
