(* ===== verification/Spec2Isabelle.thy ===== *)
theory Spec2Isabelle
  imports Lifecycle BootInv
begin

text \<open>
  k0: a capability microkernel for AArch64, modelled component by component.
\<close>

end
